(* ===== verification/Prelude.thy ===== *)
theory Prelude
  imports Main "HOL-Library.Word" "HOL-Library.Multiset"
begin

text \<open>
  The shared vocabulary of the development: Rust's machine integers at their widths with the
  saturating operations the logic crates use (they deny unchecked arithmetic), durations,
  and the generic interfaces every transition of the program is proved against. A pure
  transition of the program takes a state and an input and returns the next state with the
  effects for its shell; \<open>run\<close> is such a transition over a sequence of inputs, and the
  locales below say what an invariant, a conservation law and a replayed view of a transition
  give over every run. They are interpreted on the model's own transitions in the theories of
  the components.
\<close>

named_theorems sat_simps \<open>saturating arithmetic\<close>
named_theorems flight_defs \<open>the operations of the work in flight\<close>
named_theorems sched_defs \<open>the operations of the read scheduler\<close>

section \<open>Machine integers\<close>

type_synonym u32 = "32 word"
type_synonym u64 = "64 word"
type_synonym usize = "64 word"
type_synonym i32 = "32 word"
type_synonym isize = "64 word"

text \<open>The identifiers that wrap one integer: a process, an outpost generation, a trace.\<close>

type_synonym pid = u32
type_synonym outpost_id = u64
type_synonym trace_id = u64

text \<open>\<open>saturating_add\<close>, \<open>saturating_sub\<close> and the addition of one, at any width.\<close>

definition sat_add :: "'a::len word \<Rightarrow> 'a word \<Rightarrow> 'a word" where
  "sat_add a b = (if unat a + unat b < 2 ^ LENGTH('a) then a + b else - 1)"

definition sat_sub :: "'a::len word \<Rightarrow> 'a word \<Rightarrow> 'a word" where
  "sat_sub a b = (if b \<le> a then a - b else 0)"

definition sat_succ :: "'a::len word \<Rightarrow> 'a word" where
  "sat_succ a = sat_add a 1"

lemma unat_max_word: "unat (- 1 :: 'a::len word) = 2 ^ LENGTH('a) - 1"
  by (simp add: unsigned_minus_1_eq_mask mask_eq_exp_minus_1)

lemma unat_max_bound: "unat a \<le> 2 ^ LENGTH('a) - 1" for a :: "'a::len word"
proof -
  have "unat a < 2 ^ LENGTH('a)" by (rule unsigned_less)
  then show ?thesis by linarith
qed

lemma unat_sat_add:
  "unat (sat_add a b) = min (unat a + unat b) (2 ^ LENGTH('a) - 1)"
  for a b :: "'a::len word"
proof (cases "unat a + unat b < 2 ^ LENGTH('a)")
  case True
  then show ?thesis by (simp add: sat_add_def unat_word_ariths)
next
  case False
  then show ?thesis by (simp add: sat_add_def unat_max_word)
qed

lemma unat_sat_sub: "unat (sat_sub a b) = unat a - unat b"
  by (auto simp: sat_sub_def unat_sub word_le_nat_alt)

lemma sat_add_ge [simp, sat_simps]: "a \<le> sat_add a b"
  using unat_max_bound [of a] by (simp add: word_le_nat_alt unat_sat_add)

lemma sat_add_mono [sat_simps]: "a \<le> a' \<Longrightarrow> b \<le> b' \<Longrightarrow> sat_add a b \<le> sat_add a' b'"
  by (simp add: word_le_nat_alt unat_sat_add)

lemma sat_add_0 [simp, sat_simps]: "sat_add a 0 = a"
  by (simp add: sat_add_def)

lemma sat_succ_ge [simp, sat_simps]: "a \<le> sat_succ a"
  by (simp add: sat_succ_def)

lemma sat_succ_greater [sat_simps]:
  assumes "a \<noteq> - 1"
  shows "a < sat_succ a"
proof -
  have "unat a \<noteq> unat (- 1 :: 'a word)"
    using assms by (simp add: word_unat_eq_iff)
  then have "unat a < 2 ^ LENGTH('a) - 1"
    using unat_max_bound [of a] by (simp add: unat_max_word)
  then show ?thesis
    by (simp add: sat_succ_def word_less_nat_alt unat_sat_add)
qed

lemma unat_sat_succ: "unat (sat_succ a) = min (Suc (unat a)) (2 ^ LENGTH('a) - 1)"
  for a :: "'a::len word"
  by (simp add: sat_succ_def unat_sat_add)

text \<open>Two summands below a modulus whose sum it divides complement each other.\<close>

lemma complement_mod:
  fixes x d n :: nat
  assumes "(x + d) mod n = 0" and "x < n" and "0 < d" and "d < n"
  shows "x = n - d"
  using assms by (cases "x + d < n") (simp_all add: le_mod_geq)

section \<open>Durations\<close>

text \<open>
  A \<open>std::time::Duration\<close> is a whole number of nanoseconds, at most \<open>u64::MAX\<close> seconds and
  \<open>999_999_999\<close> nanoseconds; its operations saturate there.
\<close>

type_synonym duration = nat

definition dur_max :: duration where
  "dur_max = 2 ^ 64 * 10 ^ 9 - 1"

definition from_micros :: "u64 \<Rightarrow> duration" where
  "from_micros n = unat n * 1000"

definition from_millis :: "u64 \<Rightarrow> duration" where
  "from_millis n = unat n * 1000000"

definition as_micros :: "duration \<Rightarrow> nat" where
  "as_micros d = d div 1000"

definition dur_sat_mul :: "duration \<Rightarrow> u32 \<Rightarrow> duration" where
  "dur_sat_mul d n = min (d * unat n) dur_max"

text \<open>\<open>u64::try_from(d.as_micros()).unwrap_or(u64::MAX)\<close>, the one way durations become times.\<close>

definition micros :: "duration \<Rightarrow> u64" where
  "micros d = (if as_micros d < 2 ^ 64 then word_of_nat (as_micros d) else - 1)"

lemma unat_micros: "unat (micros d) = min (as_micros d) (2 ^ 64 - 1)"
  by (auto simp: micros_def unat_of_nat unat_max_word)

end
