(* ===== verification/Classes.thy ===== *)
theory Classes
  imports Prelude "HOL-Library.Sublist"
begin

text \<open>
  Window classes as NVDA judges them before a window is read
  (\<^verbatim>\<open>crates/verbatim-reader-rules/src/class.rs\<close>): the normalization of a class name, the class
  lists, and the verdict both readers judge a window by. A Rust \<open>str\<close> is its bytes, a
  \<open>string\<close>.
\<close>

section \<open>The string operations of the standard library the rules use\<close>

definition strip_prefix :: "string \<Rightarrow> string \<Rightarrow> string option" where
  "strip_prefix p s = (if prefix p s then Some (drop (length p) s) else None)"

text \<open>\<open>str::rfind\<close>: where the last occurrence of the pattern starts.\<close>

fun rfind :: "string \<Rightarrow> string \<Rightarrow> nat option" where
  "rfind p [] = (if p = [] then Some 0 else None)"
| "rfind p (c # s) =
     (case rfind p s of
        Some i \<Rightarrow> Some (Suc i)
      | None \<Rightarrow> if prefix p (c # s) then Some 0 else None)"

definition is_ascii_digit :: "char \<Rightarrow> bool" where
  "is_ascii_digit c = (c \<in> set ''0123456789'')"

section \<open>Normalization\<close>

definition CLASS_MAP :: "(string \<times> string) list" where
  "CLASS_MAP = [
     (''EDIT'', ''Edit''),
     (''TTntEdit.UnicodeClass'', ''Edit''),
     (''TMaskEdit'', ''Edit''),
     (''TTntMemo.UnicodeClass'', ''Edit''),
     (''TRichEdit'', ''RichEdit20''),
     (''TRichViewEdit'', ''Edit''),
     (''TInEdit.UnicodeClass'', ''Edit''),
     (''TInEdit'', ''Edit''),
     (''TEdit'', ''Edit''),
     (''TFilenameEdit'', ''Edit''),
     (''TSpinEdit'', ''Edit''),
     (''ThunderRT6TextBox'', ''Edit''),
     (''TMemo'', ''Edit''),
     (''RICHEDIT'', ''RichEdit''),
     (''TPasswordEdit'', ''Edit''),
     (''THppEdit.UnicodeClass'', ''Edit''),
     (''TUnicodeTextEdit.UnicodeClass'', ''Edit''),
     (''TTextEdit'', ''Edit''),
     (''TPropInspEdit'', ''Edit''),
     (''TFilterbarEdit.UnicodeClass'', ''Edit''),
     (''EditControl'', ''Edit''),
     (''TNavigableTntMemo.UnicodeClass'', ''Edit''),
     (''TNavigableTntEdit.UnicodeClass'', ''Edit''),
     (''TAltEdit.UnicodeClass'', ''Edit''),
     (''TAltEdit'', ''Edit''),
     (''TDefEdit'', ''Edit''),
     (''TRichEditViewer'', ''RichEdit''),
     (''WFMAINRE'', ''RichEdit20''),
     (''RichEdit20A'', ''RichEdit20''),
     (''RichEdit20W'', ''RichEdit20''),
     (''TChatRichEdit'', ''RichEdit20''),
     (''TAccessibleEdit'', ''Edit''),
     (''TskRichEdit.UnicodeClass'', ''RichEdit20''),
     (''RichEdit20WPT'', ''RichEdit20''),
     (''RICHEDIT60W'', ''RICHEDIT50W''),
     (''TChatRichEdit.UnicodeClass'', ''RichEdit20''),
     (''TMyRichEdit'', ''RichEdit20''),
     (''TExRichEdit'', ''RichEdit20''),
     (''RichTextWndClass'', ''RichEdit20''),
     (''TSRichEdit'', ''RichEdit20''),
     (''TRxRichEdit'', ''RichEdit20''),
     (''ScintillaWindowImpl'', ''Scintilla''),
     (''RICHEDIT60W_WLXPRIVATE'', ''RICHEDIT50W''),
     (''TNumEdit'', ''Edit''),
     (''TAccessibleRichEdit'', ''RichEdit20'')]"

definition mapped_class :: "string \<Rightarrow> string option" where
  "mapped_class cls = map_option snd (find (\<lambda>(src, _). src = cls) CLASS_MAP)"

definition windows_forms_class :: "string \<Rightarrow> string option" where
  "windows_forms_class raw =
     (case strip_prefix ''WindowsForms'' raw of
        None \<Rightarrow> None
      | Some rest \<Rightarrow>
          (case strip_prefix ''.'' (dropWhile is_ascii_digit rest) of
             None \<Rightarrow> None
           | Some rest \<Rightarrow>
               (case rfind ''.app.'' rest of
                  None \<Rightarrow> None
                | Some endp \<Rightarrow> Some (take endp rest))))"

definition normalize_class_name :: "string \<Rightarrow> string" where
  "normalize_class_name raw =
     (case mapped_class raw of
        Some mapped \<Rightarrow> mapped
      | None \<Rightarrow>
          (case (case windows_forms_class raw of
                   Some inner \<Rightarrow> Some inner
                 | None \<Rightarrow> strip_prefix ''ATL:'' raw) of
             Some inner \<Rightarrow> (case mapped_class inner of Some mapped \<Rightarrow> mapped | None \<Rightarrow> inner)
           | None \<Rightarrow> raw))"

section \<open>The verdict\<close>

datatype ClassVerdict = Uia | NonUia | Unknown

record window_classes =
  wc_raw :: string
  wc_normalized :: string
  wc_root :: string

definition WindowClasses_new :: "string \<Rightarrow> string \<Rightarrow> window_classes" where
  "WindowClasses_new raw root =
     \<lparr>wc_raw = raw, wc_normalized = normalize_class_name raw, wc_root = root\<rparr>"

definition GOOD_UIA_CLASSES :: "string list" where
  "GOOD_UIA_CLASSES = [
     ''RAIL_WINDOW'',
     ''Microsoft.UI.Content.DesktopChildSiteBridge'',
     ''CASCADIA_HOSTING_WINDOW_CLASS'']"

definition SHELL_ROOT_CLASSES :: "string list" where
  "SHELL_ROOT_CLASSES = [
     ''Shell_TrayWnd'',
     ''Shell_InputSwitchTopLevelWindow'',
     ''XamlExplorerHostIslandWindow'',
     ''TopLevelWindowForOverflowXamlIsland'']"

definition BAD_UIA_CLASSES :: "string list" where
  "BAD_UIA_CLASSES = [
     ''Microsoft.IME.CandidateWindow.View'',
     ''SysTreeView32'',
     ''WuDuiListView'',
     ''ComboBox'',
     ''msctls_progress32'',
     ''msctls_trackbar32'',
     ''Edit'',
     ''CommonPlacesWrapperWndClass'',
     ''SysMonthCal32'',
     ''SUPERGRID'',
     ''RichEdit'',
     ''RichEdit20'',
     ''RICHEDIT50W'',
     ''Button'',
     ''FoxitDocWnd'',
     ''MozillaWindowClass'',
     ''MozillaDropShadowWindowClass'',
     ''MozillaDialogClass'',
     ''MozillaContentWindowClass'']"

definition is_shell :: "window_classes \<Rightarrow> bool" where
  "is_shell classes \<longleftrightarrow> wc_root classes \<in> set SHELL_ROOT_CLASSES \<and> wc_raw classes \<noteq> ''Start''"

definition classify_with ::
  "(string \<Rightarrow> bool) \<Rightarrow> (string \<Rightarrow> bool) \<Rightarrow> window_classes \<Rightarrow> ClassVerdict" where
  "classify_with good bad classes =
     (if good (wc_normalized classes) \<or> is_shell classes then Uia
      else if bad (wc_normalized classes) then NonUia
      else Unknown)"

definition class_verdict :: "window_classes \<Rightarrow> ClassVerdict" where
  "class_verdict classes =
     classify_with (\<lambda>cls. cls \<in> set GOOD_UIA_CLASSES) (\<lambda>cls. cls \<in> set BAD_UIA_CLASSES) classes"

section \<open>What the rules give\<close>

lemma find_key_map_of:
  "map_option snd (find (\<lambda>(src, _). src = k) m) = map_of m k"
  by (induction m) auto

lemma mapped_class_map_of: "mapped_class cls = map_of CLASS_MAP cls"
  by (simp add: mapped_class_def find_key_map_of)

text \<open>No class the map gives is itself a class it maps: one lookup is enough.\<close>

lemma class_map_targets: "list_all (\<lambda>(_, t). mapped_class t = None) CLASS_MAP"
  by code_simp

lemma mapped_class_stable: "mapped_class cls = Some t \<Longrightarrow> mapped_class t = None"
  using class_map_targets by (auto simp: mapped_class_map_of list_all_iff dest: map_of_SomeD)

text \<open>No class the map knows is a wrapped name, so a wrapped name is always unwrapped.\<close>

lemma class_map_not_wrapped:
  "list_all (\<lambda>(src, _). take 2 src \<noteq> ''Wi'' \<and> take 4 src \<noteq> ''ATL:'') CLASS_MAP"
  by (simp add: CLASS_MAP_def)

lemma mapped_class_wrapped:
  "mapped_class (''WindowsForms'' @ s) = None" "mapped_class (''ATL:'' @ s) = None"
  using class_map_not_wrapped
  by (fastforce simp: mapped_class_map_of list_all_iff map_of_eq_None_iff)+

text \<open>The last occurrence found is the wrapper's own when none starts later.\<close>

lemma rfind_append:
  assumes "rfind p s = Some i"
  shows "rfind p (t @ s) = Some (length t + i)"
  using assms by (induction t) auto

lemma windows_forms_class_wrap:
  assumes "\<forall>c \<in> set ds. is_ascii_digit c" and "rfind ''.app.'' (''app.'' @ suf) = None"
  shows "windows_forms_class (''WindowsForms'' @ ds @ ''.'' @ cls @ ''.app.'' @ suf) = Some cls"
proof -
  have dot: "\<not> is_ascii_digit (CHR ''.'')" by (simp add: is_ascii_digit_def)
  have drop: "dropWhile is_ascii_digit (ds @ CHR ''.'' # s) = CHR ''.'' # s" for s
    using assms(1) dot by (induction ds) auto
  have "rfind ''.app.'' (''.app.'' @ suf) = Some 0"
    using assms(2) by simp
  from rfind_append [OF this, of cls]
  have "rfind ''.app.'' (cls @ ''.app.'' @ suf) = Some (length cls)" by simp
  then show ?thesis
    by (simp add: windows_forms_class_def strip_prefix_def drop)
qed

text \<open>
  Normalization is one step: whatever a window's class is called, the normalized name is not
  itself a name of the class map, so looking it up again would change nothing.
\<close>

theorem normalize_not_mapped: "mapped_class (normalize_class_name raw) = None"
  by (auto simp: normalize_class_name_def split: option.splits dest: mapped_class_stable)

text \<open>
  A control wrapped by Windows Forms gets the verdict of the control it wraps: the name
  \<open>WindowsForms\<close>, digits, a dot, the class, \<open>.app.\<close> and a suffix in which no further \<open>.app.\<close>
  starts is judged, under every root window, as the bare class is. The bare class is not
  itself a wrapped name, and is not the Start button, which is judged by its raw name.
\<close>

theorem wrapped_verdict:
  assumes "\<forall>c \<in> set ds. is_ascii_digit c" and "rfind ''.app.'' (''app.'' @ suf) = None"
    and "windows_forms_class cls = None" and "strip_prefix ''ATL:'' cls = None" and "cls \<noteq> ''Start''"
  shows "class_verdict
      (WindowClasses_new (''WindowsForms'' @ ds @ ''.'' @ cls @ ''.app.'' @ suf) root) =
    class_verdict (WindowClasses_new cls root)"
proof -
  let ?raw = "''WindowsForms'' @ ds @ ''.'' @ cls @ ''.app.'' @ suf"
  have "normalize_class_name ?raw = normalize_class_name cls"
    unfolding normalize_class_name_def mapped_class_wrapped
      windows_forms_class_wrap [OF assms(1,2)] assms(3,4)
    by (simp split: option.splits)
  with assms(5) show ?thesis
    by (simp add: class_verdict_def classify_with_def WindowClasses_new_def is_shell_def)
qed

theorem wrapped_verdict_witness:
  "class_verdict (WindowClasses_new ''WindowsForms10.EDIT.app.0.141b42a_r9_ad1'' ''Notepad'') =
     class_verdict (WindowClasses_new ''EDIT'' ''Notepad'')"
proof -
  have "class_verdict (WindowClasses_new
      (''WindowsForms'' @ ''10'' @ ''.'' @ ''EDIT'' @ ''.app.'' @ ''0.141b42a_r9_ad1'') ''Notepad'') =
    class_verdict (WindowClasses_new ''EDIT'' ''Notepad'')"
    by (rule wrapped_verdict)
      (simp_all add: is_ascii_digit_def windows_forms_class_def strip_prefix_def)
  then show ?thesis by simp
qed

end
