(* ===== verification/Machines.thy ===== *)
theory Machines
  imports Prelude
begin

text \<open>
  Runs of a pure transition and the three interfaces its proofs go through. A transition takes
  the state and one input and returns the next state and its effects, in order; \<open>run\<close> threads
  it through a sequence of inputs, and \<open>run_ok\<close> says that every input of the sequence meets the
  contract \<open>ok\<close> of the state it is taken in, which is what the transition's shell keeps.
  \<^item> \<open>invariant_machine\<close>: an invariant kept by every step holds after every run.
  \<^item> \<open>conserving_machine\<close>: what a state owes and what its effects settle add up to what it
    owed before and what the input brought; over a run nothing is lost and nothing is
    settled twice.
  \<^item> \<open>mirrored_machine\<close>: a shell that applies the effects in order holds, after every run,
    the same value as the state.
  \<^item> \<open>rising_machine\<close>: a rank no step lowers is not lowered by a run.
  \<^item> \<open>queueing_machine\<close>: a relation between what left a queue or waits in it and what was put in it,
    kept by every step, holds after every run.
\<close>

fun run :: "('s \<Rightarrow> 'i \<Rightarrow> 's \<times> 'e list) \<Rightarrow> 's \<Rightarrow> 'i list \<Rightarrow> 's \<times> 'e list" where
  "run step s [] = (s, [])"
| "run step s (x # xs) =
     (let (s1, es1) = step s x; (s2, es2) = run step s1 xs in (s2, es1 @ es2))"

fun run_ok :: "('s \<Rightarrow> 'i \<Rightarrow> 's \<times> 'e list) \<Rightarrow> ('s \<Rightarrow> 'i \<Rightarrow> bool) \<Rightarrow> 's \<Rightarrow> 'i list \<Rightarrow> bool" where
  "run_ok step ok s [] = True"
| "run_ok step ok s (x # xs) = (ok s x \<and> run_ok step ok (fst (step s x)) xs)"

definition total :: "('e \<Rightarrow> 'm multiset) \<Rightarrow> 'e list \<Rightarrow> 'm multiset" where
  "total f es = sum_list (map f es)"

text \<open>What a kind of effect carries, over the effects of a run.\<close>

abbreviation all_of :: "('e \<Rightarrow> 'a list) \<Rightarrow> 'e list \<Rightarrow> 'a list" where
  "all_of f es \<equiv> concat (map f es)"

lemma total_simps [simp]:
  "total f [] = {#}"
  "total f (e # es) = f e + total f es"
  "total f (es @ es') = total f es + total f es'"
  by (simp_all add: total_def)

lemma run_Cons [simp]:
  "fst (run step s (x # xs)) = fst (run step (fst (step s x)) xs)"
  "snd (run step s (x # xs)) = snd (step s x) @ snd (run step (fst (step s x)) xs)"
  by (simp_all add: split_beta Let_def)

declare run.simps(2) [simp del]

lemma run_append:
  "fst (run step s (xs @ ys)) = fst (run step (fst (run step s xs)) ys)"
  "snd (run step s (xs @ ys)) = snd (run step s xs) @ snd (run step (fst (run step s xs)) ys)"
  by (induction xs arbitrary: s) simp_all

lemma run_ok_append:
  "run_ok step ok s (xs @ ys) \<longleftrightarrow>
     run_ok step ok s xs \<and> run_ok step ok (fst (run step s xs)) ys"
  by (induction xs arbitrary: s) simp_all

lemma run_ok_True [simp]: "run_ok step (\<lambda>_ _. True) s xs"
  by (induction xs arbitrary: s) simp_all

locale invariant_machine =
  fixes step :: "'s \<Rightarrow> 'i \<Rightarrow> 's \<times> 'e list"
    and ok :: "'s \<Rightarrow> 'i \<Rightarrow> bool"
    and inv :: "'s \<Rightarrow> bool"
  assumes step_inv: "inv s \<Longrightarrow> ok s x \<Longrightarrow> inv (fst (step s x))"
begin

lemma run_inv: "inv s \<Longrightarrow> run_ok step ok s xs \<Longrightarrow> inv (fst (run step s xs))"
  by (induction xs arbitrary: s) (simp_all add: step_inv)

text \<open>A property of every single effect, shown for one step, holds of every effect of a run.\<close>

lemma run_effects:
  assumes "\<And>s x e. inv s \<Longrightarrow> ok s x \<Longrightarrow> e \<in> set (snd (step s x)) \<Longrightarrow> P e"
    and "inv s" and "run_ok step ok s xs" and "e \<in> set (snd (run step s xs))"
  shows "P e"
  using assms(2-4) by (induction xs arbitrary: s) (auto intro: assms(1) step_inv)

end

locale conserving_machine = invariant_machine step ok inv
  for step :: "'s \<Rightarrow> 'i \<Rightarrow> 's \<times> 'e list" and ok inv +
  fixes owed :: "'s \<Rightarrow> 'm multiset"
    and taken :: "'i \<Rightarrow> 'm multiset"
    and settled :: "'e \<Rightarrow> 'm multiset"
  assumes step_conserves: "inv s \<Longrightarrow> ok s x \<Longrightarrow>
    owed (fst (step s x)) + total settled (snd (step s x)) = owed s + taken x"
begin

lemma run_conserves:
  assumes "inv s" and "run_ok step ok s xs"
  shows "owed (fst (run step s xs)) + total settled (snd (run step s xs)) =
           owed s + total taken xs"
  using assms
proof (induction xs arbitrary: s)
  case Nil
  then show ?case by simp
next
  case (Cons x xs)
  let ?s = "fst (step s x)"
  have "owed (fst (run step ?s xs)) + total settled (snd (run step ?s xs)) =
          owed ?s + total taken xs"
    using Cons by (simp add: step_inv)
  moreover have "owed ?s + total settled (snd (step s x)) = owed s + taken x"
    using Cons.prems by (simp add: step_conserves)
  ultimately show ?case
    by (simp add: union_assoc union_commute union_lcomm)
qed

text \<open>Nothing is settled that was neither owed at the start nor brought by an input.\<close>

corollary run_settles_only:
  assumes "inv s" and "run_ok step ok s xs"
  shows "total settled (snd (run step s xs)) \<subseteq># owed s + total taken xs"
  using run_conserves [OF assms] by (metis mset_subset_eq_add_right)

end

locale mirrored_machine = invariant_machine step ok inv
  for step :: "'s \<Rightarrow> 'i \<Rightarrow> 's \<times> 'e list" and ok inv +
  fixes view :: "'s \<Rightarrow> 'v"
    and apply_effect :: "'e \<Rightarrow> 'v \<Rightarrow> 'v"
  assumes step_view: "inv s \<Longrightarrow> ok s x \<Longrightarrow>
    view (fst (step s x)) = fold apply_effect (snd (step s x)) (view s)"
begin

lemma run_view:
  assumes "inv s" and "run_ok step ok s xs"
  shows "view (fst (run step s xs)) = fold apply_effect (snd (run step s xs)) (view s)"
  using assms by (induction xs arbitrary: s) (simp_all add: step_inv step_view)

end

locale rising_machine = invariant_machine step ok inv
  for step :: "'s \<Rightarrow> 'i \<Rightarrow> 's \<times> 'e list" and ok inv +
  fixes rank :: "'s \<Rightarrow> 'r::order"
  assumes step_rises: "inv s \<Longrightarrow> ok s x \<Longrightarrow> rank s \<le> rank (fst (step s x))"
begin

lemma run_rises:
  assumes "inv s" and "run_ok step ok s xs"
  shows "rank s \<le> rank (fst (run step s xs))"
  using assms
  by (induction xs arbitrary: s) (auto simp: step_inv intro: order_trans step_rises)

end

locale queueing_machine = invariant_machine step ok inv
  for step :: "'s \<Rightarrow> 'i \<Rightarrow> 's \<times> 'e list" and ok inv +
  fixes waits :: "'s \<Rightarrow> 'a list"
    and left :: "'e \<Rightarrow> 'a list"
    and brought :: "'e \<Rightarrow> 'b list"
    and rel :: "'a list \<Rightarrow> 'b list \<Rightarrow> bool"
  assumes step_rel: "inv s \<Longrightarrow> ok s x \<Longrightarrow> rel (out @ waits s) every \<Longrightarrow>
    rel ((out @ all_of left (snd (step s x))) @ waits (fst (step s x))) (every @ all_of brought (snd (step s x)))"
begin

lemma run_rel:
  assumes "inv s" and "run_ok step ok s xs" and "rel (out @ waits s) every"
  shows "rel ((out @ all_of left (snd (run step s xs))) @ waits (fst (run step s xs)))
    (every @ all_of brought (snd (run step s xs)))"
  using assms
proof (induction xs arbitrary: s out every)
  case (Cons x xs)
  then show ?case
    using Cons.IH [of "fst (step s x)" "out @ all_of left (snd (step s x))" "every @ all_of brought (snd (step s x))"]
      step_inv [of s x] step_rel [of s x out every] by simp
qed simp

end

end
