(* ===== verification/Foreground_Watch.thy ===== *)
theory Foreground_Watch
  imports Machines
begin

text \<open>
  What the focus listener learns of the window in the foreground
  (\<^verbatim>\<open>crates/verbatim-listener-logic/src/foreground.rs\<close>). \<open>foreground_watch\<close> is its state; each
  method returns the state and a \<open>watch_out\<close> (the source's \<open>Step\<close>): the window to report and
  whether every console's events are to be hooked from now on.
\<close>

section \<open>The state and its operations\<close>

record front =
  fr_window :: isize
  fr_thread :: u32
  fr_console :: bool
  fr_observed_at_us :: u64

record watch_out =
  wo_report :: "front option"
  wo_console_events :: "bool option"

definition watch_nothing :: watch_out where
  "watch_nothing = \<lparr>wo_report = None, wo_console_events = None\<rparr>"

record foreground_watch =
  fw_started :: bool
  fw_unnamed_console :: "isize option"
  fw_console_events :: bool
  fw_pending :: "front option"

definition watch_new :: foreground_watch where
  "watch_new =
     \<lparr>fw_started = False, fw_unnamed_console = None, fw_console_events = False, fw_pending = None\<rparr>"

definition hook_consoles :: "bool \<Rightarrow> foreground_watch \<Rightarrow> foreground_watch \<times> bool option" where
  "hook_consoles hooked s =
     (if fw_console_events s \<noteq> hooked
      then (s\<lparr>fw_console_events := hooked\<rparr>, Some hooked)
      else (s, None))"

definition watch_sent :: "front \<Rightarrow> foreground_watch \<Rightarrow> foreground_watch \<times> watch_out" where
  "watch_sent front s =
     (let (s', change) = hook_consoles False (s\<lparr>fw_unnamed_console := None\<rparr>)
      in (s', \<lparr>wo_report = Some front, wo_console_events = change\<rparr>))"

definition watch_start :: "front option \<Rightarrow> foreground_watch \<Rightarrow> foreground_watch \<times> watch_out" where
  "watch_start front s =
     (let s = s\<lparr>fw_started := True, fw_console_events := True\<rparr>;
          (s, report) =
            (case front of
               None \<Rightarrow> (s, None)
             | Some front \<Rightarrow>
                 if fr_console front
                 then (s\<lparr>fw_unnamed_console := Some (fr_window front)\<rparr>, Some (front\<lparr>fr_thread := 0\<rparr>))
                 else (s, Some front));
          (s, change) = hook_consoles (fw_unnamed_console s \<noteq> None) s
      in (s, \<lparr>wo_report = report, wo_console_events = change\<rparr>))"

definition watch_foreground ::
  "front \<Rightarrow> bool \<Rightarrow> foreground_watch \<Rightarrow> foreground_watch \<times> watch_out" where
  "watch_foreground front in_front s =
     (if \<not> fw_started s then (s, watch_nothing)
      else if in_front then watch_sent front (s\<lparr>fw_pending := None\<rparr>)
      else (s\<lparr>fw_pending := Some front\<rparr>, watch_nothing))"

definition has_pending :: "foreground_watch \<Rightarrow> bool" where
  "has_pending s \<longleftrightarrow> fw_pending s \<noteq> None"

definition event_seen :: "isize \<Rightarrow> u64 \<Rightarrow> foreground_watch \<Rightarrow> foreground_watch \<times> watch_out" where
  "event_seen foreground observed s =
     (case fw_pending s of
        Some pending \<Rightarrow>
          if fw_started s \<and> fr_window pending = foreground
          then watch_sent (pending\<lparr>fr_observed_at_us := observed\<rparr>) (s\<lparr>fw_pending := None\<rparr>)
          else (s, watch_nothing)
      | None \<Rightarrow> (s, watch_nothing))"

definition console_event ::
  "isize \<Rightarrow> u32 \<Rightarrow> u64 \<Rightarrow> foreground_watch \<Rightarrow> foreground_watch \<times> watch_out" where
  "console_event window thread observed s =
     (if \<not> fw_started s \<or> fw_unnamed_console s \<noteq> Some window then (s, watch_nothing)
      else
        let (s', change) = hook_consoles False (s\<lparr>fw_unnamed_console := None\<rparr>)
        in (s', \<lparr>wo_report = Some \<lparr>fr_window = window, fr_thread = thread, fr_console = True,
                    fr_observed_at_us = observed\<rparr>,
                 wo_console_events = change\<rparr>))"

section \<open>Sequences of events\<close>

datatype watch_in = ForegroundIn front bool | EventSeen isize u64 | ConsoleEvent isize u32 u64

fun watch_step :: "foreground_watch \<Rightarrow> watch_in \<Rightarrow> foreground_watch \<times> watch_out list" where
  "watch_step s (ForegroundIn front in_front) = apsnd (\<lambda>x. [x]) (watch_foreground front in_front s)"
| "watch_step s (EventSeen fg observed) = apsnd (\<lambda>x. [x]) (event_seen fg observed s)"
| "watch_step s (ConsoleEvent w t observed) = apsnd (\<lambda>x. [x]) (console_event w t observed s)"

text \<open>The shell's hooks: changed as each step says.\<close>

definition apply_hooks :: "watch_out \<Rightarrow> bool \<Rightarrow> bool" where
  "apply_hooks st hooked = (case wo_console_events st of None \<Rightarrow> hooked | Some h \<Rightarrow> h)"

text \<open>Once started, every console's events are hooked exactly while a console's thread is unnamed.\<close>

definition watch_inv :: "foreground_watch \<Rightarrow> bool" where
  "watch_inv s \<longleftrightarrow> fw_started s \<and> fw_console_events s = (fw_unnamed_console s \<noteq> None)"

lemmas watch_defs =
  watch_foreground_def event_seen_def console_event_def watch_sent_def hook_consoles_def
  watch_nothing_def Let_def

lemma watch_start_inv: "watch_inv (fst (watch_start front watch_new))"
  by (simp add: watch_start_def watch_new_def hook_consoles_def watch_inv_def Let_def
      split: option.split)

lemma watch_step_inv: "watch_inv s \<Longrightarrow> watch_inv (fst (watch_step s x))"
  by (cases x) (auto simp: watch_inv_def watch_defs split: option.splits if_splits)

lemma watch_step_view:
  "watch_inv s \<Longrightarrow>
     fw_console_events (fst (watch_step s x)) =
       fold apply_hooks (snd (watch_step s x)) (fw_console_events s)"
  by (cases x) (auto simp: watch_inv_def watch_defs apply_hooks_def split: option.splits if_splits)

interpretation wm: mirrored_machine watch_step "\<lambda>_ _. True" watch_inv fw_console_events apply_hooks
  by unfold_locales (simp_all add: watch_step_inv watch_step_view)

text \<open>
  The hooks are on no longer than needed: a listener that starts with all of its kinds
  hooked and changes the console's hooks as each step says has them on, after any events,
  exactly while the console window it started on has no thread named yet.
\<close>

theorem console_hooks_exact:
  "let (s0, st) = watch_start front watch_new; (s, sts) = run watch_step s0 xs
   in fold apply_hooks (st # sts) True = (fw_unnamed_console s \<noteq> None)"
proof -
  obtain s0 st where start: "watch_start front watch_new = (s0, st)" by fastforce
  obtain s sts where xs: "run watch_step s0 xs = (s, sts)" by fastforce
  have inv0: "watch_inv s0" using watch_start_inv [of front] start by simp
  have "apply_hooks st True = fw_console_events s0"
    using start by (auto simp: watch_start_def watch_new_def hook_consoles_def apply_hooks_def
        Let_def split: option.splits if_splits)
  moreover have "fw_console_events s = fold apply_hooks sts (fw_console_events s0)"
    using wm.run_view [OF inv0, of xs] xs by simp
  moreover have "watch_inv s" using wm.run_inv [OF inv0, of xs] xs by simp
  ultimately show ?thesis using start xs by (simp add: watch_inv_def)
qed

section \<open>Only windows in front are reported\<close>

text \<open>What an event says was in front as it was handled, and when it was observed.\<close>

fun seen_in_front :: "watch_in \<Rightarrow> (isize \<times> u64) option" where
  "seen_in_front (ForegroundIn front in_front) =
     (if in_front then Some (fr_window front, fr_observed_at_us front) else None)"
| "seen_in_front (EventSeen fg observed) = Some (fg, observed)"
| "seen_in_front (ConsoleEvent _ _ _) = None"

text \<open>
  A run of reports is true when each is of the window its event found in front, with that event's
  observation, or is of the window last reported, a console whose thread has become known.
\<close>

fun reports_true :: "foreground_watch \<Rightarrow> isize option \<Rightarrow> watch_in list \<Rightarrow> bool" where
  "reports_true s latest [] = True"
| "reports_true s latest (x # xs) =
     (case watch_step s x of
        (s', st # _) \<Rightarrow>
          (case wo_report st of
             None \<Rightarrow> reports_true s' latest xs
           | Some f \<Rightarrow>
               (seen_in_front x = Some (fr_window f, fr_observed_at_us f)
                \<or> (fr_console f \<and> latest = Some (fr_window f)))
               \<and> reports_true s' (Some (fr_window f)) xs)
      | (s', []) \<Rightarrow> reports_true s' latest xs)"

lemma reports_true_run:
  assumes "fw_unnamed_console s = None \<or> fw_unnamed_console s = latest"
  shows "reports_true s latest xs"
  using assms
proof (induction xs arbitrary: s latest)
  case Nil
  then show ?case by simp
next
  case (Cons x xs)
  then show ?case
    by (cases x) (auto simp: watch_defs split: option.splits)
qed

text \<open>
  C40. Only windows seen in front are reported: from any start, whatever events follow, each
  report is of the window the event found in the foreground, observed when that event was, or
  names the thread of the console window reported last. A window raised early, refused by the
  foreground lock or already passed is never reported unless a later event finds it in front.
\<close>

theorem only_fronts_reported:
  "let (s0, st) = watch_start front watch_new
   in wo_report st = map_option (\<lambda>f. if fr_console f then f\<lparr>fr_thread := 0\<rparr> else f) front
      \<and> reports_true s0 (map_option fr_window front) xs"
proof -
  obtain s0 st where start: "watch_start front watch_new = (s0, st)" by fastforce
  then have "fw_unnamed_console s0 = None \<or> fw_unnamed_console s0 = map_option fr_window front"
    and "wo_report st = map_option (\<lambda>f. if fr_console f then f\<lparr>fr_thread := 0\<rparr> else f) front"
    by (auto simp: watch_start_def watch_new_def hook_consoles_def Let_def
        split: option.splits if_splits)
  with start show ?thesis by (simp add: reports_true_run)
qed

end
