(* ===== verification/BTree.thy ===== *)
theory BTree
  imports Machines
begin

text \<open>
  Rust's \<open>BTreeMap\<close>: a finite map whose iteration goes through its keys in increasing order.
  It is a list of entries with strictly increasing keys, abstracted to a type of its own, so
  that no client carries the order as a hypothesis. \<open>bt_get\<close> and \<open>bt_put\<close> are \<open>get\<close> and
  \<open>insert\<close> (a \<open>get_mut\<close> is a \<open>bt_get\<close> whose changed value is put back), \<open>bt_map\<close> is a loop over
  \<open>iter_mut\<close> and \<open>bt_entries\<close> is \<open>iter\<close>. The interface is the locale \<open>ordered_map\<close>: its clients'
  laws on what the whole map owes under an update are proved there once.
\<close>

fun put_list :: "'k::linorder \<Rightarrow> 'v \<Rightarrow> ('k \<times> 'v) list \<Rightarrow> ('k \<times> 'v) list" where
  "put_list k v [] = [(k, v)]"
| "put_list k v ((k', v') # m) =
     (if k < k' then (k, v) # (k', v') # m
      else if k = k' then (k, v) # m
      else (k', v') # put_list k v m)"

abbreviation ascending :: "('k::linorder \<times> 'v) list \<Rightarrow> bool" where
  "ascending m \<equiv> sorted_wrt (<) (map fst m)"

lemma set_put_list: "fst ` set (put_list k v m) = insert k (fst ` set m)"
proof (induction m)
  case Nil
  then show ?case by simp
next
  case (Cons e m)
  then show ?case by (cases e) auto
qed

lemma ascending_put_list: "ascending m \<Longrightarrow> ascending (put_list k v m)"
proof (induction m)
  case Nil
  then show ?case by simp
next
  case (Cons e m)
  obtain k' v' where e: "e = (k', v')" by (cases e)
  have "\<forall>x \<in> set (map fst (put_list k v m)). k' < x" if "k' < k"
    using Cons.prems that e set_put_list [of k v m] by auto
  with Cons e show ?case by auto
qed

lemma map_of_put_list: "ascending m \<Longrightarrow> map_of (put_list k v m) = (map_of m)(k \<mapsto> v)"
  by (induction m) (auto simp: fun_eq_iff)

lemma ascending_filter: "ascending m \<Longrightarrow> ascending (filter P m)"
  by (induction m) auto

lemma ascending_distinct: "ascending m \<Longrightarrow> distinct (map fst m)"
  by (induction m) auto

typedef (overloaded) ('k::linorder, 'v) btree = "{m :: ('k \<times> 'v) list. ascending m}"
  morphisms bt_entries Abs_btree
proof
  show "[] \<in> {m :: ('k \<times> 'v) list. ascending m}" by simp
qed

setup_lifting type_definition_btree

lift_definition bt_empty :: "('k::linorder, 'v) btree" is "[]"
  by simp

lift_definition bt_get :: "('k::linorder, 'v) btree \<Rightarrow> 'k \<Rightarrow> 'v option" is map_of .

lift_definition bt_put :: "'k::linorder \<Rightarrow> 'v \<Rightarrow> ('k, 'v) btree \<Rightarrow> ('k, 'v) btree" is put_list
  by (rule ascending_put_list)

lift_definition bt_remove :: "'k::linorder \<Rightarrow> ('k, 'v) btree \<Rightarrow> ('k, 'v) btree" is
  "\<lambda>k. filter (\<lambda>(k', _). k' \<noteq> k)"
  by (rule ascending_filter)

lift_definition bt_map :: "('k \<Rightarrow> 'v \<Rightarrow> 'w) \<Rightarrow> ('k::linorder, 'v) btree \<Rightarrow> ('k, 'w) btree" is
  "\<lambda>f. map (\<lambda>(k, v). (k, f k v))"
  by (simp add: comp_def split_beta)

lift_definition bt_retain :: "('k::linorder \<Rightarrow> bool) \<Rightarrow> ('k, 'v) btree \<Rightarrow> ('k, 'v) btree" is
  "\<lambda>f. filter (\<lambda>(k, _). f k)"
  by (rule ascending_filter)

definition bt_keys :: "('k::linorder, 'v) btree \<Rightarrow> 'k list" where
  "bt_keys m = map fst (bt_entries m)"

definition bt_values :: "('k::linorder, 'v) btree \<Rightarrow> 'v list" where
  "bt_values m = map snd (bt_entries m)"

lemma bt_entries_simps [simp]:
  "bt_entries bt_empty = []"
  "bt_entries (bt_put k v m) = put_list k v (bt_entries m)"
  "bt_entries (bt_remove k m) = filter (\<lambda>(k', _). k' \<noteq> k) (bt_entries m)"
  "bt_entries (bt_map f m) = map (\<lambda>(k, v). (k, f k v)) (bt_entries m)"
  by (simp_all add: bt_empty.rep_eq bt_put.rep_eq bt_remove.rep_eq bt_map.rep_eq)

lemma bt_get_entries: "bt_get m k = map_of (bt_entries m) k"
  by (simp add: bt_get.rep_eq)

lemma bt_ascending: "ascending (bt_entries m)"
  using bt_entries by auto

lemma bt_get_empty [simp]: "bt_get bt_empty k = None"
  by (simp add: bt_get_entries)

lemma bt_get_put [simp]: "bt_get (bt_put k v m) k' = (if k' = k then Some v else bt_get m k')"
  by (simp add: bt_get_entries map_of_put_list bt_ascending)

lemma map_of_filter_key:
  "map_of (filter (\<lambda>(k', _). k' \<noteq> k) es) k' = (if k' = k then None else map_of es k')"
  by (induction es) auto

lemma map_of_map_entries:
  "map_of (map (\<lambda>(k, v). (k, f k v)) es) k = map_option (f k) (map_of es k)"
  by (induction es) auto

lemma bt_get_remove [simp]: "bt_get (bt_remove k m) k' = (if k' = k then None else bt_get m k')"
  by (simp add: bt_get_entries map_of_filter_key)

lemma bt_get_map [simp]: "bt_get (bt_map f m) k = map_option (f k) (bt_get m k)"
  by (simp add: bt_get_entries map_of_map_entries)

lemma map_of_retain: "map_of (filter (\<lambda>(k', _). f k') es) k = (if f k then map_of es k else None)"
  by (induction es) auto

lemma bt_get_retain [simp]: "bt_get (bt_retain f m) k = (if f k then bt_get m k else None)"
  by (simp add: bt_get_entries bt_retain.rep_eq map_of_retain)

lemma put_list_put_list: "put_list k v (put_list k v' m) = put_list k v m"
  by (induction k v' m rule: put_list.induct) auto

lemma bt_put_put [simp]: "bt_put k v (bt_put k v' m) = bt_put k v m"
  by (simp add: bt_entries_inject [symmetric] put_list_put_list)

lemma put_list_same: "ascending m \<Longrightarrow> map_of m k = Some v \<Longrightarrow> put_list k v m = m"
proof (induction m)
  case Nil
  then show ?case by simp
next
  case (Cons e m)
  then show ?case
    by (cases e) (auto split: if_splits dest!: map_of_SomeD)
qed

lemma bt_put_same: "bt_get m k = Some v \<Longrightarrow> bt_put k v m = m"
  by (simp add: bt_entries_inject [symmetric] bt_get_entries put_list_same bt_ascending)

lemma filter_put_list:
  "filter (\<lambda>(k', _). k' \<noteq> k) (put_list k v m) = filter (\<lambda>(k', _). k' \<noteq> k) m"
  by (induction k v m rule: put_list.induct) auto

lemma bt_remove_put [simp]: "bt_remove k (bt_put k v m) = bt_remove k m"
  by (simp add: bt_entries_inject [symmetric] filter_put_list)

lemma bt_mem_entries: "(k, v) \<in> set (bt_entries m) \<longleftrightarrow> bt_get m k = Some v"
  using ascending_distinct [OF bt_ascending, of m] by (auto simp: bt_get_entries)

lemma bt_distinct: "distinct (bt_entries m)"
  using ascending_distinct [OF bt_ascending, of m] by (simp add: distinct_map)

section \<open>The interface\<close>

locale ordered_map =
  fixes get :: "'m \<Rightarrow> 'k \<Rightarrow> 'v option"
    and put :: "'k \<Rightarrow> 'v \<Rightarrow> 'm \<Rightarrow> 'm"
    and remove :: "'k \<Rightarrow> 'm \<Rightarrow> 'm"
    and entries :: "'m \<Rightarrow> ('k \<times> 'v) list"
  assumes get_put: "get (put k v m) k' = (if k' = k then Some v else get m k')"
    and get_remove: "get (remove k m) k' = (if k' = k then None else get m k')"
    and mem_entries: "(k, v) \<in> set (entries m) \<longleftrightarrow> get m k = Some v"
    and distinct_entries: "distinct (entries m)"
begin

lemma total_entries: "total f (entries m) = (\<Sum>e\<in>set (entries m). f e)"
  by (simp add: total_def sum_list_distinct_conv_sum_set distinct_entries)

lemma set_put: "set (entries (put k v m)) = insert (k, v) {e \<in> set (entries m). fst e \<noteq> k}"
  by (auto simp: mem_entries get_put split: if_splits)

lemma set_remove: "set (entries (remove k m)) = {e \<in> set (entries m). fst e \<noteq> k}"
  by (auto simp: mem_entries get_remove split: if_splits)

lemma total_others:
  "total f (entries m) =
     (\<Sum>e\<in>{e \<in> set (entries m). fst e \<noteq> k}. f e) + (case get m k of None \<Rightarrow> {#} | Some v \<Rightarrow> f (k, v))"
proof (cases "get m k")
  case None
  then have "{e \<in> set (entries m). fst e \<noteq> k} = set (entries m)"
    by (auto simp: mem_entries)
  with None show ?thesis by (simp add: total_entries)
next
  case (Some v)
  then have "set (entries m) = insert (k, v) {e \<in> set (entries m). fst e \<noteq> k}"
    by (auto simp: mem_entries)
  then have "total f (entries m) =
      f (k, v) + (\<Sum>e\<in>{e \<in> set (entries m). fst e \<noteq> k}. f e)"
    using sum.insert [of "{e \<in> set (entries m). fst e \<noteq> k}" "(k, v)" f] by (simp add: total_entries)
  with Some show ?thesis by (simp add: union_commute)
qed

text \<open>What a map owes after one entry is put or removed: only that entry's share changes.\<close>

lemma total_put:
  "total f (entries (put k v m)) + (case get m k of None \<Rightarrow> {#} | Some w \<Rightarrow> f (k, w)) =
     total f (entries m) + f (k, v)"
proof -
  have "{e \<in> set (entries (put k v m)). fst e \<noteq> k} = {e \<in> set (entries m). fst e \<noteq> k}"
    by (auto simp: set_put)
  then show ?thesis
    using total_others [of f "put k v m" k] total_others [of f m k]
    by (simp add: get_put union_assoc union_commute union_lcomm)
qed

lemma total_remove:
  "total f (entries (remove k m)) + (case get m k of None \<Rightarrow> {#} | Some w \<Rightarrow> f (k, w)) =
     total f (entries m)"
proof -
  have "{e \<in> set (entries (remove k m)). fst e \<noteq> k} = {e \<in> set (entries m). fst e \<noteq> k}"
    by (auto simp: set_remove)
  then show ?thesis
    using total_others [of f "remove k m" k] total_others [of f m k]
    by (simp add: get_remove)
qed

lemma all_entries_put:
  "(\<forall>(k', v') \<in> set (entries (put k v m)). P k' v') \<longleftrightarrow>
     P k v \<and> (\<forall>(k', v') \<in> set (entries m). k' \<noteq> k \<longrightarrow> P k' v')"
  by (auto simp: set_put)

end

interpretation bt: ordered_map bt_get bt_put bt_remove bt_entries
  by unfold_locales (simp_all add: bt_mem_entries bt_distinct)

end
