(* ===== verification/Acceptance.thy ===== *)
theory Acceptance
  imports Prelude "HOL-Library.Sublist"
begin

text \<open>
  NVDA's test for accepting an event before anything is read of it
  (\<^verbatim>\<open>crates/verbatim-reader-rules/src/acceptance.rs\<close>), a window's handle that is never 0
  (\<^verbatim>\<open>src/window.rs\<close> of the same crate) and how a window stands to the foreground window
  (\<^verbatim>\<open>crates/verbatim-core/src/focus_rules.rs\<close>). The window queries are Windows calls: they are a
  parameter, the record \<open>window_queries\<close>, one function per method of the trait.
\<close>

section \<open>A window's handle\<close>

typedef window = "{h :: isize. h \<noteq> 0}"
  morphisms Window_get Abs_window
proof
  show "1 \<in> {h :: isize. h \<noteq> 0}" by simp
qed

definition Window_new :: "isize \<Rightarrow> window option" where
  "Window_new h = (if h = 0 then None else Some (Abs_window h))"

instantiation window :: equal
begin

definition equal_window :: "window \<Rightarrow> window \<Rightarrow> bool" where
  "equal_window w v \<longleftrightarrow> Window_get w = Window_get v"

instance
  by standard (simp add: equal_window_def Window_get_inject)

end

lemma Window_get_nonzero [simp]: "Window_get w \<noteq> 0"
  using Window_get [of w] by simp

lemma Abs_window_eq [simp]: "h \<noteq> 0 \<Longrightarrow> h' \<noteq> 0 \<Longrightarrow> Abs_window h = Abs_window h' \<longleftrightarrow> h = h'"
  by (simp add: Abs_window_inject)

lemma Window_new_Some: "Window_new h = Some w \<longleftrightarrow> Window_get w = h"
  by (auto simp: Window_new_def Abs_window_inverse Window_get_inverse)

section \<open>How a window stands to the foreground window\<close>

record ForegroundRelation =
  fr_in_foreground :: bool
  fr_topmost :: bool
  fr_under_active_window :: "bool option"

definition related :: "ForegroundRelation \<Rightarrow> bool" where
  "related r \<longleftrightarrow>
     fr_in_foreground r \<or> fr_topmost r \<or> fr_under_active_window r = Some True"

section \<open>The test\<close>

datatype event_name =
    GainFocus | MenuStart | MenuEnd | SwitchEnd | Show | Alert | ValueChange | StateChange
  | NameChange | DescriptionChange | Selection | Caret | LocationChange | TextChange

record requested_events =
  requested :: "(event_name \<times> u32 \<times> string) set"

definition requested_contains :: "requested_events \<Rightarrow> event_name \<Rightarrow> u32 \<Rightarrow> string \<Rightarrow> bool" where
  "requested_contains r event pid cls \<longleftrightarrow> (event, pid, cls) \<in> requested r"

record window_queries =
  q_class_name :: "window \<Rightarrow> string"
  q_process :: "window \<Rightarrow> u32"
  q_parent :: "window \<Rightarrow> window option"
  q_root :: "window \<Rightarrow> window option"
  q_root_owner :: "window \<Rightarrow> window option"
  q_is_child :: "window \<Rightarrow> window \<Rightarrow> bool"
  q_is_topmost :: "window \<Rightarrow> bool"
  q_desktop :: "window option"
  q_active_window :: "window option"
  q_foreground :: "window option"

definition is_descendant :: "window_queries \<Rightarrow> window \<Rightarrow> window \<Rightarrow> bool" where
  "is_descendant q par child \<longleftrightarrow> par = child \<or> q_is_child q par child"

definition is_some_and :: "'a option \<Rightarrow> ('a \<Rightarrow> bool) \<Rightarrow> bool" where
  "is_some_and x p = (case x of None \<Rightarrow> False | Some v \<Rightarrow> p v)"

definition foreground_relation :: "window \<Rightarrow> string \<Rightarrow> window_queries \<Rightarrow> ForegroundRelation" where
  "foreground_relation w cls q =
     (let root_owner = q_root_owner q w in
      \<lparr>fr_in_foreground =
         is_some_and (q_foreground q) (\<lambda>fg.
           root_owner = q_root_owner q fg
           \<or> is_descendant q fg w
           \<or> is_some_and root_owner (is_descendant q fg)),
       fr_topmost = (q_is_topmost q w \<or> is_some_and (q_root q w) (q_is_topmost q)),
       fr_under_active_window =
         (if prefix ''Windows.UI.Core'' cls
          then Some (is_some_and (q_active_window q) (\<lambda>active. is_descendant q active w))
          else None)\<rparr>)"

text \<open>The classes whose show is accepted, in the source's order.\<close>

definition SHOWN_CLASSES :: "string list" where
  "SHOWN_CLASSES =
     [''Frame Notification Bar'', ''tooltips_class32'', ''mscandui21.candidate'',
      ''mscandui40.candidate'', ''MSCandUIWindow_Candidate'', ''TTrayAlert'']"

definition accepts_event ::
  "event_name \<Rightarrow> window option \<Rightarrow> window_queries \<Rightarrow> requested_events \<Rightarrow> bool" where
  "accepts_event event window q reqs =
     (case window of
        None \<Rightarrow> True
      | Some w \<Rightarrow>
          let cls = q_class_name q w in
          if requested_contains reqs event (q_process q w) cls then True
          else if event = Show then cls \<in> set SHOWN_CLASSES
          else if event = Alert
               \<and> is_some_and (q_parent q w) (\<lambda>par. q_class_name q par = ''ToastChildWindowClass'')
               then True
          else if event = MenuEnd \<or> event = SwitchEnd then True
          else if Some w = q_desktop q then True
          else related (foreground_relation w cls q))"

section \<open>What the test gives\<close>

lemma is_some_and_simps [simp]:
  "is_some_and None p = False" "is_some_and (Some v) p = p v"
  by (simp_all add: is_some_and_def)

text \<open>
  Nothing of the window in front is refused: an event of any kind but a show, from the
  foreground window, from a window inside it, or from a window that shares its root owner (a
  context menu, the Office ribbon), is accepted, whatever the rest of the desktop is.
\<close>

theorem front_accepted:
  assumes "q_foreground q = Some fg" and "event \<noteq> Show"
    and "w = fg \<or> q_is_child q fg w \<or> q_root_owner q w = q_root_owner q fg"
  shows "accepts_event event (Some w) q reqs"
  using assms
  by (auto simp: accepts_event_def Let_def related_def foreground_relation_def is_descendant_def)

definition desk :: window_queries where
  "desk =
     \<lparr>q_class_name = (\<lambda>_. ''Notepad''), q_process = (\<lambda>_. 4), q_parent = (\<lambda>_. None),
      q_root = Some, q_root_owner = Some, q_is_child = (\<lambda>_ _. False),
      q_is_topmost = (\<lambda>_. False), q_desktop = Window_new 1, q_active_window = None,
      q_foreground = Window_new 7\<rparr>"

theorem front_accepted_witness:
  "accepts_event NameChange (Some (Abs_window 7)) desk \<lparr>requested = {}\<rparr>"
  by (rule front_accepted [where fg = "Abs_window 7"])
    (simp_all add: desk_def Window_new_def)

text \<open>
  With no window in the foreground an event from a window that is gone is refused: it has
  no class, parent, root or root owner any more, and its missing root owner is not taken for
  the missing foreground's. This is the one difference from NVDA's own test that the source
  states. The kinds accepted from any window, and one requested, are left out.
\<close>

theorem invalid_refused_without_foreground:
  assumes "q_foreground q = None"
    and "q_class_name q w = ''''" "q_parent q w = None" "q_root q w = None" "q_root_owner q w = None"
    and "\<not> q_is_topmost q w" and "q_desktop q \<noteq> Some w"
    and "event \<noteq> MenuEnd" "event \<noteq> SwitchEnd"
    and "\<not> requested_contains reqs event (q_process q w) ''''"
  shows "\<not> accepts_event event (Some w) q reqs"
  using assms
  by (auto simp: accepts_event_def Let_def related_def foreground_relation_def SHOWN_CLASSES_def)

definition bare_desk :: window_queries where
  "bare_desk = desk\<lparr>q_class_name := (\<lambda>_. ''''), q_root := (\<lambda>_. None),
     q_root_owner := (\<lambda>_. None), q_foreground := None\<rparr>"

theorem invalid_refused_without_foreground_witness:
  "\<not> accepts_event GainFocus (Some (Abs_window 7)) bare_desk \<lparr>requested = {}\<rparr>"
  by (rule invalid_refused_without_foreground)
    (simp_all add: bare_desk_def desk_def Window_new_def requested_contains_def)

end
