(* ===== verification/In_Flight.thy ===== *)
theory In_Flight
  imports Machines Acceptance
begin

text \<open>
  The work in flight (\<^verbatim>\<open>crates/verbatim-reader-rules/src/in_flight.rs\<close>): a reader's record of the
  one slow-call item a worker is running. The record \<open>in_flight\<close> and its operations are in the
  source's order; an operation on \<open>&mut self\<close> returns the record with its result. A
  \<open>debug_assert\<close> is not part of an operation: what it checks is a hypothesis of the lemmas that
  need it, and the clients prove it. The locale \<open>work_in_flight\<close> is the contract the read scheduler
  relies on.
\<close>

section \<open>The record\<close>

definition MOVED_ON_GRACE :: duration where
  "MOVED_ON_GRACE = from_millis 500"

definition grace_us :: u64 where
  "grace_us = micros MOVED_ON_GRACE"

record request =
  req_generation :: u64
  req_number :: u64

datatype walk = Unarmed | Armed u64 | Published

datatype moved = MovedNever | MovedUnknown | MovedKnown window u64 | MovedNamed u64

datatype rule_window = RuleNever | RuleUnknown | RuleKnown window | RuleNamed

definition from_cached :: "isize option \<Rightarrow> rule_window" where
  "from_cached handle =
     (case handle of
        None \<Rightarrow> RuleNever
      | Some handle \<Rightarrow>
          (case Window_new handle of Some w \<Rightarrow> RuleKnown w | None \<Rightarrow> RuleUnknown))"

fun known :: "rule_window \<Rightarrow> window option" where
  "known (RuleKnown w) = Some w"
| "known RuleNever = None"
| "known RuleUnknown = None"
| "known RuleNamed = None"

datatype reason = Deadline | MovedOn | Hung

datatype ask = Judge request "window option" | Publish request "reason option"

record 't abandoned =
  ab_dead :: u64
  ab_replacement :: u64
  ab_reason :: reason
  ab_item :: 't
  ab_published :: bool

datatype 't decision = Nothing | Ask ask | Abandon "'t abandoned"

record 't running_item =
  ri_request :: request
  ri_started :: u64
  ri_deadline :: u64
  ri_walk :: walk
  ri_moved :: moved
  ri_item :: 't

record 't in_flight =
  fl_generation :: u64
  fl_requests :: u64
  fl_running :: "'t running_item option"

section \<open>The operations\<close>

definition fl_new :: "'t in_flight" where
  "fl_new = \<lparr>fl_generation = 0, fl_requests = 0, fl_running = None\<rparr>"

definition next_request :: "'t in_flight \<Rightarrow> 't in_flight \<times> request" where
  "next_request f =
     (let n = sat_succ (fl_requests f)
      in (f\<lparr>fl_requests := n\<rparr>, \<lparr>req_generation = fl_generation f, req_number = n\<rparr>))"

definition running_of :: "'t in_flight \<Rightarrow> request \<Rightarrow> 't running_item option" where
  "running_of f req =
     (case fl_running f of
        None \<Rightarrow> None
      | Some r \<Rightarrow> if ri_request r = req then Some r else None)"

definition fl_start :: "'t \<Rightarrow> u64 \<Rightarrow> rule_window \<Rightarrow> u64 \<Rightarrow> 't in_flight \<Rightarrow> 't in_flight \<times> request" where
  "fl_start item deadline window now f =
     (let (f1, req) = next_request f;
          nxt = sat_add now grace_us;
          moved = (case window of
                     RuleNever \<Rightarrow> MovedNever
                   | RuleUnknown \<Rightarrow> MovedUnknown
                   | RuleKnown w \<Rightarrow> MovedKnown w nxt
                   | RuleNamed \<Rightarrow> MovedNamed nxt)
      in (f1\<lparr>fl_running := Some
               \<lparr>ri_request = req, ri_started = now, ri_deadline = sat_add now deadline,
                ri_walk = Unarmed, ri_moved = moved, ri_item = item\<rparr>\<rparr>, req))"

definition hand_on :: "'t in_flight \<Rightarrow> 't in_flight \<times> request option" where
  "hand_on f =
     (let req = \<lparr>req_generation = fl_generation f, req_number = sat_succ (fl_requests f)\<rparr>
      in case fl_running f of
           None \<Rightarrow> (f, None)
         | Some r \<Rightarrow>
             (f\<lparr>fl_requests := sat_succ (fl_requests f), fl_running := Some (r\<lparr>ri_request := req\<rparr>)\<rparr>,
              Some req))"

definition abandon_flight :: "reason \<Rightarrow> 't in_flight \<Rightarrow> 't in_flight \<times> 't decision" where
  "abandon_flight reason f =
     (case fl_running f of
        None \<Rightarrow> (f, Nothing)
      | Some r \<Rightarrow>
          let dead = fl_generation f;
              replacement = sat_succ (fl_generation f)
          in (f\<lparr>fl_generation := replacement, fl_running := None\<rparr>,
              Abandon \<lparr>ab_dead = dead, ab_replacement = replacement, ab_reason = reason,
                ab_item = ri_item r, ab_published = (ri_walk r = Published)\<rparr>))"

fun is_armed :: "walk \<Rightarrow> bool" where
  "is_armed (Armed _) = True"
| "is_armed Unarmed = False"
| "is_armed Published = False"

fun past_bound :: "walk \<Rightarrow> u64 \<Rightarrow> bool" where
  "past_bound (Armed bound) now = (bound \<le> now)"
| "past_bound Unarmed now = False"
| "past_bound Published now = False"

definition judge :: "u64 \<Rightarrow> 't in_flight \<Rightarrow> 't in_flight \<times> 't decision" where
  "judge now f =
     (case fl_running f of
        None \<Rightarrow> (f, Nothing)
      | Some r \<Rightarrow>
          if ri_deadline r \<le> now then
            (if is_armed (ri_walk r)
             then (f\<lparr>fl_running := Some (r\<lparr>ri_walk := Unarmed\<rparr>)\<rparr>,
                   Ask (Publish (ri_request r) (Some Deadline)))
             else abandon_flight Deadline f)
          else if past_bound (ri_walk r) now then
            (f\<lparr>fl_running := Some (r\<lparr>ri_walk := Unarmed\<rparr>)\<rparr>, Ask (Publish (ri_request r) None))
          else
            (case ri_moved r of
               MovedKnown w nxt \<Rightarrow>
                 if nxt \<le> now
                 then (f\<lparr>fl_running := Some (r\<lparr>ri_moved := MovedKnown w (sat_add now grace_us)\<rparr>)\<rparr>,
                       Ask (Judge (ri_request r) (Some w)))
                 else (f, Nothing)
             | MovedNamed nxt \<Rightarrow>
                 if nxt \<le> now
                 then (f\<lparr>fl_running := Some (r\<lparr>ri_moved := MovedNamed (sat_add now grace_us)\<rparr>)\<rparr>,
                       Ask (Judge (ri_request r) None))
                 else (f, Nothing)
             | MovedNever \<Rightarrow> (f, Nothing)
             | MovedUnknown \<Rightarrow> (f, Nothing)))"

definition learned :: "request \<Rightarrow> window \<Rightarrow> u64 \<Rightarrow> 't in_flight \<Rightarrow> 't in_flight \<times> 't decision" where
  "learned req w now f =
     (case running_of f req of
        None \<Rightarrow> (f, Nothing)
      | Some r \<Rightarrow>
          if ri_moved r \<noteq> MovedUnknown then (f, Nothing)
          else
            let grace_end = sat_add (ri_started r) grace_us;
                f1 = f\<lparr>fl_running := Some (r\<lparr>ri_moved := MovedKnown w (max grace_end now)\<rparr>)\<rparr>
            in if grace_end \<le> now then judge now f1 else (f1, Nothing))"

definition armed :: "request \<Rightarrow> u64 \<Rightarrow> 't in_flight \<Rightarrow> 't in_flight" where
  "armed req bound f =
     (case running_of f req of
        None \<Rightarrow> f
      | Some r \<Rightarrow>
          if ri_walk r \<noteq> Published then f\<lparr>fl_running := Some (r\<lparr>ri_walk := Armed bound\<rparr>)\<rparr> else f)"

definition walk_returned :: "request \<Rightarrow> bool \<Rightarrow> 't in_flight \<Rightarrow> 't in_flight \<times> 't decision" where
  "walk_returned req past f =
     (case running_of f req of
        None \<Rightarrow> (f, Nothing)
      | Some r \<Rightarrow>
          if \<not> is_armed (ri_walk r) then (f, Nothing)
          else (f\<lparr>fl_running := Some (r\<lparr>ri_walk := Unarmed\<rparr>)\<rparr>,
                if past then Ask (Publish req None) else Nothing))"

definition tick :: "u64 \<Rightarrow> 't in_flight \<Rightarrow> 't in_flight \<times> 't decision" where
  "tick now f = judge now f"

definition judged :: "request \<Rightarrow> reason option \<Rightarrow> 't in_flight \<Rightarrow> 't in_flight \<times> 't decision" where
  "judged req verdict f =
     (case running_of f req of
        None \<Rightarrow> (f, Nothing)
      | Some r \<Rightarrow>
          (case verdict of
             None \<Rightarrow> (f, Nothing)
           | Some reason \<Rightarrow>
               if is_armed (ri_walk r)
               then (f\<lparr>fl_running := Some (r\<lparr>ri_walk := Unarmed\<rparr>)\<rparr>,
                     Ask (Publish req (Some reason)))
               else abandon_flight reason f))"

definition publication ::
  "request \<Rightarrow> bool \<Rightarrow> reason option \<Rightarrow> 't in_flight \<Rightarrow> 't in_flight \<times> 't decision option" where
  "publication req got then_abandon f =
     (case running_of f req of
        None \<Rightarrow> (f, None)
      | Some r \<Rightarrow>
          let f1 = (if got then f\<lparr>fl_running := Some (r\<lparr>ri_walk := Published\<rparr>)\<rparr> else f)
          in case then_abandon of
               Some reason \<Rightarrow> (case abandon_flight reason f1 of (f2, d) \<Rightarrow> (f2, Some d))
             | None \<Rightarrow> (f1, Some Nothing))"

definition published ::
  "request \<Rightarrow> bool \<Rightarrow> reason option \<Rightarrow> u64 \<Rightarrow> 't in_flight \<Rightarrow> 't in_flight \<times> 't decision" where
  "published req got then_abandon now f =
     (case publication req got then_abandon f of
        (f1, Some Nothing) \<Rightarrow> judge now f1
      | (f1, Some d) \<Rightarrow> (f1, d)
      | (f1, None) \<Rightarrow> (f1, Nothing))"

definition published_judging_nothing ::
  "request \<Rightarrow> bool \<Rightarrow> reason option \<Rightarrow> 't in_flight \<Rightarrow> 't in_flight \<times> 't decision" where
  "published_judging_nothing req got then_abandon f =
     (case publication req got then_abandon f of
        (f1, Some d) \<Rightarrow> (f1, d)
      | (f1, None) \<Rightarrow> (f1, Nothing))"

definition fl_end :: "request \<Rightarrow> 't in_flight \<Rightarrow> 't in_flight \<times> ('t \<times> bool) option" where
  "fl_end req f =
     (case running_of f req of
        None \<Rightarrow> (f, None)
      | Some r \<Rightarrow> (f\<lparr>fl_running := None\<rparr>, Some (ri_item r, ri_walk r = Published)))"

definition succeed :: "'t in_flight \<Rightarrow> 't in_flight \<times> u64" where
  "succeed f =
     (let g = sat_succ (fl_generation f) in (f\<lparr>fl_generation := g\<rparr>, g))"

definition accepts :: "'t in_flight \<Rightarrow> request \<Rightarrow> bool" where
  "accepts f req \<longleftrightarrow>
     (case fl_running f of
        None \<Rightarrow> False
      | Some r \<Rightarrow> ri_request r = req \<and> ri_walk r \<noteq> Published)"

definition running :: "'t in_flight \<Rightarrow> (request \<times> 't \<times> bool) option" where
  "running f = map_option (\<lambda>r. (ri_request r, ri_item r, ri_walk r = Published)) (fl_running f)"

definition deadline :: "'t in_flight \<Rightarrow> u64 option" where
  "deadline f = map_option ri_deadline (fl_running f)"

definition item_mut :: "('t \<Rightarrow> 't) \<Rightarrow> 't in_flight \<Rightarrow> 't in_flight" where
  "item_mut g f = f\<lparr>fl_running := map_option (\<lambda>r. r\<lparr>ri_item := g (ri_item r)\<rparr>) (fl_running f)\<rparr>"

definition next_wake :: "'t in_flight \<Rightarrow> u64 option" where
  "next_wake f =
     (case fl_running f of
        None \<Rightarrow> None
      | Some r \<Rightarrow>
          let due = ri_deadline r;
              due = (case ri_walk r of Armed bound \<Rightarrow> min due bound | _ \<Rightarrow> due);
              due = (case ri_moved r of
                       MovedKnown _ nxt \<Rightarrow> min due nxt
                     | MovedNamed nxt \<Rightarrow> min due nxt
                     | _ \<Rightarrow> due)
          in Some due)"

lemmas [flight_defs] =
  next_request_def running_of_def fl_start_def hand_on_def abandon_flight_def judge_def learned_def
  armed_def walk_returned_def tick_def judged_def publication_def published_def
  published_judging_nothing_def fl_end_def succeed_def accepts_def running_def item_mut_def

section \<open>The contract\<close>

text \<open>
  What a decision says of the record before and after it: an abandonment carries the running
  item out, with whether it was published, and the next generation takes charge; anything else
  leaves the item running, in the same generation. The views are those of \<open>running\<close>.
\<close>

type_synonym 't run_view = "(request \<times> 't \<times> bool) option"

definition sound_decision ::
  "'t run_view \<Rightarrow> u64 \<Rightarrow> 't run_view \<Rightarrow> u64 \<Rightarrow> 't decision \<Rightarrow> bool" where
  "sound_decision r g r' g' d =
     (case d of
        Abandon a \<Rightarrow>
          r' = None \<and> g' = sat_succ g \<and> ab_replacement a = g' \<and> ab_dead a = g \<and>
          (\<exists>req. r = Some (req, ab_item a, ab_published a))
      | _ \<Rightarrow> r' = r \<and> g' = g)"

definition mark_published :: "request \<Rightarrow> bool \<Rightarrow> 't run_view \<Rightarrow> 't run_view" where
  "mark_published req got r =
     map_option (\<lambda>(req', item, pub). (req', item, pub \<or> got \<and> req' = req)) r"

definition owed_view :: "'t run_view \<Rightarrow> 't multiset" where
  "owed_view r = (case r of Some (_, item, False) \<Rightarrow> {#item#} | _ \<Rightarrow> {#})"

definition dropped_by :: "'t decision \<Rightarrow> 't multiset" where
  "dropped_by d =
     (case d of Abandon a \<Rightarrow> if ab_published a then {#} else {#ab_item a#} | _ \<Rightarrow> {#})"

lemma owed_view_simps [simp]:
  "owed_view None = {#}"
  "owed_view (Some (req, item, pub)) = (if pub then {#} else {#item#})"
  by (simp_all add: owed_view_def split: bool.split)

lemma dropped_by_simps [simp]:
  "dropped_by Nothing = {#}"
  "dropped_by (Ask q) = {#}"
  "dropped_by (Abandon a) = (if ab_published a then {#} else {#ab_item a#})"
  by (simp_all add: dropped_by_def)

locale work_in_flight =
  fixes running :: "'f \<Rightarrow> 't run_view"
    and generation :: "'f \<Rightarrow> u64"
    and start :: "'t \<Rightarrow> u64 \<Rightarrow> rule_window \<Rightarrow> u64 \<Rightarrow> 'f \<Rightarrow> 'f \<times> request"
    and ended :: "request \<Rightarrow> 'f \<Rightarrow> 'f \<times> ('t \<times> bool) option"
    and arm :: "request \<Rightarrow> u64 \<Rightarrow> 'f \<Rightarrow> 'f"
    and learn :: "request \<Rightarrow> window \<Rightarrow> u64 \<Rightarrow> 'f \<Rightarrow> 'f \<times> 't decision"
    and tock :: "u64 \<Rightarrow> 'f \<Rightarrow> 'f \<times> 't decision"
    and judgement :: "request \<Rightarrow> reason option \<Rightarrow> 'f \<Rightarrow> 'f \<times> 't decision"
    and publish :: "request \<Rightarrow> bool \<Rightarrow> reason option \<Rightarrow> u64 \<Rightarrow> 'f \<Rightarrow> 'f \<times> 't decision"
  assumes start_law: "start item dl rw now f = (f', req) \<Longrightarrow>
        running f' = Some (req, item, False) \<and> generation f' = generation f
        \<and> req_generation req = generation f"
    and ended_law: "ended req f = (f', out) \<Longrightarrow>
        generation f' = generation f \<and>
        (case running f of
           Some (req', item, pub) \<Rightarrow>
             if req' = req then running f' = None \<and> out = Some (item, pub)
             else running f' = running f \<and> out = None
         | None \<Rightarrow> running f' = None \<and> out = None)"
    and arm_law: "running (arm req b f) = running f \<and> generation (arm req b f) = generation f"
    and learn_law: "learn req w now f = (f', d) \<Longrightarrow>
        sound_decision (running f) (generation f) (running f') (generation f') d"
    and tock_law: "tock now f = (f', d) \<Longrightarrow>
        sound_decision (running f) (generation f) (running f') (generation f') d"
    and judgement_law: "judgement req v f = (f', d) \<Longrightarrow>
        sound_decision (running f) (generation f) (running f') (generation f') d"
    and publish_law: "publish req got th now f = (f', d) \<Longrightarrow>
        sound_decision (mark_published req got (running f)) (generation f)
          (running f') (generation f') d"
begin

text \<open>
  The accounting of outcomes still owed: an item is owed while it runs unpublished, and it is
  dropped when an abandonment carries it out unpublished.
\<close>

lemma sound_owed:
  "sound_decision r g r' g' d \<Longrightarrow> owed_view r' + dropped_by d = owed_view r"
  by (auto simp: sound_decision_def split: decision.splits)

lemmas learn_owed = learn_law [THEN sound_owed]
  and tock_owed = tock_law [THEN sound_owed]
  and judgement_owed = judgement_law [THEN sound_owed]
  and publish_owed = publish_law [THEN sound_owed]

lemma mark_published_owed:
  "owed_view (mark_published req got r) +
     (case r of Some (req', item, False) \<Rightarrow> if got \<and> req' = req then {#item#} else {#} | _ \<Rightarrow> {#}) =
   owed_view r"
  by (cases r) (auto simp: mark_published_def split: bool.splits)

lemma start_owed: "start item d w now f = (f', req) \<Longrightarrow> owed_view (running f') = {#item#}"
  by (simp add: start_law)

lemma ended_owed:
  "ended req f = (f', out) \<Longrightarrow>
     owed_view (running f') + (case out of Some (item, False) \<Rightarrow> {#item#} | _ \<Rightarrow> {#}) =
       owed_view (running f)"
  using ended_law [of req f f' out]
  by (cases "running f"; cases out; cases "running f'") (auto split: if_splits bool.splits)

lemma running_only_while_kept:
  "sound_decision r g r' g' d \<Longrightarrow> r' \<noteq> None \<Longrightarrow> r' = r \<and> (\<forall>a. d \<noteq> Abandon a)"
  by (auto simp: sound_decision_def split: decision.splits)

end

lemma sound_abandon_flight:
  "abandon_flight reason f = (f', d) \<Longrightarrow>
     sound_decision (running f) (fl_generation f) (running f') (fl_generation f') d"
  by (auto simp: sound_decision_def abandon_flight_def running_def Let_def split: option.splits)

lemma sound_judge:
  "judge now f = (f', d) \<Longrightarrow>
     sound_decision (running f) (fl_generation f) (running f') (fl_generation f') d"
  apply (cases "fl_running f")
   apply (simp add: judge_def sound_decision_def running_def)
  subgoal for r
    by (cases "ri_walk r"; cases "ri_moved r")
      (auto simp: judge_def sound_decision_def running_def abandon_flight_def Let_def
        split: if_splits)
  done

lemma sound_learned:
  "learned req w now f = (f', d) \<Longrightarrow>
     sound_decision (running f) (fl_generation f) (running f') (fl_generation f') d"
proof -
  assume step: "learned req w now f = (f', d)"
  show ?thesis
  proof (cases "running_of f req")
    case None
    with step show ?thesis by (simp add: learned_def sound_decision_def)
  next
    case (Some r)
    let ?f1 = "f\<lparr>fl_running := Some (r\<lparr>ri_moved :=
      MovedKnown w (max (sat_add (ri_started r) grace_us) now)\<rparr>)\<rparr>"
    have "running ?f1 = running f"
      using Some by (auto simp: running_of_def running_def split: option.splits if_splits)
    with step Some sound_judge [of now ?f1 f' d] show ?thesis
      by (auto simp: learned_def Let_def sound_decision_def split: if_splits)
  qed
qed

lemma sound_judged:
  "judged req v f = (f', d) \<Longrightarrow>
     sound_decision (running f) (fl_generation f) (running f') (fl_generation f') d"
  using sound_abandon_flight [of "the v" f f' d]
  by (auto simp: judged_def running_of_def sound_decision_def running_def
      split: option.splits if_splits elim: is_armed.elims)

lemma running_publication:
  assumes "publication req got th f = (f', out)"
  shows "case out of
      None \<Rightarrow> running f' = running f \<and> running_of f req = None \<and> fl_generation f' = fl_generation f
    | Some d \<Rightarrow> sound_decision (mark_published req got (running f)) (fl_generation f)
        (running f') (fl_generation f') d"
proof (cases "running_of f req")
  case None
  with assms show ?thesis by (simp add: publication_def)
next
  case (Some r)
  let ?f1 = "if got then f\<lparr>fl_running := Some (r\<lparr>ri_walk := Published\<rparr>)\<rparr> else f"
  have view: "running ?f1 = mark_published req got (running f)"
    using Some by (auto simp: running_of_def running_def mark_published_def
        split: option.splits if_splits)
  have gen: "fl_generation ?f1 = fl_generation f" by simp
  show ?thesis
  proof (cases th)
    case None
    with assms Some view gen show ?thesis
      by (auto simp: publication_def Let_def sound_decision_def)
  next
    case (Some reason)
    obtain f2 d where ab: "abandon_flight reason ?f1 = (f2, d)" by fastforce
    with assms Some \<open>running_of f req = Some r\<close> have "f' = f2" and "out = Some d"
      by (simp_all add: publication_def Let_def)
    with sound_abandon_flight [OF ab] show ?thesis unfolding view gen by simp
  qed
qed

lemma mark_published_idle: "running_of f req = None \<Longrightarrow> mark_published req got (running f) = running f"
  by (auto simp: running_of_def running_def mark_published_def split: option.splits if_splits)

lemma sound_published:
  assumes "published req got th now f = (f', d)"
  shows "sound_decision (mark_published req got (running f)) (fl_generation f)
      (running f') (fl_generation f') d"
proof -
  obtain f1 out where pub: "publication req got th f = (f1, out)" by fastforce
  note law = running_publication [OF pub]
  show ?thesis
  proof (cases out)
    case None
    with law assms pub show ?thesis
      by (simp add: published_def mark_published_idle sound_decision_def)
  next
    case (Some d1)
    show ?thesis
    proof (cases d1)
      case Nothing
      with law Some have "running f1 = mark_published req got (running f)"
        and "fl_generation f1 = fl_generation f"
        by (auto simp: sound_decision_def)
      with assms pub Some Nothing sound_judge [of now f1 f' d] show ?thesis
        by (simp add: published_def)
    qed (use assms pub Some law in \<open>auto simp: published_def\<close>)
  qed
qed

interpretation fl: work_in_flight running fl_generation fl_start fl_end armed learned tick judged
  published
proof unfold_locales
  fix item :: 't and dl rw now f f' req
  assume "fl_start item dl rw now f = (f', req)"
  then show "running f' = Some (req, item, False) \<and> fl_generation f' = fl_generation f
      \<and> req_generation req = fl_generation f"
    by (auto simp: fl_start_def next_request_def running_def Let_def)
next
  fix req and f f' :: "'t in_flight" and out
  assume "fl_end req f = (f', out)"
  then show "fl_generation f' = fl_generation f \<and>
      (case running f of
         Some (req', item, pub) \<Rightarrow>
           if req' = req then running f' = None \<and> out = Some (item, pub)
           else running f' = running f \<and> out = None
       | None \<Rightarrow> running f' = None \<and> out = None)"
    by (auto simp: fl_end_def running_of_def running_def split: option.splits if_splits)
next
  fix req b and f :: "'t in_flight"
  show "running (armed req b f) = running f \<and> fl_generation (armed req b f) = fl_generation f"
    by (auto simp: armed_def running_of_def running_def split: option.splits)
qed (simp_all add: sound_learned sound_judged sound_published sound_judge tick_def)

section \<open>Sequences of calls\<close>

text \<open>
  A reader calls the operations in any order, in which nothing is started and no new generation
  is put in charge over a running item (the record's two debug assertions): \<open>flight_ok\<close>. The record is
  then a transition whose effects are what the calls give back.
\<close>

datatype 't flight_call =
    StartCall 't u64 rule_window u64
  | HandOnCall
  | LearnedCall request window u64
  | ArmedCall request u64
  | WalkReturnedCall request bool
  | TickCall u64
  | JudgedCall request "reason option"
  | PublishedCall request bool "reason option" u64
  | PublishedStoppedCall request bool "reason option"
  | EndCall request
  | SucceedCall
  | NextRequestCall

datatype 't flight_result = Given request | Decided "'t decision" | Left 't bool

definition decided :: "'t in_flight \<times> 't decision \<Rightarrow> 't in_flight \<times> 't flight_result list" where
  "decided = apsnd (\<lambda>d. [Decided d])"

fun flight_step :: "'t in_flight \<Rightarrow> 't flight_call \<Rightarrow> 't in_flight \<times> 't flight_result list" where
  "flight_step f (StartCall item dl w now) = apsnd (\<lambda>r. [Given r]) (fl_start item dl w now f)"
| "flight_step f HandOnCall = apsnd (\<lambda>r. map Given (case r of None \<Rightarrow> [] | Some r \<Rightarrow> [r])) (hand_on f)"
| "flight_step f (LearnedCall req w now) = decided (learned req w now f)"
| "flight_step f (ArmedCall req b) = (armed req b f, [])"
| "flight_step f (WalkReturnedCall req past) = decided (walk_returned req past f)"
| "flight_step f (TickCall now) = decided (tick now f)"
| "flight_step f (JudgedCall req v) = decided (judged req v f)"
| "flight_step f (PublishedCall req got th now) = decided (published req got th now f)"
| "flight_step f (PublishedStoppedCall req got th) = decided (published_judging_nothing req got th f)"
| "flight_step f (EndCall req) =
     apsnd (\<lambda>r. case r of None \<Rightarrow> [] | Some (item, pub) \<Rightarrow> [Left item pub]) (fl_end req f)"
| "flight_step f SucceedCall = apsnd (\<lambda>_. []) (succeed f)"
| "flight_step f NextRequestCall = apsnd (\<lambda>r. [Given r]) (next_request f)"

fun flight_ok :: "'t in_flight \<Rightarrow> 't flight_call \<Rightarrow> bool" where
  "flight_ok f (StartCall _ _ _ _) \<longleftrightarrow> fl_running f = None"
| "flight_ok f SucceedCall \<longleftrightarrow> fl_running f = None"
| "flight_ok f _ \<longleftrightarrow> True"

definition flight_inv :: "'t in_flight \<Rightarrow> bool" where
  "flight_inv f \<longleftrightarrow>
     (case fl_running f of
        None \<Rightarrow> True
      | Some r \<Rightarrow> req_generation (ri_request r) = fl_generation f
                  \<and> req_number (ri_request r) \<le> fl_requests f)"

definition items_of :: "'t in_flight \<Rightarrow> 't multiset" where
  "items_of f = (case fl_running f of None \<Rightarrow> {#} | Some r \<Rightarrow> {#ri_item r#})"

fun items_started :: "'t flight_call \<Rightarrow> 't multiset" where
  "items_started (StartCall item _ _ _) = {#item#}"
| "items_started _ = {#}"

fun items_left :: "'t flight_result \<Rightarrow> 't multiset" where
  "items_left (Left item _) = {#item#}"
| "items_left (Decided (Abandon a)) = {#ab_item a#}"
| "items_left _ = {#}"

text \<open>One law for every operation that decides: what it does to the item and to the counters.\<close>

definition decides_well :: "'t in_flight \<Rightarrow> 't in_flight \<times> 't decision \<Rightarrow> bool" where
  "decides_well f out \<longleftrightarrow>
     (case out of (f', d) \<Rightarrow>
        fl_requests f' = fl_requests f \<and> fl_generation f \<le> fl_generation f' \<and>
        (case fl_running f of
           None \<Rightarrow> f' = f \<and> d = Nothing
         | Some r \<Rightarrow>
             (\<exists>r'. fl_running f' = Some r' \<and> ri_request r' = ri_request r \<and> ri_item r' = ri_item r
                \<and> (ri_walk r = Published \<longrightarrow> ri_walk r' = Published)
                \<and> fl_generation f' = fl_generation f \<and> (\<forall>a. d \<noteq> Abandon a))
             \<or> (\<exists>a. d = Abandon a \<and> ab_item a = ri_item r \<and> fl_running f' = None
                \<and> (ri_walk r = Published \<longrightarrow> ab_published a))))"

lemma abandon_decides_well: "decides_well f (abandon_flight reason f)"
  by (simp add: decides_well_def abandon_flight_def Let_def split: option.split)

lemma nothing_decides_well: "decides_well f (f, Nothing)"
  by (auto simp: decides_well_def split: option.split)

text \<open>A change of the item's bookkeeping, alone or before a decision, keeps the law.\<close>

lemma kept_decides_well:
  assumes "fl_running f = Some r" and "ri_request r1 = ri_request r" and "ri_item r1 = ri_item r"
    and "ri_walk r = Published \<longrightarrow> ri_walk r1 = Published" and "\<forall>a. d \<noteq> Abandon a"
  shows "decides_well f (f\<lparr>fl_running := Some r1\<rparr>, d)"
  using assms by (auto simp: decides_well_def)

lemma decides_well_after:
  assumes "fl_running f = Some r" and "f1 = f\<lparr>fl_running := Some r1\<rparr>"
    and "ri_request r1 = ri_request r" and "ri_item r1 = ri_item r"
    and "ri_walk r = Published \<longrightarrow> ri_walk r1 = Published"
    and "decides_well f1 out"
  shows "decides_well f out"
  using assms by (cases out) (auto simp: decides_well_def)

lemma running_of_Some: "running_of f req = Some r \<longleftrightarrow> fl_running f = Some r \<and> ri_request r = req"
  by (auto simp: running_of_def split: option.splits if_splits)

lemma unpublished_if [simp]:
  "is_armed wk \<Longrightarrow> wk \<noteq> Published" "past_bound wk now \<Longrightarrow> wk \<noteq> Published"
  by (cases wk; simp)+

lemma judge_decides_well: "decides_well f (judge now f)"
  by (auto simp: judge_def intro!: nothing_decides_well abandon_decides_well kept_decides_well
      split: option.split moved.split)

lemma learned_decides_well: "decides_well f (learned req w now f)"
proof (cases "running_of f req")
  case None
  then show ?thesis by (simp add: learned_def nothing_decides_well)
next
  case (Some r)
  then have run: "fl_running f = Some r" by (simp add: running_of_Some)
  let ?r1 = "\<lambda>t. r\<lparr>ri_moved := MovedKnown w t\<rparr>"
  have "decides_well f (judge now (f\<lparr>fl_running := Some (?r1 t)\<rparr>))"
    and "decides_well f (f\<lparr>fl_running := Some (?r1 t)\<rparr>, Nothing)" for t
    by (rule decides_well_after [OF run refl _ _ _ judge_decides_well], simp_all)
      (rule kept_decides_well [OF run], simp_all)
  with Some show ?thesis by (simp add: learned_def Let_def nothing_decides_well)
qed

lemma walk_returned_decides_well: "decides_well f (walk_returned req past f)"
  by (auto simp: walk_returned_def running_of_Some
      intro!: nothing_decides_well kept_decides_well split: option.split)

lemma judged_decides_well: "decides_well f (judged req v f)"
  by (auto simp: judged_def running_of_Some
      intro!: nothing_decides_well kept_decides_well abandon_decides_well split: option.split)

lemma publication_decides_well:
  assumes "publication req got th f = (f', Some d)"
  shows "decides_well f (f', d)"
proof -
  from assms obtain r where r: "running_of f req = Some r"
    by (auto simp: publication_def split: option.splits)
  then have run: "fl_running f = Some r" by (simp add: running_of_Some)
  define r1 where "r1 = (if got then r\<lparr>ri_walk := Published\<rparr> else r)"
  define f1 where "f1 = f\<lparr>fl_running := Some r1\<rparr>"
  have f1: "(if got then f\<lparr>fl_running := Some (r\<lparr>ri_walk := Published\<rparr>)\<rparr> else f) = f1"
    using run by (simp add: f1_def r1_def)
  have "decides_well f1 (f', d)"
    using assms r abandon_decides_well [of f1 "the th"] nothing_decides_well [of f1]
    by (auto simp: publication_def f1 split: option.splits prod.splits)
  with decides_well_after [OF run f1_def] show ?thesis by (auto simp: r1_def)
qed

lemma published_decides_well: "decides_well f (published req got th now f)"
proof -
  obtain f1 out where pub: "publication req got th f = (f1, out)" by fastforce
  show ?thesis
  proof (cases out)
    case None
    with pub have "f1 = f"
      by (auto simp: publication_def Let_def split: option.splits prod.splits)
    with pub None show ?thesis by (simp add: published_def nothing_decides_well)
  next
    case (Some d)
    with pub have dw: "decides_well f (f1, d)" by (simp add: publication_decides_well)
    show ?thesis
    proof (cases "d = Nothing")
      case False
      with pub Some dw show ?thesis by (cases d) (simp_all add: published_def)
    next
      case True
      have "decides_well f (judge now f1)"
      proof (cases "fl_running f")
        case None
        with dw have "f1 = f" by (simp add: decides_well_def)
        then show ?thesis by (simp add: judge_decides_well)
      next
        case (Some r)
        with dw True obtain r1 where "f1 = f\<lparr>fl_running := Some r1\<rparr>"
          and "ri_request r1 = ri_request r" and "ri_item r1 = ri_item r"
          and "ri_walk r = Published \<longrightarrow> ri_walk r1 = Published"
          by (cases f, cases f1) (auto simp: decides_well_def)
        from decides_well_after [OF Some this judge_decides_well] show ?thesis .
      qed
      with pub Some True show ?thesis by (simp add: published_def)
    qed
  qed
qed

lemma published_stopped_decides_well: "decides_well f (published_judging_nothing req got th f)"
proof -
  obtain f1 out where pub: "publication req got th f = (f1, out)" by fastforce
  show ?thesis
  proof (cases out)
    case None
    with pub have "f1 = f"
      by (auto simp: publication_def Let_def split: option.splits prod.splits)
    with pub None show ?thesis by (simp add: published_judging_nothing_def nothing_decides_well)
  next
    case (Some d)
    with pub show ?thesis
      by (simp add: published_judging_nothing_def publication_decides_well)
  qed
qed

lemmas all_decide_well =
  learned_decides_well walk_returned_decides_well judge_decides_well judged_decides_well
  published_decides_well published_stopped_decides_well

section \<open>What every sequence of calls gives\<close>

lemma decides_well_inv: "flight_inv f \<Longrightarrow> decides_well f (f', d) \<Longrightarrow> flight_inv f'"
  by (auto simp: flight_inv_def decides_well_def split: option.splits)

lemma decides_well_items:
  "decides_well f (f', d) \<Longrightarrow> items_of f' + items_left (Decided d) = items_of f"
  by (cases d) (auto simp: items_of_def decides_well_def split: option.splits)

lemma decides_well_requests: "decides_well f (f', d) \<Longrightarrow> fl_requests f' = fl_requests f"
  by (simp add: decides_well_def)

lemma armed_kept:
  "flight_inv f \<Longrightarrow> flight_inv (armed req b f)"
  "items_of (armed req b f) = items_of f"
  "fl_requests (armed req b f) = fl_requests f"
  by (auto simp: armed_def flight_inv_def items_of_def running_of_Some split: option.splits)

lemma decided_law:
  "decided out = (f', es) \<Longrightarrow> decides_well f out \<Longrightarrow> \<exists>d. decides_well f (f', d) \<and> es = [Decided d]"
  by (cases out) (auto simp: decided_def)

lemmas decided_laws = all_decide_well [THEN [2] decided_law]

text \<open>
  A call of the record decides by the law above, or is one of the five that start, count, arm
  or end.
\<close>

fun call_decides :: "'t flight_call \<Rightarrow> bool" where
  "call_decides (StartCall _ _ _ _) = False"
| "call_decides HandOnCall = False"
| "call_decides (ArmedCall _ _) = False"
| "call_decides (EndCall _) = False"
| "call_decides SucceedCall = False"
| "call_decides NextRequestCall = False"
| "call_decides _ = True"

lemma call_decides_law:
  assumes "flight_step f c = (f', es)" and "call_decides c"
  shows "(\<exists>d. decides_well f (f', d) \<and> es = [Decided d]) \<and> items_started c = {#}"
  using assms by (cases c) (auto simp: tick_def dest!: decided_laws)

lemma flight_step_inv: "flight_inv f \<Longrightarrow> flight_ok f c \<Longrightarrow> flight_inv (fst (flight_step f c))"
proof (cases "call_decides c")
  case True
  assume "flight_inv f"
  with True show ?thesis
    using call_decides_law [of f c] decides_well_inv by (metis prod.collapse)
next
  case False
  assume "flight_inv f" and "flight_ok f c"
  with False show ?thesis
    by (cases c) (auto simp: flight_inv_def fl_start_def next_request_def hand_on_def fl_end_def
        succeed_def armed_kept(1) [unfolded flight_inv_def] Let_def sat_succ_ge
        intro: order_trans [OF _ sat_succ_ge] split: option.splits)
qed

lemma flight_step_conserves:
  assumes "flight_ok f c"
  shows "items_of (fst (flight_step f c)) + total items_left (snd (flight_step f c)) =
           items_of f + items_started c"
proof (cases "call_decides c")
  case True
  obtain f' es where "flight_step f c = (f', es)" by fastforce
  with call_decides_law [OF this True] decides_well_items [of f f'] show ?thesis by auto
next
  case False
  with assms show ?thesis
    by (cases c) (auto simp: items_of_def fl_start_def next_request_def hand_on_def fl_end_def
        succeed_def armed_kept(2) [unfolded items_of_def] running_of_def Let_def
        split: option.splits if_splits)
qed

lemma flight_step_requests: "fl_requests f \<le> fl_requests (fst (flight_step f c))"
proof (cases "call_decides c")
  case True
  then show ?thesis
    using call_decides_law [of f c] decides_well_requests by (metis order_refl prod.collapse)
next
  case False
  then show ?thesis
    by (cases c) (auto simp: fl_start_def next_request_def hand_on_def fl_end_def succeed_def
        armed_kept(3) Let_def split: option.splits)
qed

interpretation flm: conserving_machine flight_step flight_ok flight_inv items_of items_started
  items_left
  by unfold_locales (simp_all add: flight_step_inv flight_step_conserves)

interpretation flr: rising_machine flight_step flight_ok flight_inv fl_requests
  by unfold_locales (simp_all add: flight_step_requests)

lemma flight_inv_new: "flight_inv fl_new" "items_of fl_new = {#}"
  by (simp_all add: flight_inv_def fl_new_def items_of_def)

text \<open>
  C18. An item leaves exactly once: after any sequence of calls on a new record, the items given
  out by an end or inside an abandonment, with the one still running, are the items started,
  each as often as it was started.
\<close>

theorem items_leave_once:
  assumes "run_ok flight_step flight_ok fl_new calls"
  shows "items_of (fst (run flight_step fl_new calls))
      + total items_left (snd (run flight_step fl_new calls)) = total items_started calls"
  using flm.run_conserves [OF flight_inv_new(1) assms] by (simp add: flight_inv_new(2))

definition two_items :: "nat flight_call list" where
  "two_items =
     [StartCall 1 2000000 RuleNever 0, TickCall 1999999, TickCall 2000000,
      StartCall 2 100 RuleUnknown 2000001, EndCall \<lparr>req_generation = 1, req_number = 2\<rparr>]"

theorem items_leave_once_witness:
  "items_of (fst (run flight_step fl_new two_items))
     + total items_left (snd (run flight_step fl_new two_items)) = {#1, 2#}"
proof -
  have "run_ok flight_step flight_ok fl_new two_items"
    by (simp add: two_items_def flight_defs fl_new_def decided_def sat_succ_def sat_add_def)
  from items_leave_once [OF this] show ?thesis
    by (simp add: two_items_def)
qed

text \<open>A request that is not running and was numbered already never runs again.\<close>

lemma old_request_step:
  assumes "flight_ok f c" and "running_of f req = None" and "req_number req \<le> fl_requests f"
    and "fl_requests f \<noteq> - 1"
  shows "running_of (fst (flight_step f c)) req = None"
proof (cases "call_decides c")
  case True
  obtain f' es where step: "flight_step f c = (f', es)" by fastforce
  from call_decides_law [OF this True] obtain d where "decides_well f (f', d)" by blast
  with assms(2) step show ?thesis
    by (auto simp: decides_well_def running_of_def split: option.splits if_splits)
next
  case False
  have "sat_succ (fl_requests f) \<noteq> req_number req"
    using assms(3) sat_succ_greater [OF assms(4)] by auto
  with False assms(1,2) show ?thesis
    by (cases c) (auto simp: running_of_def fl_start_def next_request_def hand_on_def fl_end_def
        succeed_def armed_def Let_def split: option.splits if_splits)
qed

lemma old_request_run:
  assumes "flight_inv f" and "run_ok flight_step flight_ok f calls"
    and "running_of f req = None" and "req_number req \<le> fl_requests f"
    and "fl_requests (fst (run flight_step f calls)) \<noteq> - 1"
  shows "running_of (fst (run flight_step f calls)) req = None"
  using assms
proof (induction calls arbitrary: f)
  case Nil
  then show ?case by simp
next
  case (Cons c calls)
  let ?f1 = "fst (flight_step f c)"
  have inv: "flight_inv ?f1" using Cons.prems by (simp add: flight_step_inv)
  have "fl_requests ?f1 \<le> fl_requests (fst (run flight_step ?f1 calls))"
    using Cons.prems inv by (simp add: flr.run_rises)
  moreover have "fl_requests f \<le> fl_requests ?f1" by (rule flight_step_requests)
  ultimately have "fl_requests f \<noteq> - 1"
    using Cons.prems(5) by (metis run_Cons(1) word_order.extremum_uniqueI)
  then have "running_of ?f1 req = None"
    using Cons.prems by (simp add: old_request_step)
  then show ?case
    using Cons inv \<open>fl_requests f \<le> fl_requests ?f1\<close> by (auto intro: order_trans)
qed

text \<open>
  C19. A dead request stays refused: once a request's item has left the record, by its end or by
  an abandonment, or the request was handed on, no later sequence of calls makes the record
  apply a result of it, whatever generations and requests come, as long as the count of
  requests has not reached \<open>u64::MAX\<close>.
\<close>

theorem dead_request_refused:
  assumes "flight_inv f" and "run_ok flight_step flight_ok f calls"
    and "running_of f req = None" and "req_number req \<le> fl_requests f"
    and "fl_requests (fst (run flight_step f calls)) \<noteq> - 1"
  shows "\<not> accepts (fst (run flight_step f calls)) req"
  using old_request_run [OF assms]
  by (auto simp: accepts_def running_of_def split: option.splits if_splits)

definition first_dead :: "nat in_flight" where
  "first_dead = fst (run flight_step fl_new [StartCall 1 5 RuleNever 0, TickCall 5])"

theorem dead_request_refused_witness:
  "\<not> accepts (fst (run flight_step first_dead [StartCall 2 5 RuleNever 6]))
      \<lparr>req_generation = 0, req_number = 1\<rparr>"
  by (rule dead_request_refused)
    (simp_all add: first_dead_def flight_inv_def flight_defs fl_new_def decided_def sat_succ_def
      sat_add_def)

lemma tick_due:
  "(tick now f = (f, Nothing)) = (case next_wake f of None \<Rightarrow> True | Some due \<Rightarrow> now < due)"
  "(snd (tick now f) = Nothing) = (case next_wake f of None \<Rightarrow> True | Some due \<Rightarrow> now < due)"
proof -
  have "(tick now f = (f, Nothing)) = (case next_wake f of None \<Rightarrow> True | Some due \<Rightarrow> now < due)
     \<and> (snd (tick now f) = Nothing) = (case next_wake f of None \<Rightarrow> True | Some due \<Rightarrow> now < due)"
  proof (cases "fl_running f")
    case None
    then show ?thesis by (simp add: tick_def judge_def next_wake_def)
  next
    case (Some r)
    then show ?thesis
      by (cases "ri_walk r"; cases "ri_moved r")
        (auto simp: tick_def judge_def next_wake_def abandon_flight_def Let_def not_le)
  qed
  then show "(tick now f = (f, Nothing)) = (case next_wake f of None \<Rightarrow> True | Some due \<Rightarrow> now < due)"
    and "(snd (tick now f) = Nothing) = (case next_wake f of None \<Rightarrow> True | Some due \<Rightarrow> now < due)"
    by simp_all
qed

text \<open>
  The next wake is exact: a tick changes nothing and decides nothing before the time the
  record says it is next due, or with nothing running, and decides something from that time on.
  So a reader whose alarm is set to \<open>next_wake\<close> misses no judgement and makes none too early.
\<close>

theorem tick_exact:
  "(tick now f = (f, Nothing)) = (case next_wake f of None \<Rightarrow> True | Some due \<Rightarrow> now < due)
   \<and> (snd (tick now f) = Nothing) = (case next_wake f of None \<Rightarrow> True | Some due \<Rightarrow> now < due)"
  by (simp only: tick_due)

text \<open>A tick keeps the item before its deadline, and takes it out or has it published from there.\<close>

lemma tick_cases:
  assumes "fl_running f = Some r" and "tick now f = (f', d)"
  shows "now < ri_deadline r \<and> (\<exists>r'. fl_running f' = Some r' \<and> ri_deadline r' = ri_deadline r)
      \<and> (\<forall>a. d \<noteq> Abandon a)
    \<or> ri_deadline r \<le> now \<and> d = Ask (Publish (ri_request r) (Some Deadline))
      \<and> (\<exists>r'. fl_running f' = Some r' \<and> ri_request r' = ri_request r)
    \<or> ri_deadline r \<le> now \<and> (\<exists>a. d = Abandon a) \<and> fl_running f' = None"
  using assms
  by (cases "ri_walk r"; cases "ri_moved r")
    (auto simp: tick_def judge_def abandon_flight_def Let_def not_le split: if_splits)

text \<open>
  C20. The deadline abandons: from the deadline on, one tick takes the item out of the record, or,
  when its walk is armed, asks for its publication, whose answer takes it out, published or
  not as the answer says, whenever the answer comes.
\<close>

theorem deadline_abandons:
  assumes "fl_running f = Some r" and "ri_deadline r \<le> now"
  shows "case tick now f of
      (f1, Abandon a) \<Rightarrow> ab_item a = ri_item r \<and> ab_reason a = Deadline \<and> fl_running f1 = None
    | (f1, Ask (Publish req th)) \<Rightarrow>
        (\<exists>f2 a. published req got th later f1 = (f2, Abandon a) \<and> ab_item a = ri_item r
          \<and> ab_reason a = Deadline \<and> ab_published a = got \<and> fl_running f2 = None)
    | _ \<Rightarrow> False"
  using assms
  by (cases "ri_walk r")
    (auto simp: flight_defs Let_def split: if_splits)

definition late_item :: "nat in_flight" where
  "late_item = fst (run flight_step fl_new
     [StartCall 7 5 RuleNever 0, ArmedCall \<lparr>req_generation = 0, req_number = 1\<rparr> 3])"

theorem deadline_abandons_witness:
  "case tick 5 late_item of
      (f1, Abandon a) \<Rightarrow> ab_item a = 7 \<and> ab_reason a = Deadline \<and> fl_running f1 = None
    | (f1, Ask (Publish req th)) \<Rightarrow>
        (\<exists>f2 a. published req True th 9 f1 = (f2, Abandon a) \<and> ab_item a = 7
          \<and> ab_reason a = Deadline \<and> ab_published a \<and> fl_running f2 = None)
    | _ \<Rightarrow> False"
proof -
  obtain r where "fl_running late_item = Some r" and "ri_deadline r = 5" and "ri_item r = 7"
    by (simp add: late_item_def flight_defs fl_new_def sat_succ_def sat_add_def)
  with deadline_abandons [of late_item r 5 True 9] show ?thesis by simp
qed

end
