(* ===== verification/Protocol.thy ===== *)
theory Protocol
  imports Prelude
begin

text \<open>
  The facts the focus listener sends and an outpost takes in, as far as the logic inspects them
  (\<^verbatim>\<open>crates/verbatim-model/src/protocol/mod.rs\<close>, \<^verbatim>\<open>calls.rs\<close>, \<^verbatim>\<open>event.rs\<close>): the times an event
  carries, the event clock's order, a focus as the listener reads it, and the facts with the
  key under which a newer one replaces an older. What a snapshot says of its element beyond its
  identity, name and value (its role, states and details) is never inspected here: it is the
  type variable \<open>'x\<close>.
\<close>

section \<open>Calls and times\<close>

datatype call_kind = UiaCall | MsaaCall | WindowMessage

record call_counts =
  cc_uia :: u32
  cc_msaa :: u32
  cc_window_messages :: u32
  cc_connections :: u32

definition record_call :: "call_kind \<Rightarrow> call_counts \<Rightarrow> call_counts" where
  "record_call k c =
     (case k of
        UiaCall \<Rightarrow> c\<lparr>cc_uia := sat_succ (cc_uia c)\<rparr>
      | MsaaCall \<Rightarrow> c\<lparr>cc_msaa := sat_succ (cc_msaa c)\<rparr>
      | WindowMessage \<Rightarrow> c\<lparr>cc_window_messages := sat_succ (cc_window_messages c)\<rparr>)"

definition record_connection :: "call_counts \<Rightarrow> call_counts" where
  "record_connection c = c\<lparr>cc_connections := sat_succ (cc_connections c)\<rparr>"

definition calls_total :: "call_counts \<Rightarrow> u32" where
  "calls_total c = sat_add (sat_add (cc_uia c) (cc_msaa c)) (cc_window_messages c)"

definition calls_is_empty :: "call_counts \<Rightarrow> bool" where
  "calls_is_empty c \<longleftrightarrow> calls_total c = 0"

definition add_calls :: "call_counts \<Rightarrow> call_counts \<Rightarrow> call_counts" where
  "add_calls a b =
     \<lparr>cc_uia = sat_add (cc_uia a) (cc_uia b),
      cc_msaa = sat_add (cc_msaa a) (cc_msaa b),
      cc_window_messages = sat_add (cc_window_messages a) (cc_window_messages b),
      cc_connections = sat_add (cc_connections a) (cc_connections b)\<rparr>"

record event_timing =
  raised_ms_ago :: "u32 option"
  observed_at_us :: u64
  listener_handled_at_us :: u64
  listener_written_at_us :: u64
  relayed_at_us :: u64
  dequeued_at_us :: u64
  awaited_at_us :: u64
  published_at_us :: u64
  written_at_us :: u64
  timing_calls :: call_counts
  awaited_calls :: call_counts
  core_received_at_us :: u64
  core_relay_us :: u64
  core_held_us :: u64
  core_sent_at_us :: u64
  core_read_at_us :: u64

definition timing_default :: event_timing where
  "timing_default =
     \<lparr>raised_ms_ago = None, observed_at_us = 0, listener_handled_at_us = 0, listener_written_at_us = 0, relayed_at_us = 0,
      dequeued_at_us = 0, awaited_at_us = 0, published_at_us = 0, written_at_us = 0,
      timing_calls = \<lparr>cc_uia = 0, cc_msaa = 0, cc_window_messages = 0, cc_connections = 0\<rparr>,
      awaited_calls = \<lparr>cc_uia = 0, cc_msaa = 0, cc_window_messages = 0, cc_connections = 0\<rparr>,
      core_received_at_us = 0, core_relay_us = 0, core_held_us = 0, core_sent_at_us = 0, core_read_at_us = 0\<rparr>"

definition hop_us :: "u64 \<Rightarrow> u64 \<Rightarrow> u64 option" where
  "hop_us from_us to_us = (if from_us \<noteq> 0 \<and> to_us \<noteq> 0 then Some (sat_sub to_us from_us) else None)"

section \<open>Queries\<close>

datatype requester = ReducerAsks | ShellAsks

record request_id =
  rq_asker :: requester
  rq_number :: u64

definition reducer_request :: "u64 \<Rightarrow> request_id" where
  "reducer_request n = \<lparr>rq_asker = ReducerAsks, rq_number = n\<rparr>"

definition shell_request :: "u64 \<Rightarrow> request_id" where
  "shell_request n = \<lparr>rq_asker = ShellAsks, rq_number = n\<rparr>"

section \<open>The event clock\<close>

definition tick_is_after :: "u32 \<Rightarrow> u32 \<Rightarrow> bool" where
  "tick_is_after a b \<longleftrightarrow> a \<noteq> b \<and> a - b < push_bit 31 1"

record win_event_stamp =
  we_thread :: u32
  we_time :: u32

definition raised_after :: "win_event_stamp \<Rightarrow> u32 \<Rightarrow> bool" where
  "raised_after s t = tick_is_after (we_time s) t"

definition raised_before :: "win_event_stamp \<Rightarrow> u32 \<Rightarrow> bool" where
  "raised_before s t = tick_is_after t (we_time s)"

section \<open>A focus as the listener reads it\<close>

record 'x uia_snapshot_fact =
  sn_runtime_id :: "i32 list"
  sn_name :: "string option"
  sn_value :: "string option"
  sn_rest :: 'x

record 'x uia_ancestor_fact =
  an_snapshot :: "'x uia_snapshot_fact"
  an_hwnd :: isize
  an_content :: bool

datatype ancestors_end = Top | ContinueFrom isize | PlainFrom isize

datatype earlier_element = Focused | NotFocused | Gone

record 'x uia_focus_read =
  fr_hwnd :: isize
  fr_snapshot :: "'x uia_snapshot_fact"
  fr_ancestors :: "'x uia_ancestor_fact list"
  fr_ancestors_end :: ancestors_end
  fr_selected_child :: "'x uia_snapshot_fact option"
  fr_value_from_selection :: bool
  fr_window :: "isize option"
  fr_same_as_last :: "earlier_element option"
  fr_bound_us :: u64

datatype notification_kind = ItemAdded | ItemRemoved | ActionCompleted | ActionAborted | OtherKind

datatype notification_processing =
  ImportantAll | ImportantMostRecent | AllProcessing | MostRecent | CurrentThenMostRecent

record notification =
  no_kind :: notification_kind
  no_processing :: notification_processing
  no_display_string :: "string option"
  no_activity_id :: "string option"

section \<open>The facts\<close>

datatype 'x delivered_fact =
    UiaFocusMarker u64
  | UiaFocusRead u64 "'x uia_focus_read" bool
  | UiaFocusDropped u64 bool bool
  | UiaFocusReadsEnded
  | MsaaFocus isize i32 i32
  | ForegroundFact isize
  | MenuPopup isize i32 i32
  | UiaMarked u64 "'x delivered_fact"
  | UiaSelection isize isize "'x uia_snapshot_fact"
  | UiaNotification isize "'x uia_snapshot_fact" notification
  | AlertFact isize i32 i32
  | ShowFact isize i32 i32

fun is_win_event :: "'x delivered_fact \<Rightarrow> bool" where
  "is_win_event (MsaaFocus _ _ _) = True"
| "is_win_event (ForegroundFact _) = True"
| "is_win_event (MenuPopup _ _ _) = True"
| "is_win_event (AlertFact _ _ _) = True"
| "is_win_event (ShowFact _ _ _) = True"
| "is_win_event _ = False"

fun is_focus_read :: "'x delivered_fact \<Rightarrow> bool" where
  "is_focus_read (UiaFocusMarker _) = True"
| "is_focus_read (UiaFocusRead _ _ _) = True"
| "is_focus_read (UiaFocusDropped _ _ _) = True"
| "is_focus_read (UiaMarked _ _) = True"
| "is_focus_read UiaFocusReadsEnded = True"
| "is_focus_read _ = False"

datatype fact_key =
    ForegroundKey isize u32
  | MsaaFocusKey isize i32 i32 u32
  | MenuPopupKey isize i32 i32
  | UiaSelectionKey "i32 list"
  | UiaNotificationKey "i32 list" notification_kind notification_processing "string option"
  | AlertKey isize i32 i32 u32
  | ShowKey isize i32 i32 u32

definition stamp_thread :: "win_event_stamp option \<Rightarrow> u32" where
  "stamp_thread s = (case s of None \<Rightarrow> 0 | Some stamp \<Rightarrow> we_thread stamp)"

fun delivered_key :: "'x delivered_fact \<Rightarrow> win_event_stamp option \<Rightarrow> fact_key option" where
  "delivered_key (ForegroundFact hwnd) s = Some (ForegroundKey hwnd (stamp_thread s))"
| "delivered_key (MsaaFocus hwnd obj child) s = Some (MsaaFocusKey hwnd obj child (stamp_thread s))"
| "delivered_key (UiaFocusMarker _) s = None"
| "delivered_key (UiaFocusRead _ _ _) s = None"
| "delivered_key (UiaFocusDropped _ _ _) s = None"
| "delivered_key UiaFocusReadsEnded s = None"
| "delivered_key (UiaMarked _ _) s = None"
| "delivered_key (UiaNotification _ snap n) s =
     Some (UiaNotificationKey (sn_runtime_id snap) (no_kind n) (no_processing n) (no_activity_id n))"
| "delivered_key (MenuPopup hwnd obj child) s = Some (MenuPopupKey hwnd obj child)"
| "delivered_key (UiaSelection _ _ snap) s = Some (UiaSelectionKey (sn_runtime_id snap))"
| "delivered_key (AlertFact hwnd obj child) s = Some (AlertKey hwnd obj child (stamp_thread s))"
| "delivered_key (ShowFact hwnd obj child) s = Some (ShowKey hwnd obj child (stamp_thread s))"

section \<open>What the definitions give\<close>

text \<open>The parts of a focus's read, and only they, are never replaced on the way.\<close>

lemma delivered_key_None: "delivered_key f s = None \<longleftrightarrow> is_focus_read f"
  by (cases f) simp_all

text \<open>
  The event clock's comparison survives its wrap: of two moments less than \<open>2^31\<close>
  milliseconds apart, the later one's tick, taken modulo \<open>2^32\<close>, is after the earlier one's,
  and never the other way round, wherever in the clock's range the two moments fall.
\<close>

theorem tick_is_after_wraps:
  assumes "t1 < t2" and "t2 < t1 + 2 ^ 31"
  shows "tick_is_after (word_of_nat t2) (word_of_nat t1)
    \<and> \<not> tick_is_after (word_of_nat t1) (word_of_nat t2)"
proof -
  define d where "d = t2 - t1"
  with assms have d: "0 < d" "d < 2 ^ 31" "t2 = t1 + d" by auto
  have dw: "unat (word_of_nat d :: u32) = d"
    using d(2) by (simp add: unat_of_nat)
  have "(word_of_nat t2 :: u32) - word_of_nat t1 = word_of_nat d"
    by (simp add: d(3))
  moreover have "(word_of_nat t1 :: u32) - word_of_nat t2 = - word_of_nat d"
    by (simp add: d(3))
  moreover have "unat (- word_of_nat d :: u32) = 2 ^ 32 - d"
  proof -
    have "(unat (- word_of_nat d :: u32) + d) mod 2 ^ 32 = 0"
      using unat_word_ariths(1) [of "- word_of_nat d :: u32" "word_of_nat d"] dw by simp
    moreover have "unat (- word_of_nat d :: u32) < 2 ^ 32"
      using unat_max_bound [of "- word_of_nat d :: u32"] by simp
    ultimately show ?thesis using d(1,2) by (intro complement_mod) simp_all
  qed
  moreover have "(word_of_nat d :: u32) \<noteq> 0"
    using d(1) dw by (metis less_irrefl unat_0)
  ultimately show ?thesis
    using d dw by (auto simp: tick_is_after_def word_less_nat_alt)
qed

theorem tick_is_after_wraps_witness:
  "tick_is_after (word_of_nat (2 ^ 32 + 5)) (word_of_nat (2 ^ 32 - 5))
   \<and> \<not> tick_is_after (word_of_nat (2 ^ 32 - 5)) (word_of_nat (2 ^ 32 + 5))"
  by (rule tick_is_after_wraps) simp_all

end
