(* ===== verification/Focus_Events.thy ===== *)
theory Focus_Events
  imports Protocol
begin

text \<open>
  The focus listener's vocabulary for a focus event
  (\<^verbatim>\<open>crates/verbatim-listener-logic/src/focus.rs\<close>): its kind, what the callback knew of it, where
  it was queued, what became of it, and the reasons an event is dropped.
\<close>

definition ABANDONED_LIMIT :: usize where
  "ABANDONED_LIMIT = 2"

definition NOT_IN_TIME :: string where
  "NOT_IN_TIME = ''its read did not return in time''"

definition MOVED_ON :: string where
  "MOVED_ON = ''the user moved on from a slow window''"

definition STOPPED_RESPONDING :: string where
  "STOPPED_RESPONDING = ''its window stopped responding''"

definition WAITED_TOO_LONG :: string where
  "WAITED_TOO_LONG = ''it waited too long behind its application's abandoned reads''"

datatype focus_event = Focus | MenuOpened | Selection | Notification

definition NO_WINDOW :: string where
  "NO_WINDOW = ''it has no window above it, so NVDA makes no object for it''"

definition REPLACED :: string where
  "REPLACED = ''a newer focus event of its element replaced it''"

datatype 'x judged = Read "'x uia_focus_read" | Dropped string | Passed "'x delivered_fact"

definition into_fact :: "'x judged \<Rightarrow> u64 \<Rightarrow> focus_event \<Rightarrow> 'x delivered_fact" where
  "into_fact j marker kind =
     (let focus = (kind = Focus) in
      case j of
        Read read \<Rightarrow> UiaFocusRead marker read focus
      | Dropped reason \<Rightarrow> UiaFocusDropped marker focus (focus \<and> reason = NO_WINDOW)
      | Passed passed \<Rightarrow> UiaMarked marker passed)"

fun dropped_reason :: "'x judged \<Rightarrow> string option" where
  "dropped_reason (Dropped reason) = Some reason"
| "dropped_reason (Read _) = None"
| "dropped_reason (Passed _) = None"

record arrival =
  ar_trace :: trace_id
  ar_observed_at_us :: u64
  ar_place :: u64
  ar_left_at :: u64

record meta =
  meta_marker :: u64
  meta_kind :: focus_event
  meta_trace :: trace_id
  meta_timing :: event_timing

record queue_place =
  qp_place :: u64
  qp_left_at :: u64

definition arrival_queue :: "arrival \<Rightarrow> queue_place" where
  "arrival_queue a = \<lparr>qp_place = ar_place a, qp_left_at = ar_left_at a\<rparr>"

definition arrival_of :: "meta \<Rightarrow> queue_place \<Rightarrow> arrival" where
  "arrival_of m q =
     \<lparr>ar_trace = meta_trace m, ar_observed_at_us = observed_at_us (meta_timing m),
      ar_place = qp_place q, ar_left_at = qp_left_at q\<rparr>"

definition current_since :: "queue_place \<Rightarrow> u64 \<Rightarrow> bool" where
  "current_since q read_place \<longleftrightarrow> read_place \<noteq> 0 \<and> qp_left_at q < read_place"

text \<open>The marker a fact resolves: every outcome of a read resolves the marker it was sent for.\<close>

fun resolved_marker :: "'x delivered_fact \<Rightarrow> u64 option" where
  "resolved_marker (UiaFocusRead m _ _) = Some m"
| "resolved_marker (UiaFocusDropped m _ _) = Some m"
| "resolved_marker (UiaMarked m _) = Some m"
| "resolved_marker _ = None"

lemma into_fact_resolves: "resolved_marker (into_fact j marker kind) = Some marker"
  by (cases j) (simp_all add: into_fact_def Let_def)

lemma into_fact_is_focus_read: "is_focus_read (into_fact j marker kind)"
  by (cases j) (simp_all add: into_fact_def Let_def)

lemma arrival_queue_of [simp]: "arrival_queue (arrival_of m q) = q"
  by (simp add: arrival_queue_def arrival_of_def)

end
