(* ===== verification/Schedule.thy ===== *)
theory Schedule
  imports BTree In_Flight Focus_Events
begin

text \<open>
  The focus listener's read scheduler (\<^verbatim>\<open>crates/verbatim-listener-logic/src/schedule.rs\<close>): which
  reading thread reads which application's event, when a read is abandoned or published at its
  bound, when a waiting event is dropped and which idle waiters run. A method on \<open>&mut self\<close> that
  pushes to \<open>effects\<close> returns the state with the effects it pushes, in order. What a read takes
  (\<open>J\<close>) is the type \<open>'j\<close>, the opaque parts of a read fact the type \<open>'x\<close>. Tracing and the two
  \<open>debug_assert\<close>s are left out. The laws are in \<open>Schedule_Laws\<close>.
\<close>

section \<open>Inputs and effects\<close>

definition SHUTTING_DOWN :: string where
  "SHUTTING_DOWN = ''the listener is shutting down''"

definition NO_THREAD :: string where
  "NO_THREAD = ''no thread to read it''"

datatype ('j, 'x) schedule_input =
    InPush pid meta 'j focus_event "i32 list option" rule_window
  | InNext pid u64
  | InReturned pid request meta "'x Focus_Events.judged" "window option"
  | InTick
  | InLearned pid request window
  | InArmed pid request u64
  | InJudged pid request "reason option"
  | InPublished pid request "'x uia_focus_read option" "reason option"
  | InForeground "window option" "(pid \<times> window option) list"
  | InMsaaFocus pid
  | InOutpostEnded pid
  | InWhenIdle u64
  | InSpawnFailed pid u64
  | InStop

datatype waking = WakeThread pid | WakeAll

datatype alarm_change = AlarmSet "u64 option" | AlarmNow

record 'j job =
  jb_pid :: pid
  jb_request :: request
  jb_meta :: meta
  jb_work :: 'j
  jb_window :: rule_window
  jb_after_elsewhere :: bool
  jb_queue :: queue_place

datatype ('j, 'x) schedule_effect =
    Outcome pid meta "'x Focus_Events.judged"
  | Spawn pid u64 bool
  | Wake waking
  | Unwatch pid
  | ForgetLast
  | Forget pid
  | Alarm alarm_change
  | RunIdle u64
  | GiveJob "'j job"
  | JudgeRead pid request window
  | PublishRead pid request "reason option"

section \<open>The state\<close>

record 'j queued =
  qu_place :: u64
  qu_after_elsewhere :: bool
  qu_left_at :: u64
  qu_kind :: focus_event
  qu_key :: "i32 list option"
  qu_window :: rule_window
  qu_meta :: meta
  qu_job :: 'j

record running_read =
  rn_meta :: meta
  rn_kind :: focus_event
  rn_place :: u64

record 'j app =
  app_queue :: "'j queued list"
  app_threaded :: bool
  app_flight :: "running_read in_flight"
  app_abandoned :: usize
  app_limit_reached :: "u64 option"
  app_ending :: bool
  app_left_at :: u64
  app_last_top :: "window option"

definition App_new :: "'j app" where
  "App_new =
     \<lparr>app_queue = [], app_threaded = False, app_flight = fl_new, app_abandoned = 0,
      app_limit_reached = None, app_ending = False, app_left_at = 0, app_last_top = None\<rparr>"

definition app_in_charge :: "'j app \<Rightarrow> u64 \<Rightarrow> bool" where
  "app_in_charge a generation \<longleftrightarrow> app_threaded a \<and> fl_generation (app_flight a) = generation"

definition spent :: "'j app \<Rightarrow> bool" where
  "spent a \<longleftrightarrow> app_ending a \<and> \<not> app_threaded a \<and> app_abandoned a = 0 \<and> app_queue a = []"

definition waiting_end :: "'j app \<Rightarrow> u64 \<Rightarrow> u64 option" where
  "waiting_end a dl =
     (if app_threaded a \<or> app_queue a = [] then None
      else map_option (\<lambda>reached. sat_add reached dl) (app_limit_reached a))"

record 'j schedule =
  sch_deadline :: u64
  sch_apps :: "(pid, 'j app) btree"
  sch_stopping :: bool
  sch_queued :: u64
  sch_idle_waiters :: "(u64 \<times> u64) list"
  sch_last_focus :: "pid option"
  sch_alarm_due :: "u64 option"

definition Schedule_new :: "duration \<Rightarrow> 'j schedule" where
  "Schedule_new dl =
     \<lparr>sch_deadline = micros dl, sch_apps = bt_empty, sch_stopping = False, sch_queued = 0,
      sch_idle_waiters = [], sch_last_focus = None, sch_alarm_due = None\<rparr>"

abbreviation the_app :: "'j schedule \<Rightarrow> pid \<Rightarrow> 'j app option" where
  "the_app s pid \<equiv> bt_get (sch_apps s) pid"

definition put_app :: "pid \<Rightarrow> 'j app \<Rightarrow> 'j schedule \<Rightarrow> 'j schedule" where
  "put_app pid a s = s\<lparr>sch_apps := bt_put pid a (sch_apps s)\<rparr>"

section \<open>What is asked of it\<close>

definition unpublished_marker :: "running_read in_flight \<Rightarrow> u64 list" where
  "unpublished_marker f =
     (case running f of Some (_, item, False) \<Rightarrow> [meta_marker (rn_meta item)] | _ \<Rightarrow> [])"

definition markers :: "'j schedule \<Rightarrow> u64 list" where
  "markers s = sort (concat (map
     (\<lambda>a. map (\<lambda>q. meta_marker (qu_meta q)) (app_queue a) @ unpublished_marker (app_flight a))
     (bt_values (sch_apps s))))"

definition held :: "'j schedule \<Rightarrow> pid list" where
  "held s = bt_keys (sch_apps s)"

definition in_charge :: "'j schedule \<Rightarrow> pid \<Rightarrow> u64 \<Rightarrow> bool" where
  "in_charge s pid generation \<longleftrightarrow>
     \<not> sch_stopping s \<and> is_some_and (the_app s pid) (\<lambda>a. app_in_charge a generation)"

definition focus_pending :: "'j schedule \<Rightarrow> pid option \<Rightarrow> bool" where
  "focus_pending s pid = list_ex
     (\<lambda>(owner, a).
        is_some_and (running (app_flight a)) (\<lambda>(_, item, pub). rn_kind item = Focus \<and> \<not> pub)
        \<or> (app_threaded a \<or> Some owner = pid) \<and> list_ex (\<lambda>q. qu_kind q = Focus) (app_queue a))
     (bt_entries (sch_apps s))"

section \<open>The idle waiters and the alarm\<close>

text \<open>\<open>Iterator::min\<close>.\<close>

definition iter_min :: "'a::linorder list \<Rightarrow> 'a option" where
  "iter_min xs = (if xs = [] then None else Some (min_list xs))"

definition oldest_place :: "'j app \<Rightarrow> u64 option" where
  "oldest_place a =
     (case running (app_flight a) of
        Some (_, item, False) \<Rightarrow> Some (rn_place item)
      | _ \<Rightarrow> (case app_queue a of [] \<Rightarrow> None | q # _ \<Rightarrow> Some (qu_place q)))"

fun run_idle :: "u64 option \<Rightarrow> (u64 \<times> u64) list \<Rightarrow> (u64 \<times> u64) list \<times> ('j, 'x) schedule_effect list" where
  "run_idle oldest [] = ([], [])"
| "run_idle oldest ((before, waiter) # ws) =
     (if (case oldest of None \<Rightarrow> True | Some oldest \<Rightarrow> before < oldest)
      then apsnd (Cons (RunIdle waiter)) (run_idle oldest ws)
      else ((before, waiter) # ws, []))"

definition wake_idle_waiters :: "'j schedule \<Rightarrow> 'j schedule \<times> ('j, 'x) schedule_effect list" where
  "wake_idle_waiters s =
     (if sch_idle_waiters s = [] then (s, [])
      else
        let oldest = iter_min (List.map_filter oldest_place (bt_values (sch_apps s)));
            (ws, es) = run_idle oldest (sch_idle_waiters s)
        in (s\<lparr>sch_idle_waiters := ws\<rparr>, es))"

definition dues :: "'j schedule \<Rightarrow> u64 list" where
  "dues s = concat (map
     (\<lambda>a. (case next_wake (app_flight a) of None \<Rightarrow> [] | Some t \<Rightarrow> [t])
          @ (case waiting_end a (sch_deadline s) of None \<Rightarrow> [] | Some t \<Rightarrow> [t]))
     (bt_values (sch_apps s)))"

definition set_alarm :: "'j schedule \<Rightarrow> 'j schedule \<times> ('j, 'x) schedule_effect list" where
  "set_alarm s =
     (if sch_stopping s then (s, [])
      else
        let due = iter_min (dues s)
        in if due \<noteq> sch_alarm_due s then (s\<lparr>sch_alarm_due := due\<rparr>, [Alarm (AlarmSet due)])
           else (s, []))"

section \<open>The operations\<close>

definition moved_away_from_all_but :: "pid \<Rightarrow> 'j schedule \<Rightarrow> 'j schedule" where
  "moved_away_from_all_but pid s =
     s\<lparr>sch_apps := bt_map (\<lambda>owner a. if owner \<noteq> pid then a\<lparr>app_left_at := sch_queued s\<rparr> else a)
         (sch_apps s)\<rparr>"

definition sched_start ::
  "pid \<Rightarrow> bool \<Rightarrow> 'j schedule \<Rightarrow> 'j schedule \<times> ('j, 'x) schedule_effect list" where
  "sched_start pid reuse s =
     (case the_app s pid of
        None \<Rightarrow> (s, [])
      | Some a \<Rightarrow>
          let (f, generation) = succeed (app_flight a)
          in (put_app pid (a\<lparr>app_flight := f, app_threaded := True\<rparr>) s,
              [Spawn pid generation reuse]))"

text \<open>The outcome of each event of a queue drained with one reason.\<close>

definition drop_all ::
  "pid \<Rightarrow> string \<Rightarrow> 'j queued list \<Rightarrow> ('j, 'x) schedule_effect list" where
  "drop_all pid why qs = map (\<lambda>q. Outcome pid (qu_meta q) (Dropped why)) qs"

definition drop_waiting :: "pid \<Rightarrow> 'j schedule \<Rightarrow> 'j schedule \<times> ('j, 'x) schedule_effect list" where
  "drop_waiting pid s =
     (case the_app s pid of
        None \<Rightarrow> (s, [])
      | Some a \<Rightarrow>
          if app_threaded a \<or> app_queue a = [] then (s, [])
          else
            let (s', es) = wake_idle_waiters (put_app pid (a\<lparr>app_queue := []\<rparr>) s)
            in (s', drop_all pid WAITED_TOO_LONG (app_queue a) @ es))"

definition let_go :: "pid \<Rightarrow> 'j schedule \<Rightarrow> 'j schedule \<times> ('j, 'x) schedule_effect list" where
  "let_go pid s = (s\<lparr>sch_apps := bt_remove pid (sch_apps s)\<rparr>, [Forget pid])"

text \<open>A newer event of one kind of one element replaces the waiting ones.\<close>

definition replaces :: "focus_event \<Rightarrow> i32 list option \<Rightarrow> 'j queued \<Rightarrow> bool" where
  "replaces kind key q \<longleftrightarrow> key \<noteq> None \<and> qu_kind q = kind \<and> qu_key q = key"

text \<open>\<open>entry(pid).or_insert_with(App::new)\<close>.\<close>

definition app_or_new :: "'j schedule \<Rightarrow> pid \<Rightarrow> 'j app" where
  "app_or_new s pid = (case the_app s pid of None \<Rightarrow> App_new | Some a \<Rightarrow> a)"

text \<open>The first part of a push: the waiting events it replaces have their outcome.\<close>

definition push_erase ::
  "pid \<Rightarrow> focus_event \<Rightarrow> i32 list option \<Rightarrow> 'j schedule \<Rightarrow> 'j schedule \<times> ('j, 'x) schedule_effect list" where
  "push_erase pid kind key s =
     (let a = app_or_new s pid;
          erased = filter (replaces kind key) (app_queue a);
          s1 = put_app pid (a\<lparr>app_ending := False,
                              app_queue := filter (\<lambda>q. \<not> replaces kind key q) (app_queue a)\<rparr>) s;
          (s2, woken) = (if erased \<noteq> [] then wake_idle_waiters s1 else (s1, []))
      in (s2, drop_all pid REPLACED erased @ woken))"

text \<open>The second part: the event's place, and the applications it moves away from.\<close>

definition push_mark :: "pid \<Rightarrow> focus_event \<Rightarrow> 'j schedule \<Rightarrow> 'j schedule" where
  "push_mark pid kind s =
     (let s1 = s\<lparr>sch_queued := sat_succ (sch_queued s)\<rparr>
      in if kind = Focus \<or> kind = MenuOpened
         then moved_away_from_all_but pid (s1\<lparr>sch_last_focus := Some pid\<rparr>) else s1)"

text \<open>The third part: the event waits behind its application's.\<close>

definition push_wait ::
  "u64 \<Rightarrow> pid \<Rightarrow> 'j queued \<Rightarrow> 'j app \<Rightarrow> 'j schedule \<Rightarrow> 'j schedule \<times> ('j, 'x) schedule_effect list" where
  "push_wait now pid q a s =
     (let a = a\<lparr>app_queue := app_queue a @ [q]\<rparr>; s = put_app pid a s
      in if app_threaded a then (s, [Wake (WakeThread pid)])
         else if is_some_and (app_limit_reached a) (\<lambda>reached. sat_add reached (sch_deadline s) \<le> now)
         then drop_waiting pid s
         else if ABANDONED_LIMIT \<le> app_abandoned a then (s, [])
         else sched_start pid False s)"

definition sched_push ::
  "u64 \<Rightarrow> pid \<Rightarrow> meta \<Rightarrow> 'j \<Rightarrow> focus_event \<Rightarrow> i32 list option \<Rightarrow> rule_window \<Rightarrow> 'j schedule
    \<Rightarrow> 'j schedule \<times> ('j, 'x) schedule_effect list" where
  "sched_push now pid meta job kind key window s =
     (if sch_stopping s then (s, [Outcome pid meta (Dropped SHUTTING_DOWN)])
      else
        let (s1, es1) = push_erase pid kind key s;
            s2 = push_mark pid kind s1
        in case the_app s2 pid of
             None \<Rightarrow> (s2, es1)
           | Some a \<Rightarrow>
               let q = \<lparr>qu_place = sch_queued s2,
                        qu_after_elsewhere =
                          ((kind = Focus \<or> kind = MenuOpened) \<and> sch_last_focus s1 \<noteq> Some pid),
                        qu_left_at = app_left_at a, qu_kind = kind, qu_key = key,
                        qu_window = window, qu_meta = meta, qu_job = job\<rparr>;
                   (s3, es2) = push_wait now pid q a s2
               in (s3, es1 @ es2))"

definition sched_next ::
  "u64 \<Rightarrow> pid \<Rightarrow> u64 \<Rightarrow> 'j schedule \<Rightarrow> 'j schedule \<times> ('j, 'x) schedule_effect list" where
  "sched_next now pid generation s =
     (if sch_stopping s then (s, [])
      else
        case the_app s pid of
          None \<Rightarrow> (s, [])
        | Some a \<Rightarrow>
            if \<not> app_in_charge a generation then (s, [])
            else
              case app_queue a of
                q # qs \<Rightarrow>
                  let (f, request) =
                        fl_start \<lparr>rn_meta = qu_meta q, rn_kind = qu_kind q, rn_place = qu_place q\<rparr>
                          (sch_deadline s) (qu_window q) now (app_flight a)
                  in (put_app pid (a\<lparr>app_queue := qs, app_flight := f\<rparr>) s,
                      [GiveJob
                         \<lparr>jb_pid = pid, jb_request = request, jb_meta = qu_meta q, jb_work = qu_job q,
                          jb_window = qu_window q, jb_after_elsewhere = qu_after_elsewhere q,
                          jb_queue = \<lparr>qp_place = qu_place q, qp_left_at = qu_left_at q\<rparr>\<rparr>])
              | [] \<Rightarrow>
                  if app_ending a then
                    let a = a\<lparr>app_threaded := False\<rparr>; s = put_app pid a s
                    in if spent a then let_go pid s else (s, [])
                  else (s, []))"

fun is_read :: "'x Focus_Events.judged \<Rightarrow> bool" where
  "is_read (Read _) = True"
| "is_read (Dropped _) = False"
| "is_read (Passed _) = False"

definition sched_returned ::
  "pid \<Rightarrow> request \<Rightarrow> meta \<Rightarrow> 'x Focus_Events.judged \<Rightarrow> window option \<Rightarrow> 'j schedule
    \<Rightarrow> 'j schedule \<times> ('j, 'x) schedule_effect list" where
  "sched_returned pid request meta what top_window s =
     (case the_app s pid of
        None \<Rightarrow> (s, [])
      | Some a \<Rightarrow>
          if app_in_charge a (req_generation request) then
            let a = (if is_read what \<and> top_window \<noteq> None then a\<lparr>app_last_top := top_window\<rparr> else a);
                (f, ended) = fl_end request (app_flight a);
                outcome = (case ended of
                             Some (_, True) \<Rightarrow> []
                           | Some (_, False) \<Rightarrow> [Outcome pid meta what]
                           | None \<Rightarrow> []);
                (s, woken) = wake_idle_waiters (put_app pid (a\<lparr>app_flight := f\<rparr>) s)
            in (s, outcome @ woken)
          else
            let count = sat_sub (app_abandoned a) 1;
                a = a\<lparr>app_abandoned := count,
                      app_limit_reached :=
                        (if count < ABANDONED_LIMIT then None else app_limit_reached a)\<rparr>;
                s = put_app pid a s;
                (s, es) =
                  (if spent a then let_go pid s
                   else if app_threaded a \<or> app_queue a = [] \<or> sch_stopping s then (s, [])
                   else sched_start pid True s)
            in (s, ForgetLast # es))"

fun why_dropped :: "reason \<Rightarrow> string" where
  "why_dropped MovedOn = MOVED_ON"
| "why_dropped Deadline = NOT_IN_TIME"
| "why_dropped Hung = STOPPED_RESPONDING"

definition sched_abandon ::
  "u64 \<Rightarrow> pid \<Rightarrow> running_read abandoned \<Rightarrow> 'j schedule
    \<Rightarrow> 'j schedule \<times> ('j, 'x) schedule_effect list" where
  "sched_abandon now pid ab s =
     (case the_app s pid of
        None \<Rightarrow> (s, [])
      | Some a \<Rightarrow>
          let count = sat_add (app_abandoned a) 1;
              a = a\<lparr>app_threaded := False, app_abandoned := count,
                    app_limit_reached :=
                      (if ABANDONED_LIMIT \<le> count \<and> app_limit_reached a = None then Some now
                       else app_limit_reached a)\<rparr>;
              s = put_app pid a s;
              outcome = (if ab_published ab then []
                         else [Outcome pid (rn_meta (ab_item ab))
                                 (Dropped (why_dropped (ab_reason ab)))]);
              (s, started) =
                (if app_queue a \<noteq> [] \<and> \<not> ABANDONED_LIMIT \<le> count
                 then sched_start pid False s else (s, []));
              (s, woken) = wake_idle_waiters s
          in (s, Unwatch pid # outcome @ started @ woken))"

fun sched_decided ::
  "u64 \<Rightarrow> pid \<Rightarrow> running_read decision \<Rightarrow> 'j schedule
    \<Rightarrow> 'j schedule \<times> ('j, 'x) schedule_effect list" where
  "sched_decided now pid Nothing s = (s, [])"
| "sched_decided now pid (Ask (Judge request (Some window))) s = (s, [JudgeRead pid request window])"
| "sched_decided now pid (Ask (Judge request None)) s = (s, [])"
| "sched_decided now pid (Ask (Publish request then_abandon)) s =
     (s, [PublishRead pid request then_abandon])"
| "sched_decided now pid (Abandon ab) s = sched_abandon now pid ab s"

text \<open>The body of the watchdog's loop over the applications, and the loop.\<close>

definition tick_app :: "u64 \<Rightarrow> pid \<Rightarrow> 'j schedule \<Rightarrow> 'j schedule \<times> ('j, 'x) schedule_effect list" where
  "tick_app now pid s =
     (case the_app s pid of
        None \<Rightarrow> (s, [])
      | Some a \<Rightarrow>
          if running (app_flight a) \<noteq> None then
            let (f, decision) = tick now (app_flight a)
            in sched_decided now pid decision (put_app pid (a\<lparr>app_flight := f\<rparr>) s)
          else if is_some_and (waiting_end a (sch_deadline s)) (\<lambda>end_at. end_at \<le> now)
          then drop_waiting pid s
          else (s, []))"

fun tick_apps ::
  "u64 \<Rightarrow> pid list \<Rightarrow> 'j schedule \<Rightarrow> 'j schedule \<times> ('j, 'x) schedule_effect list" where
  "tick_apps now [] s = (s, [])"
| "tick_apps now (pid # pids) s =
     (let (s1, es1) = tick_app now pid s; (s2, es2) = tick_apps now pids s1 in (s2, es1 @ es2))"

definition sched_tick :: "u64 \<Rightarrow> 'j schedule \<Rightarrow> 'j schedule \<times> ('j, 'x) schedule_effect list" where
  "sched_tick now s = (if sch_stopping s then (s, []) else tick_apps now (bt_keys (sch_apps s)) s)"

text \<open>The outcome a publication sends: the read, while it is under way and not published.\<close>

definition publish_outcome ::
  "pid \<Rightarrow> request \<Rightarrow> 'x uia_focus_read option \<Rightarrow> running_read in_flight
    \<Rightarrow> ('j, 'x) schedule_effect list \<times> bool" where
  "publish_outcome pid request read f =
     (let meta = (case running f of
                    None \<Rightarrow> None
                  | Some (req, item, _) \<Rightarrow>
                      if accepts f req \<and> req = request then Some (rn_meta item) else None)
      in case (meta, read) of
           (Some meta, Some read) \<Rightarrow> ([Outcome pid meta (Read read)], True)
         | _ \<Rightarrow> ([], False))"

definition sched_published ::
  "u64 \<Rightarrow> pid \<Rightarrow> request \<Rightarrow> 'x uia_focus_read option \<Rightarrow> reason option \<Rightarrow> 'j schedule
    \<Rightarrow> 'j schedule \<times> ('j, 'x) schedule_effect list" where
  "sched_published now pid request read then_abandon s =
     (case the_app s pid of
        None \<Rightarrow> (s, [])
      | Some a \<Rightarrow>
          let (outcome, got) = publish_outcome pid request read (app_flight a);
              (f, decision) = published request got then_abandon now (app_flight a);
              s = put_app pid (a\<lparr>app_flight := f\<rparr>) s;
              (s, woken) = (if got then wake_idle_waiters s else (s, []));
              (s, es) = sched_decided now pid decision s
          in (s, outcome @ woken @ es))"

definition sched_foreground ::
  "window option \<Rightarrow> (pid \<times> window option) list \<Rightarrow> 'j schedule \<Rightarrow> 'j schedule" where
  "sched_foreground top_level running_tops s =
     s\<lparr>sch_apps := bt_map
         (\<lambda>pid a.
            let reference =
                  (if running (app_flight a) \<noteq> None
                   then Option.bind (find (\<lambda>(owner, _). owner = pid) running_tops) snd
                   else app_last_top a)
            in if reference = None \<or> reference \<noteq> top_level then a\<lparr>app_left_at := sch_queued s\<rparr> else a)
         (sch_apps s)\<rparr>"

definition outpost_ended :: "pid \<Rightarrow> 'j schedule \<Rightarrow> 'j schedule \<times> ('j, 'x) schedule_effect list" where
  "outpost_ended pid s =
     (case the_app s pid of
        None \<Rightarrow> (s, [])
      | Some a \<Rightarrow>
          let a = a\<lparr>app_ending := True\<rparr>; s = put_app pid a s
          in if spent a then let_go pid s else (s, [Wake (WakeThread pid)]))"

definition spawn_failed ::
  "pid \<Rightarrow> u64 \<Rightarrow> 'j schedule \<Rightarrow> 'j schedule \<times> ('j, 'x) schedule_effect list" where
  "spawn_failed pid generation s =
     (case the_app s pid of
        None \<Rightarrow> (s, [])
      | Some a \<Rightarrow>
          if \<not> app_in_charge a generation then (s, [])
          else
            let dropped = drop_all pid NO_THREAD (app_queue a);
                a = a\<lparr>app_threaded := False, app_queue := []\<rparr>;
                s = put_app pid a s;
                (s, gone) = (if spent a then let_go pid s else (s, []));
                (s, woken) = wake_idle_waiters s
            in (s, dropped @ gone @ woken))"

section \<open>The step\<close>

fun sched_act ::
  "'j schedule \<Rightarrow> ('j, 'x) schedule_input \<times> u64 \<Rightarrow> 'j schedule \<times> ('j, 'x) schedule_effect list" where
  "sched_act s (InPush pid meta job kind key window, now) =
     sched_push now pid meta job kind key window s"
| "sched_act s (InNext pid generation, now) = sched_next now pid generation s"
| "sched_act s (InReturned pid request meta what top_window, now) =
     sched_returned pid request meta what top_window s"
| "sched_act s (InTick, now) = sched_tick now (s\<lparr>sch_alarm_due := None\<rparr>)"
| "sched_act s (InLearned pid request window, now) =
     (if sch_stopping s then (s, [])
      else
        case the_app s pid of
          None \<Rightarrow> (s, [])
        | Some a \<Rightarrow>
            let (f, decision) = learned request window now (app_flight a)
            in sched_decided now pid decision (put_app pid (a\<lparr>app_flight := f\<rparr>) s))"
| "sched_act s (InArmed pid request bound, now) =
     (case the_app s pid of
        None \<Rightarrow> (s, [])
      | Some a \<Rightarrow> (put_app pid (a\<lparr>app_flight := armed request bound (app_flight a)\<rparr>) s, []))"
| "sched_act s (InJudged pid request verdict, now) =
     (case the_app s pid of
        None \<Rightarrow> (s, [])
      | Some a \<Rightarrow>
          let (f, decision) = In_Flight.judged request verdict (app_flight a)
          in sched_decided now pid decision (put_app pid (a\<lparr>app_flight := f\<rparr>) s))"
| "sched_act s (InPublished pid request read then_abandon, now) =
     sched_published now pid request read then_abandon s"
| "sched_act s (InForeground top_level running_tops, now) =
     (sched_foreground top_level running_tops s, [])"
| "sched_act s (InMsaaFocus pid, now) = (moved_away_from_all_but pid s, [])"
| "sched_act s (InOutpostEnded pid, now) = outpost_ended pid s"
| "sched_act s (InWhenIdle waiter, now) =
     (if sch_stopping s then (s, [])
      else wake_idle_waiters
             (s\<lparr>sch_idle_waiters := sch_idle_waiters s @ [(sch_queued s, waiter)]\<rparr>))"
| "sched_act s (InSpawnFailed pid generation, now) = spawn_failed pid generation s"
| "sched_act s (InStop, now) = (s\<lparr>sch_stopping := True\<rparr>, [Wake WakeAll, Alarm AlarmNow])"

definition sched_step ::
  "'j schedule \<Rightarrow> ('j, 'x) schedule_input \<times> u64 \<Rightarrow> 'j schedule \<times> ('j, 'x) schedule_effect list" where
  "sched_step s x =
     (let (s1, es1) = sched_act s x; (s2, es2) = set_alarm s1 in (s2, es1 @ es2))"

end
