(* ===== verification/Schedule_Laws.thy ===== *)
theory Schedule_Laws
  imports Schedule "HOL-Library.Sublist"
begin

text \<open>
  The laws of the read scheduler. \<open>app_ok\<close> and \<open>sched_inv\<close> are its invariant; \<open>snapshot\<close> is what
  its contract speaks of (the events whose outcome is owed, the idle waiters, each application's
  waiting events), and \<open>move\<close> is the contract of any part of a step: moves compose, so each
  operation's law is that of its parts. The properties over runs follow from the law of the step.
\<close>

section \<open>Owed events\<close>

type_synonym event = "pid \<times> u64 \<times> meta"

definition read_event :: "running_read \<Rightarrow> u64 \<times> meta" where
  "read_event r = (rn_place r, rn_meta r)"

definition queue_event :: "'j queued \<Rightarrow> u64 \<times> meta" where
  "queue_event q = (qu_place q, qu_meta q)"

definition flight_events :: "running_read in_flight \<Rightarrow> (u64 \<times> meta) multiset" where
  "flight_events f = image_mset read_event (owed_view (running f))"

definition app_events :: "'j app \<Rightarrow> (u64 \<times> meta) multiset" where
  "app_events a = flight_events (app_flight a) + mset (map queue_event (app_queue a))"

definition tag :: "pid \<Rightarrow> (u64 \<times> meta) multiset \<Rightarrow> event multiset" where
  "tag pid = image_mset (Pair pid)"

definition events :: "'j schedule \<Rightarrow> event multiset" where
  "events s = total (\<lambda>(pid, a). tag pid (app_events a)) (bt_entries (sch_apps s))"

definition held_events :: "'j schedule \<Rightarrow> pid \<Rightarrow> (u64 \<times> meta) multiset" where
  "held_events s pid = (case the_app s pid of None \<Rightarrow> {#} | Some a \<Rightarrow> app_events a)"

text \<open>The place of an event in the order all events were queued in.\<close>

definition place_of :: "event \<Rightarrow> u64" where
  "place_of e = fst (snd e)"

definition named :: "event multiset \<Rightarrow> (pid \<times> meta) multiset" where
  "named = image_mset (\<lambda>(pid, _, meta). (pid, meta))"

definition low :: "u64 \<Rightarrow> event multiset \<Rightarrow> event multiset" where
  "low b = filter_mset (\<lambda>e. place_of e \<le> b)"

fun settled :: "('j, 'x) schedule_effect \<Rightarrow> (pid \<times> meta) multiset" where
  "settled (Outcome pid meta _) = {#(pid, meta)#}"
| "settled _ = {#}"

fun idle_of :: "('j, 'x) schedule_effect \<Rightarrow> u64 list" where
  "idle_of (RunIdle w) = [w]"
| "idle_of _ = []"

definition idles :: "('j, 'x) schedule_effect list \<Rightarrow> u64 list" where
  "idles es = concat (map idle_of es)"

fun job_of :: "pid \<Rightarrow> ('j, 'x) schedule_effect \<Rightarrow> meta list" where
  "job_of pid (GiveJob j) = (if jb_pid j = pid then [jb_meta j] else [])"
| "job_of pid _ = []"

definition jobs :: "pid \<Rightarrow> ('j, 'x) schedule_effect list \<Rightarrow> meta list" where
  "jobs pid es = concat (map (job_of pid) es)"

definition waiting :: "'j schedule \<Rightarrow> pid \<Rightarrow> meta list" where
  "waiting s pid = (case the_app s pid of None \<Rightarrow> [] | Some a \<Rightarrow> map qu_meta (app_queue a))"

fun pushed :: "pid \<Rightarrow> event list \<Rightarrow> meta list" where
  "pushed pid [] = []"
| "pushed pid ((pid', _, meta) # es) = (if pid' = pid then meta # pushed pid es else pushed pid es)"

lemma es_simps [simp]:
  "idles [] = []" "idles (e # es) = idle_of e @ idles es" "idles (es @ es') = idles es @ idles es'"
  "jobs pid [] = []" "jobs pid (e # es) = job_of pid e @ jobs pid es"
  "jobs pid (es @ es') = jobs pid es @ jobs pid es'"
  by (simp_all add: idles_def jobs_def)

lemma event_simps [simp]:
  "tag pid {#} = {#}" "tag pid (M + N) = tag pid M + tag pid N"
  "tag pid (add_mset x M) = add_mset (pid, x) (tag pid M)"
  "named {#} = {#}" "named (E + E') = named E + named E'"
  "named (add_mset (pid, pl, m) E) = add_mset (pid, m) (named E)"
  "low b {#} = {#}" "low b (E + E') = low b E + low b E'"
  by (simp_all add: tag_def named_def low_def)

lemma pushed_append [simp]: "pushed pid (es @ es') = pushed pid es @ pushed pid es'"
  by (induction pid es rule: pushed.induct) simp_all

lemma mem_tag: "e \<in># tag pid M \<longleftrightarrow> fst e = pid \<and> snd e \<in># M"
  by (cases e) (auto simp: tag_def)

lemma named_low_mono: "M \<subseteq># N \<Longrightarrow> named (low b M) \<subseteq># named (low b N)"
  by (simp add: named_def low_def image_mset_subseteq_mono multiset_filter_mono)

lemma named_low_le: "named (low b M) \<subseteq># named M"
  by (simp add: named_def low_def image_mset_subseteq_mono)

lemma put_app_simps [simp]:
  "sch_apps (put_app pid a s) = bt_put pid a (sch_apps s)"
  "sch_deadline (put_app pid a s) = sch_deadline s"
  "sch_stopping (put_app pid a s) = sch_stopping s"
  "sch_queued (put_app pid a s) = sch_queued s"
  "sch_idle_waiters (put_app pid a s) = sch_idle_waiters s"
  "sch_last_focus (put_app pid a s) = sch_last_focus s"
  "sch_alarm_due (put_app pid a s) = sch_alarm_due s"
  "put_app pid a (put_app pid a' s) = put_app pid a s"
  "put_app pid a s\<lparr>sch_apps := m\<rparr> = s\<lparr>sch_apps := m\<rparr>"
  by (simp_all add: put_app_def)

lemma events_put: "events (put_app pid a s) + tag pid (held_events s pid) = events s + tag pid (app_events a)"
  using bt.total_put [of "\<lambda>(pid, a). tag pid (app_events a)" pid a "sch_apps s"]
  by (simp add: events_def held_events_def split: option.splits)

lemma events_remove:
  "events (s\<lparr>sch_apps := bt_remove pid (sch_apps s)\<rparr>) + tag pid (held_events s pid) = events s"
  using bt.total_remove [of "\<lambda>(pid, a). tag pid (app_events a)" pid "sch_apps s"]
  by (simp add: events_def held_events_def split: option.splits)

lemma mem_total: "e \<in># total f xs \<longleftrightarrow> (\<exists>x \<in> set xs. e \<in># f x)"
  by (induction xs) auto

lemma mem_events: "(pid, e) \<in># events s \<longleftrightarrow> (\<exists>a. the_app s pid = Some a \<and> e \<in># app_events a)"
proof -
  have "(pid, e) \<in># events s \<longleftrightarrow>
      (\<exists>x \<in> set (bt_entries (sch_apps s)). fst x = pid \<and> e \<in># app_events (snd x))"
    by (auto simp: events_def mem_total split_beta mem_tag)
  also have "\<dots> \<longleftrightarrow> (\<exists>a. (pid, a) \<in> set (bt_entries (sch_apps s)) \<and> e \<in># app_events a)"
    by force
  finally show ?thesis by (simp add: bt_mem_entries)
qed

lemma events_cong: "sch_apps s' = sch_apps s \<Longrightarrow> events s' = events s"
  by (simp add: events_def)

section \<open>Moves\<close>

record snapshot =
  vw_events :: "event multiset"
  vw_waiters :: "(u64 \<times> u64) list"
  vw_queues :: "pid \<Rightarrow> meta list"

text \<open>The snapshot of a state beside events taken out of it whose outcome is still to be sent.\<close>

definition view :: "event multiset \<Rightarrow> 'j schedule \<Rightarrow> snapshot" where
  "view D s = \<lparr>vw_events = events s + D, vw_waiters = sch_idle_waiters s, vw_queues = waiting s\<rparr>"

lemma view_simps [simp]:
  "vw_events (view D s) = events s + D" "vw_waiters (view D s) = sch_idle_waiters s"
  "vw_queues (view D s) = waiting s"
  by (simp_all add: view_def)

text \<open>
  What the effects \<open>es\<close> of a part of a step are to the snapshots before and after it, where the
  events \<open>F\<close> are queued. Each outcome is of an event owed or queued, and each of these is still owed
  or has one outcome; the waiters run are the first of those waiting, in order, each after the
  outcome of every event queued no later than it; and the events given to a thread are the first of
  their application's waiting ones, in order, those replaced or dropped left out.
\<close>

definition move ::
  "snapshot \<Rightarrow> event list \<Rightarrow> ('j, 'x) schedule_effect list \<Rightarrow> snapshot \<Rightarrow> bool" where
  "move v F es v' \<longleftrightarrow>
     (\<exists>E. vw_events v + mset F = vw_events v' + E \<and> total settled es = named E)
     \<and> map snd (vw_waiters v) = idles es @ map snd (vw_waiters v')
     \<and> set (vw_waiters v') \<subseteq> set (vw_waiters v)
     \<and> (\<forall>pre w post. es = pre @ RunIdle w # post \<longrightarrow>
          (\<exists>b. (b, w) \<in> set (vw_waiters v) \<and> named (low b (vw_events v)) \<subseteq># total settled pre))
     \<and> (\<forall>pid. subseq (jobs pid es @ vw_queues v' pid) (vw_queues v pid @ pushed pid F))"

lemma move_refl [simp]: "move v [] [] v"
  by (auto simp: move_def intro: exI [of _ "{#}"])

lemma moveD:
  assumes "move v F es v'"
  shows move_events: "\<exists>E. vw_events v + mset F = vw_events v' + E \<and> total settled es = named E"
    and move_waiters: "map snd (vw_waiters v) = idles es @ map snd (vw_waiters v')"
      "set (vw_waiters v') \<subseteq> set (vw_waiters v)"
    and move_idle: "es = pre @ RunIdle w # post \<Longrightarrow>
      \<exists>b. (b, w) \<in> set (vw_waiters v) \<and> named (low b (vw_events v)) \<subseteq># total settled pre"
    and move_queues: "subseq (jobs pid es @ vw_queues v' pid) (vw_queues v pid @ pushed pid F)"
  using assms unfolding move_def by blast+

lemma move_low:
  assumes "move v F es v'"
  shows "named (low b (vw_events v)) \<subseteq># named (low b (vw_events v')) + total settled es"
proof -
  from assms obtain E where E: "vw_events v + mset F = vw_events v' + E" and "total settled es = named E"
    using move_events by blast
  then have "vw_events v \<subseteq># vw_events v' + E"
    by (metis mset_subset_eq_add_left)
  from named_low_mono [OF this, of b] named_low_le [of b E] show ?thesis
    using \<open>total settled es = named E\<close>
    by (simp add: subset_mset.add_mono subset_mset.order_trans)
qed

lemma split_append:
  "xs @ ys = pre @ x # post \<Longrightarrow>
     (\<exists>post'. xs = pre @ x # post') \<or> (\<exists>pre'. pre = xs @ pre' \<and> ys = pre' @ x # post)"
  by (auto simp: append_eq_append_conv2 Cons_eq_append_conv append_eq_Cons_conv)

lemma move_events_trans:
  assumes "M + mset F = M1 + E" and "M1 + mset F' = M2 + E'"
  shows "M + mset (F @ F') = M2 + (E + E' :: event multiset)"
proof -
  have "M + mset (F @ F') = (M1 + mset F') + E"
    using assms(1) by (simp add: union_assoc [symmetric])
  then show ?thesis unfolding assms(2) by (simp add: union_assoc union_commute)
qed

lemma move_idle_trans:
  assumes m1: "move v F es v1" and m2: "move v1 F' es' v2" and "es @ es' = pre @ RunIdle w # post"
  shows "\<exists>b. (b, w) \<in> set (vw_waiters v) \<and> named (low b (vw_events v)) \<subseteq># total settled pre"
  using split_append [OF assms(3)]
proof (elim disjE exE conjE)
  fix post' assume "es = pre @ RunIdle w # post'"
  with move_idle [OF m1] show ?thesis by blast
next
  fix pre' assume pre: "pre = es @ pre'" and "es' = pre' @ RunIdle w # post"
  with move_idle [OF m2] obtain b where w: "(b, w) \<in> set (vw_waiters v1)"
    and b: "named (low b (vw_events v1)) \<subseteq># total settled pre'"
    by blast
  have "named (low b (vw_events v)) \<subseteq># total settled pre' + total settled es"
    using move_low [OF m1, of b] b by (meson subset_mset.add_right_mono subset_mset.order_trans)
  moreover have "(b, w) \<in> set (vw_waiters v)" using w move_waiters(2) [OF m1] by blast
  ultimately show ?thesis using pre by (auto simp: union_commute)
qed

lemma move_queues_trans:
  assumes "subseq (js @ q1) (q @ p)" and "subseq (js' @ q2) (q1 @ p')"
  shows "subseq ((js @ js') @ q2) (q @ p @ p')"
proof -
  have "subseq (js @ (js' @ q2)) (js @ (q1 @ p'))"
    by (rule list_emb_append_mono [OF subseq_order.order_refl assms(2)])
  moreover have "subseq ((js @ q1) @ p') ((q @ p) @ p')"
    by (rule list_emb_append_mono [OF assms(1) subseq_order.order_refl])
  ultimately show ?thesis unfolding append.assoc by (rule subseq_order.order_trans)
qed

lemma move_trans:
  assumes m1: "move v F es v1" and m2: "move v1 F' es' v2"
  shows "move v (F @ F') (es @ es') v2"
proof -
  from m1 obtain E where E: "vw_events v + mset F = vw_events v1 + E" "total settled es = named E"
    using move_events by blast
  from m2 obtain E' where E': "vw_events v1 + mset F' = vw_events v2 + E'" "total settled es' = named E'"
    using move_events by blast
  have "vw_events v + mset (F @ F') = vw_events v2 + (E + E')"
    and "total settled (es @ es') = named (E + E')"
    using move_events_trans [OF E(1) E'(1)] E(2) E'(2) by simp_all
  then have "\<exists>E. vw_events v + mset (F @ F') = vw_events v2 + E \<and> total settled (es @ es') = named E"
    by blast
  moreover have "subseq (jobs pid (es @ es') @ vw_queues v2 pid) (vw_queues v pid @ pushed pid (F @ F'))"
    for pid
    using move_queues_trans [OF move_queues [OF m1] move_queues [OF m2]] by simp
  moreover have "map snd (vw_waiters v) = idles (es @ es') @ map snd (vw_waiters v2)"
    and "set (vw_waiters v2) \<subseteq> set (vw_waiters v)"
    using move_waiters [OF m1] move_waiters [OF m2] by auto
  ultimately show ?thesis
    using move_idle_trans [OF m1 m2] unfolding move_def by blast
qed

lemmas move_then = move_trans [where F' = "[]", simplified]

text \<open>Effects that run no waiter and do not touch the alarm, and those that also give no event.\<close>

fun quiet_effect :: "('j, 'x) schedule_effect \<Rightarrow> bool" where
  "quiet_effect (RunIdle _) = False"
| "quiet_effect (Alarm _) = False"
| "quiet_effect _ = True"

abbreviation quiet :: "('j, 'x) schedule_effect list \<Rightarrow> bool" where
  "quiet \<equiv> list_all quiet_effect"

lemma quiet_idles: "quiet es \<Longrightarrow> idles es = []"
proof (induction es)
  case (Cons e es)
  then show ?case by (cases e) simp_all
qed simp

lemma quiet_alarm: "quiet es \<Longrightarrow> Alarm c \<notin> set es"
  by (auto simp: list_all_iff)

lemma quiet_no_idle: "quiet es \<Longrightarrow> es \<noteq> pre @ RunIdle w # post"
  by auto

lemma drop_all_simps [simp]:
  "quiet (drop_all pid why qs)"
  "jobs pid' (drop_all pid why qs) = []"
  "total settled (drop_all pid why qs) = named (tag pid (mset (map queue_event qs)))"
  by (induction qs) (simp_all add: drop_all_def queue_event_def)

lemma waiting_put [simp]:
  "waiting (put_app pid a s) = (waiting s)(pid := map qu_meta (app_queue a))"
  by (auto simp: waiting_def fun_eq_iff)

lemma move_quiet:
  assumes "vw_events v + mset F = vw_events v' + E" and "total settled es = named E"
    and "quiet es" and "vw_waiters v' = vw_waiters v"
    and "\<And>p. subseq (jobs p es @ vw_queues v' p) (vw_queues v p @ pushed p F)"
  shows "move v F es v'"
proof -
  have "\<exists>E. vw_events v + mset F = vw_events v' + E \<and> total settled es = named E"
    using assms(1,2) by blast
  with assms quiet_idles [OF assms(3)] quiet_no_idle [OF assms(3)]
  show ?thesis unfolding move_def by simp
qed

text \<open>A change of one application, with the effects that tell of it.\<close>

lemma move_put:
  assumes "held_events s pid + D = app_events a + D' + E"
    and "total settled es = named (tag pid E)" and "quiet es"
    and "subseq (jobs pid es @ map qu_meta (app_queue a)) (waiting s pid)"
    and "\<And>p. p \<noteq> pid \<Longrightarrow> jobs p es = []"
  shows "move (view (tag pid D) s) [] es (view (tag pid D') (put_app pid a s))"
proof (rule move_quiet)
  have "tag pid (held_events s pid) + tag pid D = tag pid (app_events a) + tag pid D' + tag pid E"
    using arg_cong [OF assms(1), of "tag pid"] by simp
  moreover have "events (put_app pid a s) + tag pid (held_events s pid) =
      events s + tag pid (app_events a)"
    by (rule events_put)
  ultimately have "(events s + tag pid D) + tag pid (app_events a) =
      (events (put_app pid a s) + tag pid D' + tag pid E) + tag pid (app_events a)"
    by (metis (no_types, lifting) add.assoc add.commute)
  then show "vw_events (view (tag pid D) s) + mset [] =
      vw_events (view (tag pid D') (put_app pid a s)) + tag pid E"
    by (simp add: view_def)
  show "subseq (jobs p es @ vw_queues (view (tag pid D') (put_app pid a s)) p)
      (vw_queues (view (tag pid D) s) p @ pushed p [])" for p
    using assms(4,5) by (cases "p = pid") (simp_all add: view_def)
qed (use assms(2,3) in \<open>simp_all add: view_def\<close>)

lemma move_remove:
  assumes "held_events s pid = {#}"
  shows "move (view D s) [] [Forget pid] (view D (s\<lparr>sch_apps := bt_remove pid (sch_apps s)\<rparr>))"
  using events_remove [where s = s and pid = pid] assms
  by (intro move_quiet [where E = "{#}"])
    (auto simp: view_def waiting_def subseq_order.order_refl split: option.split)

section \<open>The invariant\<close>

lemma running_None [simp]: "running f = None \<longleftrightarrow> fl_running f = None"
  by (simp add: running_def)

definition item_places :: "running_read in_flight \<Rightarrow> u64 list" where
  "item_places f = (case running f of None \<Rightarrow> [] | Some (_, item, _) \<Rightarrow> [rn_place item])"

definition app_places :: "'j app \<Rightarrow> u64 list" where
  "app_places a = item_places (app_flight a) @ map qu_place (app_queue a)"

text \<open>
  An application's invariant, with \<open>st\<close> whether the listener is stopping and \<open>n\<close> the count of
  events queued: a read is under way only by a thread in charge; the threads in charge and
  abandoned are at most the limit, and the time of reaching it is kept while it is reached; an
  event waits only for a thread in charge or at the limit; an application with nothing left is
  not held; and its events are in the order they were queued in.
\<close>

definition app_ok :: "bool \<Rightarrow> u64 \<Rightarrow> 'j app \<Rightarrow> bool" where
  "app_ok st n a \<longleftrightarrow>
     flight_inv (app_flight a)
     \<and> (fl_running (app_flight a) \<noteq> None \<longrightarrow> app_threaded a)
     \<and> app_abandoned a \<le> ABANDONED_LIMIT
     \<and> (app_threaded a \<longrightarrow> app_abandoned a < ABANDONED_LIMIT)
     \<and> (app_limit_reached a \<noteq> None) = (ABANDONED_LIMIT \<le> app_abandoned a)
     \<and> (st \<or> app_queue a = [] \<or> app_threaded a \<or> app_limit_reached a \<noteq> None)
     \<and> \<not> spent a
     \<and> sorted (app_places a) \<and> (\<forall>p \<in> set (app_places a). p \<le> n)"

definition sched_inv :: "'j schedule \<Rightarrow> bool" where
  "sched_inv s \<longleftrightarrow>
     (\<forall>pid a. the_app s pid = Some a \<longrightarrow> app_ok (sch_stopping s) (sch_queued s) a)
     \<and> sorted (map fst (sch_idle_waiters s))
     \<and> (\<forall>b \<in> set (map fst (sch_idle_waiters s)). b \<le> sch_queued s)"

lemma sched_inv_app:
  "sched_inv s \<Longrightarrow> the_app s pid = Some a \<Longrightarrow> app_ok (sch_stopping s) (sch_queued s) a"
  by (simp add: sched_inv_def)

lemma sched_inv_put:
  "sched_inv s \<Longrightarrow> app_ok (sch_stopping s) (sch_queued s) a \<Longrightarrow> sched_inv (put_app pid a s)"
  by (auto simp: sched_inv_def)

lemma sched_inv_remove:
  "sched_inv s \<Longrightarrow> sched_inv (s\<lparr>sch_apps := bt_remove pid (sch_apps s)\<rparr>)"
  by (auto simp: sched_inv_def split: if_splits)

section \<open>The idle waiters\<close>

text \<open>Every waiter still waits for an event queued no later than it.\<close>

definition prompt :: "snapshot \<Rightarrow> bool" where
  "prompt v \<longleftrightarrow>
     (\<forall>b \<in> set (map fst (vw_waiters v)). \<exists>e \<in> set_mset (vw_events v). place_of e \<le> b)"

lemma oldest_place_mem:
  "oldest_place a = Some pl \<Longrightarrow> \<exists>m. (pl, m) \<in># app_events a"
  by (auto simp: oldest_place_def app_events_def flight_events_def read_event_def queue_event_def
      split: option.splits bool.splits list.splits)

lemma oldest_place_least:
  assumes ok: "app_ok st n a" and mem: "(pl, m) \<in># app_events a"
  shows "\<exists>old. oldest_place a = Some old \<and> old \<le> pl"
proof -
  from ok have places: "sorted (app_places a)" by (simp add: app_ok_def)
  show ?thesis
  proof (cases "\<exists>req item. running (app_flight a) = Some (req, item, False)")
    case True
    with places mem show ?thesis
      by (auto simp: oldest_place_def app_events_def app_places_def item_places_def
          flight_events_def read_event_def queue_event_def)
  next
    case False
    then have "owed_view (running (app_flight a)) = {#}"
      by (auto simp: owed_view_def split: option.split bool.split)
    with False places mem show ?thesis
      by (cases "app_queue a")
        (auto simp: oldest_place_def app_events_def app_places_def sorted_append flight_events_def
          queue_event_def split: option.split bool.split)
  qed
qed

lemma iter_min_None [simp]: "iter_min xs = None \<longleftrightarrow> xs = []"
  by (simp add: iter_min_def)

lemma iter_min_Some: "iter_min xs = Some m \<longleftrightarrow> m \<in> set xs \<and> (\<forall>x \<in> set xs. m \<le> x)"
  by (auto simp: iter_min_def min_list_Min intro: Min_eqI Min_eqI [symmetric])

lemma mem_oldest:
  "x \<in> set (List.map_filter oldest_place (bt_values (sch_apps s))) \<longleftrightarrow>
     (\<exists>pid a. the_app s pid = Some a \<and> oldest_place a = Some x)"
  by (force simp: map_filter_def bt_values_def image_iff bt_mem_entries [symmetric])

definition oldest :: "'j schedule \<Rightarrow> u64 option" where
  "oldest s = iter_min (List.map_filter oldest_place (bt_values (sch_apps s)))"

text \<open>The oldest place looked at is that of the oldest event owed.\<close>

lemma oldest_owed:
  assumes "sched_inv s"
  shows "case oldest s of
      None \<Rightarrow> events s = {#}
    | Some old \<Rightarrow> (\<exists>e \<in> set_mset (events s). place_of e = old) \<and> (\<forall>e \<in> set_mset (events s). old \<le> place_of e)"
proof -
  have below: "\<exists>old \<in> set (List.map_filter oldest_place (bt_values (sch_apps s))). old \<le> place_of e"
    if e: "e \<in># events s" for e
  proof -
    obtain pid pl m where "e = (pid, pl, m)" by (cases e)
    with e obtain a where "the_app s pid = Some a" and "(pl, m) \<in># app_events a"
      by (auto simp: mem_events)
    with oldest_place_least [OF sched_inv_app [OF assms]] \<open>e = (pid, pl, m)\<close> show ?thesis
      by (fastforce simp: mem_oldest place_of_def)
  qed
  show ?thesis
  proof (cases "oldest s")
    case None
    then have "\<not> (\<exists>e. e \<in># events s)" using below by (fastforce simp: oldest_def)
    with None show ?thesis by (auto simp: multiset_eq_iff not_in_iff)
  next
    case (Some old)
    then have "old \<in> set (List.map_filter oldest_place (bt_values (sch_apps s)))"
      and least: "\<forall>x \<in> set (List.map_filter oldest_place (bt_values (sch_apps s))). old \<le> x"
      by (auto simp: oldest_def iter_min_Some)
    then obtain pid a where "the_app s pid = Some a" and "oldest_place a = Some old"
      by (auto simp: mem_oldest)
    with oldest_place_mem [of a old] obtain m where "(pid, old, m) \<in># events s"
      by (auto simp: mem_events)
    then have "\<exists>e \<in> set_mset (events s). place_of e = old"
      by (force simp: place_of_def)
    moreover have "old \<le> place_of e" if "e \<in># events s" for e
      using below [OF that] least by (meson order_trans)
    ultimately show ?thesis using Some by simp
  qed
qed

definition ready :: "u64 option \<Rightarrow> u64 \<Rightarrow> bool" where
  "ready old b = (case old of None \<Rightarrow> True | Some old \<Rightarrow> b < old)"

lemma run_idle_split:
  assumes "run_idle old ws = (ws', es)"
  shows "\<exists>ran. ws = ran @ ws' \<and> es = map (\<lambda>(_, w). RunIdle w) ran
      \<and> (\<forall>(b, _) \<in> set ran. ready old b) \<and> (ws' \<noteq> [] \<longrightarrow> \<not> ready old (fst (hd ws')))"
  using assms
proof (induction old ws arbitrary: ws' es rule: run_idle.induct)
  case (1 old)
  then show ?case by simp
next
  case (2 old b w ws)
  show ?case
  proof (cases "ready old b")
    case False
    with 2 show ?thesis by (auto simp: ready_def split: option.splits)
  next
    case True
    with 2(2) obtain es1 where rest: "run_idle old ws = (ws', es1)" and es: "es = RunIdle w # es1"
      by (auto simp: ready_def apsnd_def map_prod_def split: prod.splits)
    from 2(1) [OF _ rest] True obtain ran where "ws = ran @ ws'" and "es1 = map (\<lambda>(_, w). RunIdle w) ran"
      and "\<forall>(b, _) \<in> set ran. ready old b" and "ws' \<noteq> [] \<longrightarrow> \<not> ready old (fst (hd ws'))"
      by (auto simp: ready_def)
    with True es show ?thesis by (auto intro!: exI [of _ "(b, w) # ran"])
  qed
qed

lemma ready_low: "sched_inv s \<Longrightarrow> ready (oldest s) b \<Longrightarrow> low b (events s) = {#}"
  using oldest_owed [of s]
  by (fastforce simp: ready_def low_def filter_mset_eq_conv not_le split: option.splits)

text \<open>Waking runs exactly the waiters every earlier event of which has its outcome.\<close>

lemma wake_law:
  assumes inv: "sched_inv s" and wake: "wake_idle_waiters s = (s', es)"
  shows "sched_inv s'" and "move (view {#} s) [] es (view {#} s')" and "prompt (view {#} s')"
    and "\<exists>ws. s' = s\<lparr>sch_idle_waiters := ws\<rparr>" and "Alarm c \<notin> set es"
proof -
  obtain ws where run: "run_idle (oldest s) (sch_idle_waiters s) = (ws, es)"
    and s': "s' = s\<lparr>sch_idle_waiters := ws\<rparr>"
    using wake by (auto simp: wake_idle_waiters_def oldest_def Let_def split: if_splits prod.splits)
  from run_idle_split [OF run] obtain ran where ws: "sch_idle_waiters s = ran @ ws"
    and es: "es = map (\<lambda>(_, w). RunIdle w) ran"
    and ran: "\<forall>(b, _) \<in> set ran. ready (oldest s) b"
    and left: "ws \<noteq> [] \<longrightarrow> \<not> ready (oldest s) (fst (hd ws))"
    by blast
  show "\<exists>ws. s' = s\<lparr>sch_idle_waiters := ws\<rparr>" using s' by blast
  show "Alarm c \<notin> set es" unfolding es by auto
  show inv': "sched_inv s'"
    using inv ws s' by (auto simp: sched_inv_def sorted_append)
  have same: "events s' = events s" and "waiting s' = waiting s"
    using s' by (auto simp: events_def waiting_def)
  have quiet_sums: "idles es = map snd ran" "total settled es = {#}" "jobs p es = []" for p
    unfolding es by (induction ran) auto
  have "\<exists>b. (b, w) \<in> set (sch_idle_waiters s) \<and> named (low b (events s)) \<subseteq># total settled pre"
    if "es = pre @ RunIdle w # post" for pre w post
  proof -
    from that have "RunIdle w \<in> set es" by simp
    then obtain b where "(b, w) \<in> set ran" unfolding es by auto
    with ran ws ready_low [OF inv] show ?thesis by fastforce
  qed
  then show "move (view {#} s) [] es (view {#} s')"
    using quiet_sums ws s' same \<open>waiting s' = waiting s\<close>
    by (auto simp: move_def view_def intro!: exI [of _ "{#}"])
  show "prompt (view {#} s')"
  proof (cases ws)
    case Nil
    with s' show ?thesis by (simp add: prompt_def view_def)
  next
    case (Cons x ws')
    have "fst x \<le> b" if "b \<in> set (map fst ws)" for b
      using inv' s' Cons that by (auto simp: sched_inv_def)
    moreover obtain e where "e \<in># events s" and "place_of e \<le> fst x"
      using left Cons oldest_owed [OF inv]
      by (auto simp: ready_def not_less split: option.splits)
    ultimately show ?thesis
      using s' same by (auto simp: prompt_def view_def intro: order_trans)
  qed
qed

text \<open>An event added, or the same events owed, leaves each waiter waiting for one.\<close>

lemma prompt_mono:
  "prompt v \<Longrightarrow> vw_events v \<subseteq># vw_events v' \<Longrightarrow> vw_waiters v' = vw_waiters v \<Longrightarrow> prompt v'"
  by (fastforce simp: prompt_def dest: mset_subset_eqD)

section \<open>The law of an operation\<close>

text \<open>
  What an operation's result is to the snapshot it began with: the invariant holds, its effects
  are a move that leaves the alarm alone, and the waiters are woken in time.
\<close>

definition op_law ::
  "snapshot \<Rightarrow> event list \<Rightarrow> 'j schedule \<times> ('j, 'x) schedule_effect list \<Rightarrow> bool" where
  "op_law v F out \<longleftrightarrow>
     (case out of (s', es) \<Rightarrow>
        sched_inv s' \<and> move v F es (view {#} s') \<and> (prompt v \<longrightarrow> prompt (view {#} s'))
        \<and> (\<forall>c. Alarm c \<notin> set es))"

lemma op_law_refl: "sched_inv s \<Longrightarrow> op_law (view {#} s) [] (s, [])"
  by (simp add: op_law_def)

lemma op_law_inv: "op_law v F out \<Longrightarrow> sched_inv (fst out)"
  by (simp add: op_law_def split_beta)

lemma op_law_wake:
  assumes "sched_inv s1" and "move v F es (view {#} s1)" and "quiet es"
    and "wake_idle_waiters s1 = (s2, es2)"
  shows "op_law v F (s2, es @ es2)"
  using wake_law [OF assms(1,4)] move_then [OF assms(2)] quiet_alarm [OF assms(3)]
  by (simp add: op_law_def)

lemma op_law_trans:
  assumes "op_law v F (s1, es)" and "op_law (view {#} s1) F' (s2, es2)"
  shows "op_law v (F @ F') (s2, es @ es2)"
  using assms move_trans by (auto simp: op_law_def)

lemma op_law_after:
  assumes "op_law v F (s1, es)" and "op_law (view {#} s1) F' out"
  shows "op_law v (F @ F') (apsnd (append es) out)"
  using op_law_trans assms by (cases out) auto

lemma op_law_then:
  assumes "op_law v [] out" and "op_law (view {#} (fst out)) [] out'"
  shows "op_law v [] (apsnd (append (snd out)) out')"
  using op_law_after [of v "[]" "fst out" "snd out" "[]" out'] assms by simp

text \<open>A change of one application that loses none of its events.\<close>

lemma op_law_put:
  assumes "sched_inv s" and "app_ok (sch_stopping s) (sch_queued s) a"
    and "held_events s pid + D = app_events a"
    and "total settled es = {#}" and "quiet es"
    and "subseq (jobs pid es @ map qu_meta (app_queue a)) (waiting s pid)"
    and "\<And>p. p \<noteq> pid \<Longrightarrow> jobs p es = []"
  shows "op_law (view (tag pid D) s) [] (put_app pid a s, es)"
proof -
  have m: "move (view (tag pid D) s) [] es (view {#} (put_app pid a s))"
    using move_put [of s pid D a "{#}" "{#}" es] assms(3-7) by simp
  moreover have "prompt (view {#} (put_app pid a s))" if "prompt (view (tag pid D) s)"
  proof (rule prompt_mono [OF that])
    from move_events [OF m] obtain E where "events s + tag pid D = events (put_app pid a s) + E"
      and "named E = {#}"
      using assms(4) by (auto simp: view_def)
    then show "vw_events (view (tag pid D) s) \<subseteq># vw_events (view {#} (put_app pid a s))"
      by (simp add: view_def named_def)
  qed (simp add: view_def)
  ultimately show ?thesis
    using assms(1,2) quiet_alarm [OF assms(5)] by (simp add: op_law_def sched_inv_put)
qed

section \<open>Threads\<close>

definition started :: "'j app \<Rightarrow> 'j app" where
  "started a = a\<lparr>app_flight := fst (succeed (app_flight a)), app_threaded := True\<rparr>"

lemma sched_start_put:
  "sched_start pid reuse (put_app pid a s) =
     (put_app pid (started a) s, [Spawn pid (snd (succeed (app_flight a))) reuse])"
  by (simp add: sched_start_def started_def split_beta)

lemma succeed_simps [simp]:
  "running (fst (succeed f)) = running f"
  by (simp add: running_def succeed_def Let_def)

lemma started_simps [simp]:
  "app_queue (started a) = app_queue a" "app_events (started a) = app_events a"
  "app_places (started a) = app_places a" "app_threaded (started a)"
  "app_abandoned (started a) = app_abandoned a"
  "app_limit_reached (started a) = app_limit_reached a" "\<not> spent (started a)"
  by (simp_all add: started_def app_events_def flight_events_def app_places_def item_places_def
      spent_def)

lemma app_ok_started:
  assumes "fl_running (app_flight a) = None" and "app_abandoned a < ABANDONED_LIMIT"
    and "app_limit_reached a = None" and "sorted (app_places a)" and "\<forall>p \<in> set (app_places a). p \<le> n"
  shows "app_ok st n (started a)"
  using assms
  by (auto simp: app_ok_def) (simp add: started_def flight_inv_def running_def succeed_def Let_def)

lemma below_limit: "(x :: usize) < ABANDONED_LIMIT \<Longrightarrow> x = 0 \<or> x = 1"
  unfolding ABANDONED_LIMIT_def by unat_arith

definition abandoning :: "u64 \<Rightarrow> 'j app \<Rightarrow> 'j app" where
  "abandoning now a =
     a\<lparr>app_threaded := False, app_abandoned := sat_add (app_abandoned a) 1,
       app_limit_reached :=
         (if ABANDONED_LIMIT \<le> sat_add (app_abandoned a) 1 \<and> app_limit_reached a = None
          then Some now else app_limit_reached a)\<rparr>"

lemma abandoning_simps [simp]:
  "app_queue (abandoning now a) = app_queue a" "app_flight (abandoning now a) = app_flight a"
  "app_events (abandoning now a) = app_events a" "app_places (abandoning now a) = app_places a"
  "app_abandoned (abandoning now a) = sat_add (app_abandoned a) 1"
  by (simp_all add: abandoning_def app_events_def app_places_def)

text \<open>After an abandonment a new thread takes the events waiting, below the limit.\<close>

definition succeeded :: "u64 \<Rightarrow> 'j app \<Rightarrow> 'j app" where
  "succeeded now a =
     (if app_queue a \<noteq> [] \<and> \<not> ABANDONED_LIMIT \<le> sat_add (app_abandoned a) 1
      then started (abandoning now a) else abandoning now a)"

lemma app_ok_succeeded:
  assumes ok: "app_ok st n a" and "app_threaded a" and idle: "fl_running (app_flight a) = None"
  shows "app_ok st n (succeeded now a)"
proof -
  have "app_abandoned a = 0 \<or> app_abandoned a = 1"
    using ok assms(2) below_limit by (auto simp: app_ok_def)
  then show ?thesis
  proof
    assume "app_abandoned a = 1"
    with ok idle show ?thesis
      by (auto simp: app_ok_def succeeded_def abandoning_def sat_add_def ABANDONED_LIMIT_def spent_def
          app_places_def)
  next
    assume zero: "app_abandoned a = 0"
    with ok have "app_limit_reached a = None"
      by (auto simp: app_ok_def ABANDONED_LIMIT_def)
    with ok idle zero show ?thesis
      by (cases "app_queue a = []")
        (auto simp: succeeded_def abandoning_def sat_add_def ABANDONED_LIMIT_def
          intro!: app_ok_started, auto simp: app_ok_def spent_def app_places_def ABANDONED_LIMIT_def)
  qed
qed

section \<open>Decisions of the work in flight\<close>

lemma op_law_quiet:
  assumes "sched_inv s" and "quiet es" and "total settled es = {#}" and "\<And>p. jobs p es = []"
  shows "op_law (view {#} s) [] (s, es)"
  using assms quiet_alarm [OF assms(2)]
  by (auto simp: op_law_def intro!: move_quiet [where E = "{#}"])

definition dropped_events :: "running_read decision \<Rightarrow> (u64 \<times> meta) multiset" where
  "dropped_events d = image_mset read_event (dropped_by d)"

lemma dropped_events_simps [simp]:
  "dropped_events Nothing = {#}" "dropped_events (Ask q) = {#}"
  by (simp_all add: dropped_events_def)

definition abandon_outcome ::
  "pid \<Rightarrow> running_read abandoned \<Rightarrow> ('j, 'x) schedule_effect list" where
  "abandon_outcome pid ab =
     (if ab_published ab then []
      else [Outcome pid (rn_meta (ab_item ab)) (Dropped (why_dropped (ab_reason ab)))])"

lemma abandon_outcome_simps [simp]:
  "quiet (abandon_outcome pid ab)" "jobs p (abandon_outcome pid ab) = []"
  "total settled (abandon_outcome pid ab) = named (tag pid (dropped_events (Abandon ab)))"
  by (simp_all add: abandon_outcome_def dropped_events_def read_event_def)

lemma sched_abandon_alt:
  assumes "the_app s pid = Some a"
  shows "sched_abandon now pid ab s =
    (let s1 = put_app pid (abandoning now a) s;
         (s2, spawned) =
           (if app_queue a \<noteq> [] \<and> \<not> ABANDONED_LIMIT \<le> sat_add (app_abandoned a) 1
            then sched_start pid False s1 else (s1, []));
         (s3, woken) = wake_idle_waiters s2
     in (s3, Unwatch pid # abandon_outcome pid ab @ spawned @ woken))"
  using assms by (simp add: sched_abandon_def abandoning_def abandon_outcome_def Let_def)

definition abandon_effects ::
  "u64 \<Rightarrow> pid \<Rightarrow> running_read abandoned \<Rightarrow> 'j app \<Rightarrow> ('j, 'x) schedule_effect list" where
  "abandon_effects now pid ab a =
     Unwatch pid # abandon_outcome pid ab
     @ (if app_queue a \<noteq> [] \<and> \<not> ABANDONED_LIMIT \<le> sat_add (app_abandoned a) 1
        then [Spawn pid (snd (succeed (app_flight (abandoning now a)))) False] else [])"

lemma abandon_effects_simps:
  "quiet (abandon_effects now pid ab a)" "jobs p (abandon_effects now pid ab a) = []"
  "total settled (abandon_effects now pid ab a) = named (tag pid (dropped_events (Abandon ab)))"
  by (simp_all add: abandon_effects_def)

lemma sched_abandon_unfold:
  assumes "the_app s pid = Some a"
  shows "sched_abandon now pid ab s =
    (let (s', woken) = wake_idle_waiters (put_app pid (succeeded now a) s)
     in (s', abandon_effects now pid ab a @ woken))"
  by (cases "app_queue a \<noteq> [] \<and> \<not> ABANDONED_LIMIT \<le> sat_add (app_abandoned a) 1")
    (auto simp: sched_abandon_alt [OF assms] succeeded_def abandon_effects_def Let_def
      sched_start_put split_beta)

lemma held_Some [simp]: "the_app s pid = Some a \<Longrightarrow> held_events s pid = app_events a"
  and waiting_Some [simp]: "the_app s pid = Some a \<Longrightarrow> waiting s pid = map qu_meta (app_queue a)"
  by (simp_all add: held_events_def waiting_def)

lemma succeeded_simps [simp]:
  "app_queue (succeeded now a) = app_queue a" "app_events (succeeded now a) = app_events a"
  by (simp_all add: succeeded_def)

lemma op_law_woken:
  assumes "sched_inv s1" and "move v F es (view {#} s1)" and "quiet es"
  shows "op_law v F (let (s', woken) = wake_idle_waiters s1 in (s', es @ woken))"
  using op_law_wake [OF assms] by (simp split: prod.split)

lemma abandon_law:
  assumes "sched_inv s" and "the_app s pid = Some a" and "app_threaded a"
    and "fl_running (app_flight a) = None"
  shows "op_law (view (tag pid (dropped_events (Abandon ab))) s) [] (sched_abandon now pid ab s)"
proof -
  let ?s1 = "put_app pid (succeeded now a) s"
  have "move (view (tag pid (dropped_events (Abandon ab))) s) [] (abandon_effects now pid ab a)
      (view (tag pid {#}) ?s1)"
    by (rule move_put [where E = "dropped_events (Abandon ab)"])
      (use assms(2) in \<open>simp_all add: abandon_effects_simps\<close>)
  moreover have "sched_inv ?s1"
    using assms by (intro sched_inv_put app_ok_succeeded) (auto intro: sched_inv_app)
  ultimately show ?thesis
    unfolding sched_abandon_unfold [OF assms(2)] by (intro op_law_woken) (simp_all add: abandon_effects_simps)
qed

lemma sched_decided_law:
  assumes "sched_inv s" and "the_app s pid = Some a"
    and "\<And>ab. d = Abandon ab \<Longrightarrow> app_threaded a \<and> fl_running (app_flight a) = None"
  shows "op_law (view (tag pid (dropped_events d)) s) [] (sched_decided now pid d s)"
  using assms
  by (cases "(now, pid, d, s)" rule: sched_decided.cases)
    (simp_all add: op_law_quiet abandon_law)

lemma sched_decided_none:
  assumes "sched_inv s" and "the_app s pid = Some a" and "dropped_events d = {#}"
    and "\<And>ab. d = Abandon ab \<Longrightarrow> app_threaded a \<and> fl_running (app_flight a) = None"
  shows "op_law (view {#} s) [] (sched_decided now pid d s)"
  using sched_decided_law [of s pid a d] assms by simp

text \<open>
  An application's work in flight that decides by its law, and the scheduler that does what it
  decided, lose no event between them.
\<close>

lemma decides_well_views:
  assumes "decides_well f (f', d)" and "flight_inv f"
  shows "item_places f' = item_places f \<or> item_places f' = []"
    and "fl_running f' \<noteq> None \<Longrightarrow> fl_running f \<noteq> None"
    and "d = Abandon ab \<Longrightarrow> fl_running f' = None \<and> fl_running f \<noteq> None"
  using assms
  by (auto simp: decides_well_def item_places_def running_def split: option.splits)

lemma app_ok_flight:
  assumes ok: "app_ok st n a" and dw: "decides_well (app_flight a) (f', d)"
  shows "app_ok st n (a\<lparr>app_flight := f'\<rparr>)"
proof -
  have inv: "flight_inv (app_flight a)" using ok by (simp add: app_ok_def)
  have "app_places (a\<lparr>app_flight := f'\<rparr>) = app_places a
      \<or> app_places (a\<lparr>app_flight := f'\<rparr>) = map qu_place (app_queue a)"
    using decides_well_views(1) [OF dw inv] by (auto simp: app_places_def)
  then have "sorted (app_places (a\<lparr>app_flight := f'\<rparr>))
      \<and> (\<forall>p \<in> set (app_places (a\<lparr>app_flight := f'\<rparr>)). p \<le> n)"
    using ok by (elim disjE) (simp_all add: app_ok_def app_places_def sorted_append)
  with ok decides_well_inv [OF inv dw] decides_well_views(2) [OF dw inv] show ?thesis
    by (auto simp: app_ok_def spent_def)
qed

lemma flight_law:
  assumes inv: "sched_inv s" and app: "the_app s pid = Some a"
    and dw: "decides_well (app_flight a) (f', d)"
    and owed: "owed_view (running f') + dropped_by d = owed_view (running (app_flight a))"
  shows "op_law (view {#} s) [] (sched_decided now pid d (put_app pid (a\<lparr>app_flight := f'\<rparr>) s))"
proof -
  let ?a = "a\<lparr>app_flight := f'\<rparr>"
  let ?s1 = "put_app pid ?a s"
  let ?D = "dropped_events d"
  have ok: "app_ok (sch_stopping s) (sch_queued s) a" using inv app by (rule sched_inv_app)
  have "app_events a = app_events ?a + ?D"
    by (simp add: app_events_def flight_events_def dropped_events_def flip: owed)
  then have "(events ?s1 + tag pid ?D) + tag pid (app_events ?a) = events s + tag pid (app_events ?a)"
    using events_put [of pid ?a s] app by (simp add: union_assoc union_commute)
  then have "events s = events ?s1 + tag pid ?D" by simp
  moreover have "waiting ?s1 = waiting s" using app by (auto simp: waiting_def fun_eq_iff)
  ultimately have "view {#} s = view (tag pid ?D) ?s1"
    by (simp add: view_def)
  moreover have "app_threaded ?a \<and> fl_running (app_flight ?a) = None" if "d = Abandon ab" for ab
    using decides_well_views(3) [OF dw _ that] ok by (auto simp: app_ok_def)
  ultimately show ?thesis
    using sched_decided_law [of ?s1 pid ?a d now] sched_inv_put [OF inv app_ok_flight [OF ok dw]]
    by simp
qed

section \<open>The law of each operation\<close>

lemma let_go_put: "let_go pid (put_app pid a s) = let_go pid s"
  by (simp add: let_go_def put_app_def)

lemma let_go_law:
  assumes "sched_inv s" and "held_events s pid = {#}"
  shows "op_law (view {#} s) [] (let_go pid s)"
proof -
  let ?s = "s\<lparr>sch_apps := bt_remove pid (sch_apps s)\<rparr>"
  have "events ?s = events s" using events_remove [of pid s] assms(2) by simp
  then have "prompt (view {#} s) \<Longrightarrow> prompt (view {#} ?s)"
    using prompt_mono [of "view {#} s" "view {#} ?s"] by simp
  with assms show ?thesis
    by (simp add: op_law_def let_go_def move_remove sched_inv_remove)
qed

lemma idle_events [simp]: "fl_running f = None \<Longrightarrow> flight_events f = {#}"
  "fl_running f = None \<Longrightarrow> item_places f = []"
  by (simp_all add: flight_events_def item_places_def running_def)

lemma app_ok_idle: "app_ok st n a \<Longrightarrow> \<not> app_threaded a \<Longrightarrow> fl_running (app_flight a) = None"
  by (auto simp: app_ok_def)

text \<open>An application left with nothing is let go, any other is put back.\<close>

lemma put_or_let_go_law:
  assumes inv: "sched_inv s" and app: "the_app s pid = Some a" and "app_events a' = app_events a"
    and "app_queue a' = app_queue a" and "spent a' \<Longrightarrow> app_events a' = {#}"
    and "\<not> spent a' \<Longrightarrow> app_ok (sch_stopping s) (sch_queued s) a'"
    and "quiet es" and "total settled es = {#}" and "\<And>p. jobs p es = []"
  shows "op_law (view {#} s) [] (if spent a' then let_go pid (put_app pid a' s) else (put_app pid a' s, es))"
proof (cases "spent a'")
  case True
  then show ?thesis
    using inv app assms(3,5) by (simp add: let_go_put let_go_law)
next
  case False
  then show ?thesis
    using op_law_put [OF inv, of a' pid "{#}" es] assms by simp
qed

lemma fl_start_views:
  assumes "fl_start item dl w now f = (f', req)" and "flight_inv f" and "fl_running f = None"
  shows "flight_inv f'" and "flight_events f' = {#read_event item#}" and "item_places f' = [rn_place item]"
proof -
  show "flight_inv f'"
    using flight_step_inv [of f "StartCall item dl w now"] assms by simp
  have "running f' = Some (req, item, False)" using fl.start_law [OF assms(1)] by simp
  then show "flight_events f' = {#read_event item#}" and "item_places f' = [rn_place item]"
    by (simp_all add: flight_events_def item_places_def)
qed

lemma next_law:
  assumes inv: "sched_inv s"
    and free: "\<And>a. the_app s pid = Some a \<Longrightarrow> app_in_charge a g \<Longrightarrow> fl_running (app_flight a) = None"
  shows "op_law (view {#} s) [] (sched_next now pid g s)"
proof (cases "\<exists>a. \<not> sch_stopping s \<and> the_app s pid = Some a \<and> app_in_charge a g")
  case False
  then show ?thesis
    using inv by (auto simp: sched_next_def op_law_refl split: option.split)
next
  case True
  then obtain a where st: "\<not> sch_stopping s" and app: "the_app s pid = Some a" and charge: "app_in_charge a g"
    by blast
  have ok: "app_ok (sch_stopping s) (sch_queued s) a" using inv app by (rule sched_inv_app)
  have idle: "fl_running (app_flight a) = None" using free app charge by simp
  show ?thesis
  proof (cases "app_queue a")
    case (Cons q qs)
    let ?item = "\<lparr>rn_meta = qu_meta q, rn_kind = qu_kind q, rn_place = qu_place q\<rparr>"
    obtain f' req where start:
      "fl_start ?item (sch_deadline s) (qu_window q) now (app_flight a) = (f', req)" by fastforce
    note views = fl_start_views [OF start _ idle]
    let ?a = "a\<lparr>app_queue := qs, app_flight := f'\<rparr>"
    have "app_ok (sch_stopping s) (sch_queued s) ?a"
      using ok views charge idle Cons
      by (auto simp: app_ok_def app_places_def app_in_charge_def spent_def)
    moreover have "app_events a = app_events ?a"
      using views(2) ok idle Cons by (simp add: app_events_def app_ok_def read_event_def queue_event_def)
    ultimately show ?thesis
      using app st charge Cons start
      by (simp add: sched_next_def op_law_put [OF inv, of ?a pid "{#}", simplified])
  next
    case Nil
    let ?a = "a\<lparr>app_threaded := False\<rparr>"
    have "op_law (view {#} s) [] (if spent ?a then let_go pid (put_app pid ?a s) else (put_app pid ?a s, []))"
      by (rule put_or_let_go_law [OF inv app])
        (use ok idle Nil in \<open>auto simp: app_events_def app_ok_def app_places_def spent_def\<close>)
    then show ?thesis
      using app st charge Nil inv by (auto simp: sched_next_def Let_def op_law_refl)
  qed
qed

lemma outpost_ended_law:
  assumes inv: "sched_inv s"
  shows "op_law (view {#} s) [] (outpost_ended pid s)"
proof (cases "the_app s pid")
  case None
  then show ?thesis using inv by (simp add: outpost_ended_def op_law_refl)
next
  case (Some a)
  let ?a = "a\<lparr>app_ending := True\<rparr>"
  have "op_law (view {#} s) []
      (if spent ?a then let_go pid (put_app pid ?a s) else (put_app pid ?a s, [Wake (WakeThread pid)]))"
    by (rule put_or_let_go_law [OF inv Some])
      (use sched_inv_app [OF inv Some] in
        \<open>auto simp: app_events_def app_places_def spent_def app_ok_def\<close>)
  then show ?thesis using Some by (simp add: outpost_ended_def Let_def)
qed

text \<open>Every waiting event of an application dropped, its queue emptied.\<close>

lemma move_drop_all:
  assumes "the_app s pid = Some a" and "app_queue a' = []" and "app_flight a' = app_flight a"
  shows "move (view {#} s) [] (drop_all pid why (app_queue a)) (view {#} (put_app pid a' s))"
  using move_put [of s pid "{#}" a' "{#}" "mset (map queue_event (app_queue a))"
      "drop_all pid why (app_queue a)"] assms
  by (simp add: app_events_def)

lemma drop_waiting_law:
  assumes inv: "sched_inv s"
    and late: "\<And>a. the_app s pid = Some a \<Longrightarrow> \<not> app_threaded a \<Longrightarrow> app_limit_reached a \<noteq> None"
  shows "op_law (view {#} s) [] (drop_waiting pid s)"
proof (cases "\<exists>a. the_app s pid = Some a \<and> \<not> app_threaded a \<and> app_queue a \<noteq> []")
  case False
  then show ?thesis
    using inv by (auto simp: drop_waiting_def op_law_refl split: option.split)
next
  case True
  then obtain a where app: "the_app s pid = Some a" and a: "\<not> app_threaded a" "app_queue a \<noteq> []"
    by blast
  let ?a = "a\<lparr>app_queue := []\<rparr>"
  have ok: "app_ok (sch_stopping s) (sch_queued s) a" using inv app by (rule sched_inv_app)
  then have "app_abandoned a \<noteq> 0"
    using late [OF app a(1)] by (auto simp: app_ok_def ABANDONED_LIMIT_def)
  with ok have "app_ok (sch_stopping s) (sch_queued s) ?a"
    using late [OF app a(1)] by (auto simp: app_ok_def app_places_def spent_def sorted_append)
  then have "op_law (view {#} s) []
      (let (s', woken) = wake_idle_waiters (put_app pid ?a s)
       in (s', drop_all pid WAITED_TOO_LONG (app_queue a) @ woken))"
    using app inv by (intro op_law_woken sched_inv_put move_drop_all) simp_all
  then show ?thesis using app a by (simp add: drop_waiting_def)
qed

lemma spawn_failed_law:
  assumes inv: "sched_inv s"
    and free: "\<And>a. the_app s pid = Some a \<Longrightarrow> app_in_charge a g \<Longrightarrow> fl_running (app_flight a) = None"
  shows "op_law (view {#} s) [] (spawn_failed pid g s)"
proof (cases "\<exists>a. the_app s pid = Some a \<and> app_in_charge a g")
  case False
  then show ?thesis
    using inv by (auto simp: spawn_failed_def op_law_refl split: option.split)
next
  case True
  then obtain a where app: "the_app s pid = Some a" and charge: "app_in_charge a g" by blast
  let ?a = "a\<lparr>app_threaded := False, app_queue := []\<rparr>"
  let ?drops = "drop_all pid NO_THREAD (app_queue a)"
  let ?s1 = "put_app pid ?a s"
  have ok: "app_ok (sch_stopping s) (sch_queued s) a" using inv app by (rule sched_inv_app)
  have idle: "fl_running (app_flight a) = None" using free app charge by simp
  have drops: "move (view {#} s) [] ?drops (view {#} ?s1)"
    by (rule move_drop_all) (use app in simp_all)
  show ?thesis
  proof (cases "spent ?a")
    case True
    let ?s2 = "s\<lparr>sch_apps := bt_remove pid (sch_apps s)\<rparr>"
    have "held_events ?s1 pid = {#}" using idle by (simp add: held_events_def app_events_def)
    from move_then [OF drops move_remove [OF this]]
    have "move (view {#} s) [] (?drops @ [Forget pid]) (view {#} ?s2)"
      by (simp add: put_app_def)
    from op_law_woken [OF _ this] drop_all_simps(1) show ?thesis
      using app charge True inv
      by (simp add: spawn_failed_def let_go_put let_go_def sched_inv_remove Let_def split_beta)
  next
    case False
    then have "app_ok (sch_stopping s) (sch_queued s) ?a"
      using ok idle by (auto simp: app_ok_def app_places_def)
    from op_law_woken [OF sched_inv_put [OF inv this] drops] drop_all_simps(1) show ?thesis
      using app charge False by (simp add: spawn_failed_def Let_def split_beta)
  qed
qed

text \<open>A change of every application that touches no event, no thread and no count.\<close>

lemma op_law_map:
  assumes inv: "sched_inv s"
    and same: "\<And>pid a. app_events (f pid a) = app_events a \<and> app_queue (f pid a) = app_queue a
      \<and> (\<forall>st n. app_ok st n (f pid a) = app_ok st n a)"
  shows "op_law (view {#} s) [] (s\<lparr>sch_apps := bt_map f (sch_apps s)\<rparr>, [])"
proof -
  let ?s = "s\<lparr>sch_apps := bt_map f (sch_apps s)\<rparr>"
  have "total (\<lambda>(pid, a). tag pid (app_events a)) (map (\<lambda>(k, v). (k, f k v)) es) =
      total (\<lambda>(pid, a). tag pid (app_events a)) es" for es
    using same by (induction es) auto
  then have "events ?s = events s" by (simp add: events_def)
  moreover have "waiting ?s = waiting s"
    using same by (auto simp: waiting_def fun_eq_iff split: option.split)
  ultimately have "view {#} ?s = view {#} s" by (simp add: view_def)
  moreover have "sched_inv ?s" using inv same by (auto simp: sched_inv_def)
  ultimately show ?thesis by (simp add: op_law_def)
qed

lemma left_at_law:
  "app_events (a\<lparr>app_left_at := p\<rparr>) = app_events a" "app_ok st n (a\<lparr>app_left_at := p\<rparr>) = app_ok st n a"
  by (simp_all add: app_events_def app_ok_def app_places_def spent_def)

lemma moved_away_law: "sched_inv s \<Longrightarrow> op_law (view {#} s) [] (moved_away_from_all_but pid s, [])"
  unfolding moved_away_from_all_but_def by (rule op_law_map) (simp_all add: left_at_law)

lemma sched_foreground_law: "sched_inv s \<Longrightarrow> op_law (view {#} s) [] (sched_foreground t rs s, [])"
  unfolding sched_foreground_def by (rule op_law_map) (simp_all add: left_at_law Let_def)

text \<open>A thread in charge that returns ends its read, if it is the one under way.\<close>

lemma returned_charge_law:
  assumes inv: "sched_inv s" and app: "the_app s pid = Some a"
    and charge: "app_in_charge a (req_generation request)"
    and same: "\<And>r. running_of (app_flight a) request = Some r \<Longrightarrow> rn_meta (ri_item r) = meta"
  shows "op_law (view {#} s) [] (sched_returned pid request meta what top_window s)"
proof -
  let ?top = "if is_read what \<and> top_window \<noteq> None then top_window else app_last_top a"
  have ok: "app_ok (sch_stopping s) (sch_queued s) a" using inv app by (rule sched_inv_app)
  show ?thesis
  proof (cases "running_of (app_flight a) request")
    case None
    let ?a = "a\<lparr>app_last_top := ?top\<rparr>"
    have "app_ok (sch_stopping s) (sch_queued s) ?a"
      using ok by (auto simp: app_ok_def app_places_def spent_def)
    moreover have "move (view {#} s) [] [] (view {#} (put_app pid ?a s))"
      using move_put [of s pid "{#}" ?a "{#}" "{#}" "[]"] app by (simp add: app_events_def)
    ultimately have "op_law (view {#} s) []
        (let (s', woken) = wake_idle_waiters (put_app pid ?a s) in (s', [] @ woken))"
      by (intro op_law_woken sched_inv_put [OF inv]) simp_all
    then show ?thesis
      using app charge None
      by (cases "is_read what \<and> top_window \<noteq> None") (auto simp: sched_returned_def fl_end_def Let_def)
  next
    case (Some r)
    then have run: "fl_running (app_flight a) = Some r" by (simp add: running_of_Some)
    let ?f = "app_flight a\<lparr>fl_running := None\<rparr>"
    let ?a = "a\<lparr>app_last_top := ?top, app_flight := ?f\<rparr>"
    let ?es = "if ri_walk r = Published then [] else [Outcome pid meta what]"
    have "app_ok (sch_stopping s) (sch_queued s) ?a"
      using ok by (auto simp: app_ok_def app_places_def spent_def flight_inv_def sorted_append)
    moreover have "move (view {#} s) [] ?es (view {#} (put_app pid ?a s))"
      using move_put [of s pid "{#}" ?a "{#}" "flight_events (app_flight a)" ?es] app run same [OF Some]
      by (auto simp: app_events_def flight_events_def running_def read_event_def)
    ultimately have "op_law (view {#} s) []
        (let (s', woken) = wake_idle_waiters (put_app pid ?a s) in (s', ?es @ woken))"
      by (intro op_law_woken sched_inv_put [OF inv]) simp_all
    then show ?thesis
      using app charge Some
      by (cases "is_read what \<and> top_window \<noteq> None"; cases "ri_walk r = Published")
        (auto simp: sched_returned_def fl_end_def Let_def split_beta)
  qed
qed

definition abandoned_back :: "'j app \<Rightarrow> 'j app" where
  "abandoned_back a =
     a\<lparr>app_abandoned := sat_sub (app_abandoned a) 1,
       app_limit_reached :=
         (if sat_sub (app_abandoned a) 1 < ABANDONED_LIMIT then None else app_limit_reached a)\<rparr>"

lemma sat_sub_limit: "x \<le> ABANDONED_LIMIT \<Longrightarrow> sat_sub x 1 < (ABANDONED_LIMIT :: usize)"
  by (simp add: word_less_nat_alt word_le_nat_alt unat_sat_sub ABANDONED_LIMIT_def)

lemma app_ok_back:
  assumes ok: "app_ok st n a" and "\<not> spent (abandoned_back a)"
  shows "st \<or> app_queue a = [] \<or> app_threaded a \<Longrightarrow> app_ok st n (abandoned_back a)"
    and "\<not> app_threaded a \<Longrightarrow> app_ok st n (started (abandoned_back a))"
proof -
  have less: "sat_sub (app_abandoned a) 1 < ABANDONED_LIMIT"
    using ok sat_sub_limit by (auto simp: app_ok_def)
  show "app_ok st n (abandoned_back a)" if "st \<or> app_queue a = [] \<or> app_threaded a"
    using that ok less assms(2)
    by (auto simp: app_ok_def abandoned_back_def app_places_def intro: less_imp_le)
  show "app_ok st n (started (abandoned_back a))" if "\<not> app_threaded a"
    using that ok less
    by (intro app_ok_started) (auto simp: app_ok_def abandoned_back_def app_places_def)
qed

text \<open>An abandoned thread that returns is taken back when events wait with no thread.\<close>

lemma returned_abandoned_law:
  assumes inv: "sched_inv s" and app: "the_app s pid = Some a"
    and gone: "\<not> app_in_charge a (req_generation request)"
  shows "op_law (view {#} s) [] (sched_returned pid request meta what top_window s)"
proof -
  let ?a = "abandoned_back a"
  have ok: "app_ok (sch_stopping s) (sch_queued s) a" using inv app by (rule sched_inv_app)
  have same: "app_events ?a = app_events a" "app_queue ?a = app_queue a"
    "app_flight ?a = app_flight a" "app_threaded ?a = app_threaded a"
    by (simp_all add: abandoned_back_def app_events_def)
  have alt: "sched_returned pid request meta what top_window s =
      apsnd (append [ForgetLast])
       (if spent ?a then let_go pid (put_app pid ?a s)
        else if app_threaded a \<or> app_queue a = [] \<or> sch_stopping s then (put_app pid ?a s, [])
        else sched_start pid True (put_app pid ?a s))"
    using app gone same(2-4)
    by (simp add: sched_returned_def Let_def abandoned_back_def [symmetric] split_beta apsnd_def
        map_prod_def)
  have forget: "op_law (view {#} s) [] (s, [ForgetLast])"
    by (rule op_law_quiet [OF inv]) simp_all
  have kept: "op_law (view {#} s) []
      (if spent ?a then let_go pid (put_app pid ?a s) else (put_app pid ?a s, []))"
    if "spent ?a \<or> app_threaded a \<or> app_queue a = [] \<or> sch_stopping s"
    by (rule put_or_let_go_law [OF inv app])
      (use that same ok app_ok_back(1) [OF ok] app_ok_idle [OF ok] in
        \<open>auto simp: spent_def app_events_def\<close>)
  have start: "op_law (view {#} s) [] (put_app pid (started ?a) s, [Spawn pid g True])"
    if "\<not> spent ?a" and "\<not> app_threaded a" for g
    using app_ok_back(2) [OF ok that] app same by (intro op_law_put [OF inv, where D = "{#}", simplified]) simp_all
  show ?thesis
    unfolding alt
  proof (rule op_law_then [OF forget, unfolded fst_conv snd_conv])
    show "op_law (view {#} s) []
       (if spent ?a then let_go pid (put_app pid ?a s)
        else if app_threaded a \<or> app_queue a = [] \<or> sch_stopping s then (put_app pid ?a s, [])
        else sched_start pid True (put_app pid ?a s))"
      using kept start by (auto simp: sched_start_put split: if_splits)
  qed
qed

text \<open>A read published at its bound has its outcome once.\<close>

lemma accepts_running:
  "accepts f req \<longleftrightarrow> (\<exists>item. running f = Some (req, item, False))"
  by (auto simp: accepts_def running_def split: option.splits)

lemma publish_outcome_simps:
  "running f = Some (request, item, False) \<Longrightarrow>
     publish_outcome pid request (Some r) f = ([Outcome pid (rn_meta item) (Read r)], True)"
  "\<not> (accepts f request \<and> read \<noteq> None) \<Longrightarrow> publish_outcome pid request read f = ([], False)"
  by (auto simp: publish_outcome_def accepts_running split: option.splits)

lemma mark_published_not [simp]: "mark_published req False r = r"
  by (cases r) (auto simp: mark_published_def)

lemma published_got_law:
  assumes inv: "sched_inv s" and app: "the_app s pid = Some a"
    and run: "running (app_flight a) = Some (request, item, False)"
    and pub: "published request True th now (app_flight a) = (f', d)"
  shows "op_law (view {#} s) []
    (let (s1, woken) = wake_idle_waiters (put_app pid (a\<lparr>app_flight := f'\<rparr>) s);
         (s2, es) = sched_decided now pid d s1
     in (s2, [Outcome pid (rn_meta item) j] @ woken @ es))"
proof -
  let ?a = "a\<lparr>app_flight := f'\<rparr>"
  let ?s1 = "put_app pid ?a s"
  have ok: "app_ok (sch_stopping s) (sch_queued s) a" using inv app by (rule sched_inv_app)
  have dw: "decides_well (app_flight a) (f', d)"
    using published_decides_well [of "app_flight a" request True th now] pub by simp
  have ok1: "app_ok (sch_stopping s) (sch_queued s) ?a" by (rule app_ok_flight [OF ok dw])
  have "owed_view (running f') + dropped_by d = {#}"
    using fl.publish_owed [OF pub] run by (simp add: mark_published_def)
  then have none: "flight_events f' = {#}" "dropped_events d = {#}"
    by (auto simp: flight_events_def dropped_events_def)
  have "move (view {#} s) [] [Outcome pid (rn_meta item) j] (view {#} ?s1)"
    using move_put [of s pid "{#}" ?a "{#}" "{#read_event item#}" "[Outcome pid (rn_meta item) j]"]
      app run none
    by (simp add: app_events_def flight_events_def read_event_def)
  note woken = op_law_wake [OF sched_inv_put [OF inv ok1] this, simplified]
  have "op_law (view {#} s) []
      (apsnd (append ([Outcome pid (rn_meta item) j] @ woken)) (sched_decided now pid d s1))"
    if wake: "wake_idle_waiters ?s1 = (s1, woken)" for s1 woken
  proof -
    from wake_law [OF sched_inv_put [OF inv ok1] wake] have inv1: "sched_inv s1"
      and app1: "the_app s1 pid = Some ?a"
      by auto
    have "op_law (view {#} s1) [] (sched_decided now pid d s1)"
      by (rule sched_decided_none [OF inv1 app1 none(2)])
        (use decides_well_views(3) [OF dw] ok in \<open>auto simp: app_ok_def\<close>)
    with op_law_then [OF woken [OF wake]] show ?thesis by simp
  qed
  then show ?thesis
    by (auto simp: Let_def apsnd_def map_prod_def split_beta split: prod.splits)
qed

lemma published_law:
  assumes inv: "sched_inv s"
  shows "op_law (view {#} s) [] (sched_published now pid request read th s)"
proof (cases "the_app s pid")
  case None
  then show ?thesis using inv by (simp add: sched_published_def op_law_refl)
next
  case (Some a)
  show ?thesis
  proof (cases "accepts (app_flight a) request \<and> read \<noteq> None")
    case True
    then obtain item r where run: "running (app_flight a) = Some (request, item, False)"
      and read: "read = Some r"
      by (auto simp: accepts_running)
    obtain f' d where pub: "published request True th now (app_flight a) = (f', d)" by fastforce
    from published_got_law [OF inv Some run pub] show ?thesis
      using Some run read pub by (simp add: sched_published_def publish_outcome_simps(1))
  next
    case False
    obtain f' d where pub: "published request False th now (app_flight a) = (f', d)" by fastforce
    have "op_law (view {#} s) [] (sched_decided now pid d (put_app pid (a\<lparr>app_flight := f'\<rparr>) s))"
      using published_decides_well [of "app_flight a" request False th now] pub
        fl.publish_owed [OF pub]
      by (intro flight_law [OF inv Some]) simp_all
    moreover have "sched_published now pid request read th s =
        sched_decided now pid d (put_app pid (a\<lparr>app_flight := f'\<rparr>) s)"
      using Some pub by (simp add: sched_published_def publish_outcome_simps(2) [OF False])
    ultimately show ?thesis by simp
  qed
qed

lemma tick_app_law:
  assumes inv: "sched_inv s"
  shows "op_law (view {#} s) [] (tick_app now pid s)"
proof (cases "the_app s pid")
  case None
  then show ?thesis using inv by (simp add: tick_app_def op_law_refl)
next
  case (Some a)
  obtain f' d where tick: "tick now (app_flight a) = (f', d)" by fastforce
  have decided: "op_law (view {#} s) [] (sched_decided now pid d (put_app pid (a\<lparr>app_flight := f'\<rparr>) s))"
    using tick judge_decides_well [of "app_flight a" now] fl.tock_owed [OF tick]
    by (intro flight_law [OF inv Some]) (simp_all add: tick_def)
  have late: "op_law (view {#} s) [] (drop_waiting pid s)"
    if "is_some_and (waiting_end a (sch_deadline s)) (\<lambda>end_at. end_at \<le> now)"
    using that Some
    by (intro drop_waiting_law [OF inv])
      (auto simp: waiting_end_def is_some_and_def split: if_splits option.splits)
  show ?thesis
    using Some tick inv by (simp add: tick_app_def op_law_refl decided late)
qed

lemma tick_apps_law: "sched_inv s \<Longrightarrow> op_law (view {#} s) [] (tick_apps now pids s)"
proof (induction pids arbitrary: s)
  case Nil
  then show ?case by (simp add: op_law_refl)
next
  case (Cons pid pids)
  note first = tick_app_law [OF Cons.prems]
  from op_law_then [OF first Cons.IH [OF op_law_inv [OF first]]] show ?case
    by (simp add: apsnd_def map_prod_def split_beta)
qed

text \<open>An event queued, read by the thread in charge, by a new thread, or dropped at the limit.\<close>

lemma app_ok_mono: "app_ok st n a \<Longrightarrow> n \<le> m \<Longrightarrow> app_ok st m a"
  by (auto simp: app_ok_def)

lemma sched_inv_queued:
  assumes "sched_inv s" and "sch_queued s \<le> n"
  shows "sched_inv (s\<lparr>sch_queued := n\<rparr>)"
  using assms by (auto simp: sched_inv_def intro: app_ok_mono order_trans)

lemma op_law_enqueue:
  assumes inv: "sched_inv s" and app: "the_app s pid = Some a"
    and ok: "app_ok (sch_stopping s) (sch_queued s) a'"
    and "app_events a' = app_events a + {#(place, meta)#}"
    and "map qu_meta (app_queue a') = map qu_meta (app_queue a) @ [meta]"
    and "quiet es" and "total settled es = {#}" and "\<And>p. jobs p es = []"
  shows "op_law (view {#} s) [(pid, place, meta)] (put_app pid a' s, es)"
proof -
  let ?s = "put_app pid a' s"
  have "events ?s + tag pid (app_events a) = (events s + {#(pid, place, meta)#}) + tag pid (app_events a)"
    using events_put [of pid a' s] app assms(4) by simp
  then have ev: "events ?s = events s + {#(pid, place, meta)#}" by (simp only: add_right_cancel)
  have "move (view {#} s) [(pid, place, meta)] es (view {#} ?s)"
    using assms(5-8) app ev by (intro move_quiet [where E = "{#}"]) auto
  moreover have "prompt (view {#} s) \<Longrightarrow> prompt (view {#} ?s)"
    using prompt_mono [of "view {#} s" "view {#} ?s"] ev by simp
  ultimately show ?thesis
    using sched_inv_put [OF inv ok] quiet_alarm [OF assms(6)] by (simp add: op_law_def)
qed

lemma app_ok_new: "app_ok st n App_new"
  by (simp add: app_ok_def App_new_def flight_inv_def fl_new_def ABANDONED_LIMIT_def spent_def
      app_places_def item_places_def running_def)

lemma mset_partition: "mset (map f (filter P xs)) + mset (map f (filter (\<lambda>x. \<not> P x) xs)) = mset (map f xs)"
  by (induction xs) auto

lemma app_events_new: "app_events App_new = {#}" "app_queue App_new = []"
  by (simp_all add: app_events_def App_new_def flight_events_def fl_new_def running_def)

lemma app_or_new_simps:
  "held_events s pid = app_events (app_or_new s pid)"
  "waiting s pid = map qu_meta (app_queue (app_or_new s pid))"
  "sched_inv s \<Longrightarrow> app_ok (sch_stopping s) (sch_queued s) (app_or_new s pid)"
  by (auto simp: app_or_new_def held_events_def waiting_def app_events_new app_ok_new sched_inv_app
      split: option.split)

lemma wake_apps: "wake_idle_waiters s = (s', es) \<Longrightarrow> sch_apps s' = sch_apps s"
  by (auto simp: wake_idle_waiters_def Let_def split: if_splits prod.splits)

lemma push_erase_app: "push_erase pid kind key s = (s1, es1) \<Longrightarrow> the_app s1 pid \<noteq> None"
  by (auto simp: push_erase_def Let_def dest!: wake_apps split: if_splits prod.splits)

lemma push_mark_app: "the_app s pid \<noteq> None \<Longrightarrow> the_app (push_mark pid kind s) pid \<noteq> None"
  by (auto simp: push_mark_def moved_away_from_all_but_def Let_def)

lemma push_erase_law:
  assumes inv: "sched_inv s"
  shows "op_law (view {#} s) [] (push_erase pid kind key s)"
proof -
  let ?a = "app_or_new s pid"
  let ?erased = "filter (replaces kind key) (app_queue ?a)"
  let ?a1 = "?a\<lparr>app_ending := False, app_queue := filter (\<lambda>q. \<not> replaces kind key q) (app_queue ?a)\<rparr>"
  let ?s1 = "put_app pid ?a1 s"
  have "app_ok (sch_stopping s) (sch_queued s) ?a1"
    using app_or_new_simps(3) [OF inv, of pid]
    by (auto simp: app_ok_def app_places_def spent_def sorted_append intro: sorted_filter)
  with inv have inv1: "sched_inv ?s1" by (rule sched_inv_put)
  have "app_events ?a = app_events ?a1 + mset (map queue_event ?erased)"
    using mset_partition [of queue_event "replaces kind key" "app_queue ?a"]
    by (simp add: app_events_def union_commute)
  then have mv: "move (view {#} s) [] (drop_all pid REPLACED ?erased) (view {#} ?s1)"
    using move_put [of s pid "{#}" ?a1 "{#}" "mset (map queue_event ?erased)"
        "drop_all pid REPLACED ?erased"]
    by (simp add: app_or_new_simps(1,2) subseq_map)
  show ?thesis
  proof (cases "?erased = []")
    case True
    have "prompt (view {#} s) \<Longrightarrow> prompt (view {#} ?s1)"
      using move_events [OF mv] True
      by (intro prompt_mono [of "view {#} s" "view {#} ?s1"]) (auto simp: drop_all_def named_def)
    with True mv inv1 show ?thesis
      by (simp add: push_erase_def Let_def op_law_def drop_all_def)
  next
    case False
    with op_law_woken [OF inv1 mv] drop_all_simps(1) show ?thesis
      by (simp add: push_erase_def Let_def split_beta)
  qed
qed

lemma push_mark_law:
  assumes inv: "sched_inv s"
  shows "op_law (view {#} s) [] (push_mark pid kind s, [])"
proof -
  let ?s1 = "s\<lparr>sch_queued := sat_succ (sch_queued s)\<rparr>"
  let ?s2 = "?s1\<lparr>sch_last_focus := Some pid\<rparr>"
  have inv1: "sched_inv ?s1" by (rule sched_inv_queued [OF inv]) simp
  then have inv2: "sched_inv ?s2" by (simp add: sched_inv_def)
  have "view {#} ?s1 = view {#} s" and "view {#} ?s2 = view {#} s"
    by (auto simp: view_def events_def waiting_def)
  with inv1 inv2 moved_away_law [OF inv2, of pid] show ?thesis
    by (auto simp: push_mark_def op_law_def Let_def)
qed

lemma push_wait_law:
  assumes inv: "sched_inv s" and app: "the_app s pid = Some a" and q: "qu_place q = sch_queued s"
  shows "op_law (view {#} s) [(pid, qu_place q, qu_meta q)] (push_wait now pid q a s)"
proof -
  let ?a = "a\<lparr>app_queue := app_queue a @ [q]\<rparr>"
  have ok: "app_ok (sch_stopping s) (sch_queued s) a" using inv app by (rule sched_inv_app)
  have places: "app_places ?a = app_places a @ [qu_place q]"
    "app_events ?a = app_events a + {#(qu_place q, qu_meta q)#}"
    by (simp_all add: app_places_def app_events_def queue_event_def)
  have ok_held: "app_ok (sch_stopping s) (sch_queued s) ?a"
    if "app_threaded a \<or> app_limit_reached a \<noteq> None"
    using that ok places q by (auto simp: app_ok_def spent_def sorted_append)
  have ok_started: "app_ok (sch_stopping s) (sch_queued s) (started ?a)"
    if "\<not> app_threaded a" and "\<not> ABANDONED_LIMIT \<le> app_abandoned a"
    using that ok places q by (intro app_ok_started) (auto simp: app_ok_def sorted_append)
  have held: "op_law (view {#} s) [(pid, qu_place q, qu_meta q)] (put_app pid ?a s, es)"
    if "app_threaded a \<or> app_limit_reached a \<noteq> None" and "es = [Wake (WakeThread pid)] \<or> es = []" for es
    using that places by (intro op_law_enqueue [OF inv app ok_held]) auto
  have spawned: "op_law (view {#} s) [(pid, qu_place q, qu_meta q)]
      (put_app pid (started ?a) s, [Spawn pid g False])"
    if "\<not> app_threaded a" and "\<not> ABANDONED_LIMIT \<le> app_abandoned a" for g
    using that places by (intro op_law_enqueue [OF inv app ok_started]) auto
  have limit: "(app_limit_reached a \<noteq> None) = (ABANDONED_LIMIT \<le> app_abandoned a)"
    using ok by (simp add: app_ok_def)
  have late: "op_law (view {#} s) [(pid, qu_place q, qu_meta q)] (drop_waiting pid (put_app pid ?a s))"
    if "app_limit_reached a \<noteq> None"
  proof -
    have "sched_inv (put_app pid ?a s)" using that ok_held by (intro sched_inv_put [OF inv]) simp
    then have "op_law (view {#} (put_app pid ?a s)) [] (drop_waiting pid (put_app pid ?a s))"
      using that by (intro drop_waiting_law) auto
    from op_law_after [OF held [of "[]"] this] show ?thesis using that by (simp add: apsnd_def map_prod_def)
  qed
  show ?thesis
    using held [of "[Wake (WakeThread pid)]"] held [of "[]"] spawned late limit
    by (auto simp: push_wait_def Let_def sched_start_put is_some_and_def split: option.splits)
qed

lemma push_law:
  assumes inv: "sched_inv s" and "\<not> sch_stopping s"
  shows "\<exists>place. op_law (view {#} s) [(pid, place, meta)]
    (sched_push now pid meta job kind key window s :: _ \<times> ('j, 'x) schedule_effect list)"
proof -
  obtain s1 and es1 :: "('j, 'x) schedule_effect list"
    where erase: "push_erase pid kind key s = (s1, es1)" by fastforce
  let ?s2 = "push_mark pid kind s1"
  have first: "op_law (view {#} s) [] (s1, es1)" using push_erase_law [OF inv] erase by metis
  then have "sched_inv s1" by (simp add: op_law_def)
  note marked = op_law_trans [OF first push_mark_law [OF this]]
  then have inv2: "sched_inv ?s2" by (simp add: op_law_def)
  from push_erase_app [OF erase] obtain a where app: "the_app ?s2 pid = Some a"
    using push_mark_app by blast
  let ?q = "\<lparr>qu_place = sch_queued ?s2,
    qu_after_elsewhere = ((kind = Focus \<or> kind = MenuOpened) \<and> sch_last_focus s1 \<noteq> Some pid),
    qu_left_at = app_left_at a, qu_kind = kind, qu_key = key, qu_window = window, qu_meta = meta,
    qu_job = job\<rparr>"
  from op_law_after [OF marked push_wait_law [OF inv2 app, of ?q]] show ?thesis
    using assms(2) erase app
    by (auto simp: sched_push_def Let_def apsnd_def map_prod_def split_beta)
qed

end
