(* ===== verification/Schedule_Runs.thy ===== *)
theory Schedule_Runs
  imports Schedule_Laws
begin

text \<open>
  What the read scheduler gives over every sequence of inputs: the law of a whole step, the
  scheduler as an instance of the generic machines, and its properties.
\<close>

section \<open>The shell's contract\<close>

text \<open>
  What the shell's threads keep: a thread in charge asks for its next event, and fails to start,
  only while it reads nothing, and a read returns with what the callback knew of its own event.
\<close>

fun shell_ok :: "'j schedule \<Rightarrow> ('j, 'x) schedule_input \<times> u64 \<Rightarrow> bool" where
  "shell_ok s (InNext pid generation, _) \<longleftrightarrow>
     (case the_app s pid of
        None \<Rightarrow> True
      | Some a \<Rightarrow> app_in_charge a generation \<longrightarrow> fl_running (app_flight a) = None)"
| "shell_ok s (InSpawnFailed pid generation, _) \<longleftrightarrow>
     (case the_app s pid of
        None \<Rightarrow> True
      | Some a \<Rightarrow> app_in_charge a generation \<longrightarrow> fl_running (app_flight a) = None)"
| "shell_ok s (InReturned pid request meta _ _, _) \<longleftrightarrow>
     (case the_app s pid of
        None \<Rightarrow> True
      | Some a \<Rightarrow>
          (case running_of (app_flight a) request of
             None \<Rightarrow> True
           | Some r \<Rightarrow> rn_meta (ri_item r) = meta))"
| "shell_ok s _ \<longleftrightarrow> True"

fun brought :: "('j, 'x) schedule_input \<times> u64 \<Rightarrow> (pid \<times> meta) multiset" where
  "brought (InPush pid meta _ _ _ _, _) = {#(pid, meta)#}"
| "brought _ = {#}"

fun waiter_asked :: "('j, 'x) schedule_input \<times> u64 \<Rightarrow> u64 list" where
  "waiter_asked (InWhenIdle w, _) = [w]"
| "waiter_asked _ = []"

text \<open>The state with the waiter an input brings.\<close>

definition with_waiter :: "'j schedule \<Rightarrow> u64 \<Rightarrow> 'j schedule" where
  "with_waiter s w =
     (if sch_stopping s then s
      else s\<lparr>sch_idle_waiters := sch_idle_waiters s @ [(sch_queued s, w)]\<rparr>)"

fun asking :: "'j schedule \<Rightarrow> ('j, 'x) schedule_input \<times> u64 \<Rightarrow> 'j schedule" where
  "asking s (InWhenIdle w, _) = with_waiter s w"
| "asking s _ = s"

fun is_stop :: "('j, 'x) schedule_input \<times> u64 \<Rightarrow> bool" where
  "is_stop (InStop, _) = True"
| "is_stop _ = False"

fun is_tick :: "('j, 'x) schedule_input \<times> u64 \<Rightarrow> bool" where
  "is_tick (InTick, _) = True"
| "is_tick _ = False"

section \<open>The law of a step\<close>

lemma push_any_law:
  assumes inv: "sched_inv s"
  shows "\<exists>place. op_law (view {#} s) [(pid, place, meta)]
    (sched_push now pid meta job kind key window s :: _ \<times> ('j, 'x) schedule_effect list)"
proof (cases "sch_stopping s")
  case False
  with inv show ?thesis by (rule push_law)
next
  case True
  have "move (view {#} s) [(pid, 0, meta)] [Outcome pid meta (Dropped SHUTTING_DOWN)] (view {#} s)"
    by (rule move_quiet [where E = "{#(pid, 0, meta)#}"]) (auto intro: prefix_imp_subseq)
  with True inv show ?thesis by (auto simp: sched_push_def op_law_def)
qed

lemma returned_law:
  assumes inv: "sched_inv s" and ok: "shell_ok s (InReturned pid request meta what top_window, now)"
  shows "op_law (view {#} s) [] (sched_returned pid request meta what top_window s)"
proof (cases "the_app s pid")
  case None
  with inv show ?thesis by (simp add: sched_returned_def op_law_refl)
next
  case (Some a)
  have "rn_meta (ri_item r) = meta" if "running_of (app_flight a) request = Some r" for r
    using ok Some that by simp
  with Some inv show ?thesis
    by (cases "app_in_charge a (req_generation request)")
      (blast intro: returned_charge_law returned_abandoned_law)+
qed

lemma learned_law:
  assumes inv: "sched_inv s"
  shows "op_law (view {#} s) [] (sched_act s (InLearned pid request window, now))"
proof (cases "the_app s pid")
  case None
  with inv show ?thesis by (simp add: op_law_refl)
next
  case (Some a)
  obtain f' d where "learned request window now (app_flight a) = (f', d)" by fastforce
  with Some inv fl.learn_owed [OF this] learned_decides_well [of "app_flight a" request window now]
  show ?thesis by (auto simp: op_law_refl intro!: flight_law)
qed

lemma judged_law:
  assumes inv: "sched_inv s"
  shows "op_law (view {#} s) [] (sched_act s (InJudged pid request verdict, now))"
proof (cases "the_app s pid")
  case None
  with inv show ?thesis by (simp add: op_law_refl)
next
  case (Some a)
  obtain f' d where "In_Flight.judged request verdict (app_flight a) = (f', d)" by fastforce
  with Some inv fl.judgement_owed [OF this] judged_decides_well [of "app_flight a" request verdict]
  show ?thesis by (auto intro!: flight_law)
qed

lemma armed_law:
  assumes inv: "sched_inv s"
  shows "op_law (view {#} s) [] (sched_act s (InArmed pid request bound, now))"
proof (cases "the_app s pid")
  case None
  with inv show ?thesis by (simp add: op_law_refl)
next
  case (Some a)
  let ?f = "armed request bound (app_flight a)"
  have same: "running ?f = running (app_flight a)" by (simp add: fl.arm_law)
  then have "fl_running ?f = None \<longleftrightarrow> fl_running (app_flight a) = None"
    by (metis running_None)
  with same sched_inv_app [OF inv Some]
  have "app_ok (sch_stopping s) (sch_queued s) (a\<lparr>app_flight := ?f\<rparr>)"
    by (auto simp: app_ok_def app_places_def item_places_def spent_def armed_kept(1))
  with Some same show ?thesis
    by (auto simp: app_events_def flight_events_def
        intro!: op_law_put [OF inv, where D = "{#}", simplified])
qed

lemma tick_law:
  assumes inv: "sched_inv s"
  shows "op_law (view {#} s) [] (sched_act s (InTick, now))"
proof -
  let ?s = "s\<lparr>sch_alarm_due := None\<rparr>"
  have inv1: "sched_inv ?s" using inv by (simp add: sched_inv_def)
  have same: "view {#} ?s = view {#} s" by (simp add: view_def events_def waiting_def fun_eq_iff)
  show ?thesis
    unfolding same [symmetric] sched_act.simps sched_tick_def
    using inv1 by (simp add: op_law_refl tick_apps_law)
qed

lemma when_idle_law:
  assumes inv: "sched_inv s" and act: "sched_act s (InWhenIdle w, now) = (s', es)"
  shows "sched_inv s' \<and> move (view {#} (with_waiter s w)) [] es (view {#} s')
    \<and> (prompt (view {#} s) \<longrightarrow> prompt (view {#} s')) \<and> (\<forall>c. Alarm c \<notin> set es)"
proof (cases "sch_stopping s")
  case True
  with act inv show ?thesis by (simp add: with_waiter_def)
next
  case False
  have inv1: "sched_inv (with_waiter s w)"
    using inv by (auto simp: with_waiter_def sched_inv_def sorted_append)
  have "wake_idle_waiters (with_waiter s w) = (s', es)"
    using act False by (simp add: with_waiter_def)
  from wake_law [OF inv1 this] show ?thesis by simp
qed

lemma act_quiet_law:
  assumes inv: "sched_inv s" and ok: "shell_ok s x" and "\<not> is_stop x" and "brought x = {#}"
    and "waiter_asked x = []"
  shows "op_law (view {#} s) [] (sched_act s x)"
  using assms
  by (cases x rule: brought.cases)
    (auto intro!: next_law returned_law tick_law learned_law armed_law judged_law published_law
      sched_foreground_law moved_away_law outpost_ended_law spawn_failed_law op_law_refl
      simp del: sched_act.simps(4,5,6,7) split: option.splits)

lemma act_law:
  assumes inv: "sched_inv s" and ok: "shell_ok s x" and stop: "\<not> is_stop x"
    and act: "sched_act s x = (s', es)"
  shows "sched_inv s' \<and> (\<exists>F. named (mset F) = brought x \<and> move (view {#} (asking s x)) F es (view {#} s'))
    \<and> (prompt (view {#} s) \<longrightarrow> prompt (view {#} s')) \<and> (\<forall>c. Alarm c \<notin> set es)"
proof (cases "waiter_asked x = []")
  case False
  then obtain w now where x: "x = (InWhenIdle w, now)" by (cases x rule: waiter_asked.cases) auto
  from when_idle_law [OF inv act [unfolded x]] show ?thesis
    by (auto simp: x intro: exI [of _ "[]"])
next
  case idle: True
  then have same: "asking s x = s" by (cases "(s, x)" rule: asking.cases) auto
  have "\<exists>F. named (mset F) = brought x \<and> op_law (view {#} s) F (sched_act s x)"
  proof (cases "brought x = {#}")
    case True
    with act_quiet_law [OF inv ok stop True idle] show ?thesis by (intro exI [of _ "[]"]) simp
  next
    case False
    then obtain pid meta job kind key window now where x: "x = (InPush pid meta job kind key window, now)"
      by (cases x rule: brought.cases) auto
    have "\<exists>place. op_law (view {#} s) [(pid, place, meta)] (sched_act s x)"
      unfolding x sched_act.simps by (rule push_any_law [OF inv])
    then show ?thesis unfolding x by (auto intro: exI [of _ "[(pid, place, meta)]" for place])
  qed
  then show ?thesis using act same by (auto simp: op_law_def)
qed

lemma view_cong:
  "sch_apps s' = sch_apps s \<Longrightarrow> sch_idle_waiters s' = sch_idle_waiters s \<Longrightarrow> view D s' = view D s"
  by (simp add: view_def events_def waiting_def fun_eq_iff)

lemma move_silent:
  assumes "total settled es = {#}" and "idles es = []" and "\<And>p. jobs p es = []"
  shows "move v [] es v"
proof -
  have "es \<noteq> pre @ RunIdle w # post" for pre w post using assms(2) by auto
  with assms show ?thesis by (auto simp: move_def intro!: exI [of _ "{#}"])
qed

lemma sched_inv_alarm [simp]: "sched_inv (s\<lparr>sch_alarm_due := due\<rparr>) = sched_inv s"
  by (simp add: sched_inv_def)

lemma app_ok_stop: "app_ok st n a \<Longrightarrow> app_ok True n a"
  by (auto simp: app_ok_def)

lemma sched_inv_stop: "sched_inv s \<Longrightarrow> sched_inv (s\<lparr>sch_stopping := True\<rparr>)"
  by (auto simp: sched_inv_def intro: app_ok_stop)

lemma set_alarm_law:
  assumes "set_alarm s = (s', es)"
  shows "sched_inv s' = sched_inv s" and "view {#} s' = view {#} s"
    and "move (view {#} s) [] es (view {#} s)"
  using assms
  by (auto simp: set_alarm_def Let_def intro!: view_cong move_silent split: if_splits)

lemma stop_law:
  assumes "sched_inv s" and "is_stop x" and "sched_act s x = (s', es)"
  shows "sched_inv s'" and "view {#} s' = view {#} s" and "move (view {#} s) [] es (view {#} s)"
    and "asking s x = s" and "brought x = {#}"
proof -
  obtain now where x: "x = (InStop, now)" using assms(2) by (cases x rule: is_stop.cases) auto
  show "view {#} s' = view {#} s" and "move (view {#} s) [] es (view {#} s)"
    and "asking s x = s" and "brought x = {#}"
    using assms(3) x by (auto intro!: view_cong move_silent)
  show "sched_inv s'"
    using assms(1,3) x by (auto intro: sched_inv_stop)
qed

definition sched_ok :: "'j schedule \<Rightarrow> bool" where
  "sched_ok s \<longleftrightarrow> sched_inv s \<and> prompt (view {#} s)"

lemma step_law:
  assumes ok: "sched_ok s" and shell: "shell_ok s x" and step: "sched_step s x = (s', es)"
  shows "sched_ok s'"
    and "\<exists>F. named (mset F) = brought x \<and> move (view {#} (asking s x)) F es (view {#} s')"
proof -
  obtain s1 es1 es2 where act: "sched_act s x = (s1, es1)" and alarm: "set_alarm s1 = (s', es2)"
    and es: "es = es1 @ es2"
    using step by (auto simp: sched_step_def split: prod.splits)
  note alarm = set_alarm_law [OF alarm]
  have "sched_inv s1 \<and> prompt (view {#} s1)
    \<and> (\<exists>F. named (mset F) = brought x \<and> move (view {#} (asking s x)) F es1 (view {#} s1))"
  proof (cases "is_stop x")
    case True
    from stop_law [OF _ True act] ok show ?thesis
      by (auto simp: sched_ok_def intro!: exI [of _ "[]"])
  next
    case False
    from act_law [OF _ shell False act] ok show ?thesis by (auto simp: sched_ok_def)
  qed
  then obtain F where inv: "sched_inv s1" "prompt (view {#} s1)"
    and F: "named (mset F) = brought x" "move (view {#} (asking s x)) F es1 (view {#} s1)"
    by blast
  show "sched_ok s'" using inv alarm(1,2) by (simp add: sched_ok_def)
  show "\<exists>F. named (mset F) = brought x \<and> move (view {#} (asking s x)) F es (view {#} s')"
    using F(1) move_then [OF F(2) alarm(3)] alarm(2) es by auto
qed

lemma sched_ok_new: "sched_ok (Schedule_new dl)" "events (Schedule_new dl) = {#}"
  "waiting (Schedule_new dl) pid = []" "sch_idle_waiters (Schedule_new dl) = []"
  by (simp_all add: sched_ok_def sched_inv_def prompt_def events_def waiting_def Schedule_new_def)

section \<open>A day of the scheduler\<close>

text \<open>The inputs the properties are shown to hold at: two applications, a replaced event, a read
  that never returns, and waiters.\<close>

definition no_calls :: call_counts where
  "no_calls = \<lparr>cc_uia = 0, cc_msaa = 0, cc_window_messages = 0, cc_connections = 0\<rparr>"

definition no_timing :: event_timing where
  "no_timing =
     \<lparr>raised_ms_ago = None, observed_at_us = 0, listener_handled_at_us = 0,
      listener_written_at_us = 0, relayed_at_us = 0, dequeued_at_us = 0, awaited_at_us = 0,
      published_at_us = 0, written_at_us = 0, timing_calls = no_calls, awaited_calls = no_calls,
      core_received_at_us = 0, core_relay_us = 0, core_held_us = 0, core_sent_at_us = 0,
      core_read_at_us = 0\<rparr>"

definition ev :: "u64 \<Rightarrow> meta" where
  "ev m = \<lparr>meta_marker = m, meta_kind = Focus, meta_trace = m, meta_timing = no_timing\<rparr>"

definition day :: "((unit, unit) schedule_input \<times> u64) list" where
  "day =
     [(InPush 5 (ev 11) () Focus None RuleNever, 0),
      (InNext 5 1, 1),
      (InPush 5 (ev 12) () Focus (Some [7]) RuleNever, 2),
      (InPush 5 (ev 13) () Focus (Some [7]) RuleNever, 3),
      (InWhenIdle 9, 4),
      (InReturned 5 \<lparr>req_generation = 1, req_number = 1\<rparr> (ev 11) (Dropped NOT_IN_TIME) None, 5),
      (InNext 5 1, 6),
      (InTick, 2000006),
      (InWhenIdle 10, 2000007),
      (InPush 6 (ev 14) () Focus None RuleNever, 2000008)]"

lemmas [sched_defs] =
  sched_step_def sched_push_def push_erase_def push_mark_def push_wait_def app_or_new_def App_new_def
  sched_next_def sched_returned_def sched_tick_def tick_app_def sched_abandon_def sched_start_def
  drop_waiting_def let_go_def wake_idle_waiters_def set_alarm_def dues_def iter_min_def
  oldest_place_def moved_away_from_all_but_def put_app_def bt_values_def bt_keys_def waiting_end_def
  next_wake_def app_in_charge_def spent_def replaces_def drop_all_def is_some_and_def map_filter_def
  Schedule_new_def fl_new_def micros_def as_micros_def ABANDONED_LIMIT_def sat_succ_def sat_add_def
  sat_sub_def Let_def

abbreviation two_seconds :: duration where
  "two_seconds \<equiv> 2000000000"

lemma day_ok: "run_ok sched_step shell_ok (Schedule_new two_seconds) day"
  by (simp add: day_def run.simps sched_defs flight_defs)

lemma day_idle: "RunIdle 9 \<in> set (snd (run sched_step (Schedule_new two_seconds) day))"
  by (simp add: day_def run.simps sched_defs flight_defs)

lemma day_held: "the_app (fst (run sched_step (Schedule_new two_seconds) day)) 5 \<noteq> None"
  by (simp add: day_def run.simps sched_defs flight_defs)

lemma day_runs_on: "\<forall>x \<in> set day. \<not> is_stop x"
  by (simp add: day_def)

section \<open>Outcomes\<close>

definition owed :: "'j schedule \<Rightarrow> (pid \<times> meta) multiset" where
  "owed s = named (events s)"

lemma asking_same [simp]: "events (asking s x) = events s" "waiting (asking s x) = waiting s"
  "sch_queued (asking s x) = sch_queued s"
  by (cases "(s, x)" rule: asking.cases; simp add: with_waiter_def events_def waiting_def fun_eq_iff)+

lemma step_conserves:
  assumes "sched_ok s" and "shell_ok s x"
  shows "owed (fst (sched_step s x)) + total settled (snd (sched_step s x)) = owed s + brought x"
proof -
  obtain s' es where step: "sched_step s x = (s', es)" by fastforce
  from step_law(2) [OF assms step] obtain F where F: "named (mset F) = brought x"
    and mv: "move (view {#} (asking s x)) F es (view {#} s')" by blast
  from move_events [OF mv] obtain E where "events s + mset F = events s' + E"
    and "total settled es = named E" by auto
  then show ?thesis
    using F step arg_cong [of _ _ named] by (metis event_simps(5) fst_conv owed_def snd_conv)
qed

interpretation sm: conserving_machine sched_step shell_ok sched_ok owed brought settled
proof unfold_locales
  fix s :: "'j schedule" and x :: "('j, 'x) schedule_input \<times> u64"
  assume ok: "sched_ok s" "shell_ok s x"
  show "sched_ok (fst (sched_step s x))"
    using step_law(1) [OF ok] by (metis prod.collapse)
  show "owed (fst (sched_step s x)) + total settled (snd (sched_step s x)) = owed s + brought x"
    by (rule step_conserves [OF ok])
qed

text \<open>\<open>markers\<close> lists what is owed.\<close>

definition event_marker :: "pid \<times> meta \<Rightarrow> u64" where
  "event_marker e = meta_marker (snd e)"

lemma markers_owed: "mset (markers s) = image_mset event_marker (owed s)"
proof -
  have app: "mset (map (\<lambda>q. meta_marker (qu_meta q)) (app_queue a) @ unpublished_marker (app_flight a)) =
      image_mset event_marker (named (tag pid (app_events a)))" for pid and a :: "'a app"
    by (auto simp: app_events_def flight_events_def named_def tag_def event_marker_def read_event_def
        queue_event_def unpublished_marker_def owed_view_def comp_def image_mset.compositionality
        simp del: running_None split: option.splits bool.splits)
  have "mset (concat (map
      (\<lambda>a. map (\<lambda>q. meta_marker (qu_meta q)) (app_queue a) @ unpublished_marker (app_flight a))
      (map snd es))) = image_mset event_marker (named (total (\<lambda>(pid, a). tag pid (app_events a)) es))"
    for es :: "(pid \<times> 'a app) list"
  proof (induction es)
    case Nil
    then show ?case by simp
  next
    case (Cons e es)
    then show ?case using app [of "snd e" "fst e"] by (cases e) simp
  qed
  then show ?thesis by (simp add: markers_def owed_def events_def bt_values_def)
qed

text \<open>
  C1. Every event has exactly one outcome: after any inputs whose shell keeps its contract, the
  outcomes sent, with the events still held, are the events that were queued, each once; and the
  markers the scheduler lists are exactly those still owed an outcome. No event is lost and none
  is answered twice, whatever order replacements, abandonments, publications at the bound, failed
  threads, ended outposts and the shutdown come in.
\<close>

theorem outcomes_conserved:
  assumes "run_ok sched_step shell_ok (Schedule_new dl) xs"
  shows "owed (fst (run sched_step (Schedule_new dl) xs))
      + total settled (snd (run sched_step (Schedule_new dl) xs)) = total brought xs
    \<and> mset (markers (fst (run sched_step (Schedule_new dl) xs))) =
      image_mset event_marker (owed (fst (run sched_step (Schedule_new dl) xs)))"
  using sm.run_conserves [OF sched_ok_new(1) assms] markers_owed
  by (simp add: owed_def sched_ok_new(2))

theorem outcomes_conserved_witness:
  "owed (fst (run sched_step (Schedule_new two_seconds) day))
      + total settled (snd (run sched_step (Schedule_new two_seconds) day)) =
      {#(5, ev 11), (5, ev 12), (5, ev 13), (6, ev 14)#}
    \<and> mset (markers (fst (run sched_step (Schedule_new two_seconds) day))) =
      image_mset event_marker (owed (fst (run sched_step (Schedule_new two_seconds) day)))"
  using outcomes_conserved [OF day_ok] by (simp add: day_def)

section \<open>Idle waiters\<close>

definition waiters_asked :: "(('j, 'x) schedule_input \<times> u64) list \<Rightarrow> u64 list" where
  "waiters_asked xs = concat (map waiter_asked xs)"

lemma low_all: "sched_inv s \<Longrightarrow> low (sch_queued s) (events s) = events s"
proof -
  assume inv: "sched_inv s"
  have "place_of e \<le> sch_queued s" if "e \<in># events s" for e
  proof -
    obtain pid pl m where e: "e = (pid, pl, m)" by (cases e)
    with that obtain a where app: "the_app s pid = Some a" and "(pl, m) \<in># app_events a"
      by (auto simp: mem_events)
    moreover have "pl \<in> set (app_places a)"
      using calculation(2)
      by (cases "running (app_flight a)")
        (auto simp: app_events_def flight_events_def app_places_def item_places_def read_event_def
          queue_event_def split: if_splits)
    ultimately show ?thesis using sched_inv_app [OF inv app] e by (simp add: app_ok_def place_of_def)
  qed
  then show ?thesis by (simp add: low_def filter_mset_eq_conv)
qed

text \<open>
  What each waiter is waiting for: the events brought before it came, those settled since left
  out, are among the events queued no later than it.
\<close>

definition waits_right ::
  "(('j, 'x) schedule_input \<times> u64) list \<Rightarrow> ('j, 'x) schedule_effect list \<Rightarrow> 'j schedule \<Rightarrow> bool" where
  "waits_right xs es s \<longleftrightarrow>
     (\<forall>(b, w) \<in> set (sch_idle_waiters s).
        \<exists>as t bs. xs = as @ (InWhenIdle w, t) # bs
          \<and> total brought as \<subseteq># total settled es + named (low b (events s)))"

definition ran_right ::
  "(('j, 'x) schedule_input \<times> u64) list \<Rightarrow> ('j, 'x) schedule_effect list \<Rightarrow> bool" where
  "ran_right xs es \<longleftrightarrow>
     (\<forall>pre w post. es = pre @ RunIdle w # post \<longrightarrow>
        (\<exists>as t bs. xs = as @ (InWhenIdle w, t) # bs \<and> total brought as \<subseteq># total settled pre))"

lemma asking_waiters:
  assumes "(b, w) \<in> set (sch_idle_waiters (asking s x))"
  shows "(b, w) \<in> set (sch_idle_waiters s) \<or> (\<exists>t. x = (InWhenIdle w, t) \<and> b = sch_queued s)"
  using assms
  by (cases "(s, x)" rule: asking.cases) (auto simp: with_waiter_def split: if_splits)

lemma idle_step:
  assumes IH: "waits_right xs es s" "ran_right xs es" and ok: "sched_ok s" "shell_ok s x"
    and cons: "owed s + total settled es = total brought xs"
    and step: "sched_step s x = (s', es')"
  shows "waits_right (xs @ [x]) (es @ es') s'" and "ran_right (xs @ [x]) (es @ es')"
proof -
  from step_law(2) [OF ok step] obtain F where mv: "move (view {#} (asking s x)) F es' (view {#} s')"
    by blast
  have due: "\<exists>as t bs. xs @ [x] = as @ (InWhenIdle w, t) # bs
      \<and> total brought as \<subseteq># total settled es + named (low b (events s))"
    if "(b, w) \<in> set (sch_idle_waiters (asking s x))" for b w
    using asking_waiters [OF that]
  proof
    assume "(b, w) \<in> set (sch_idle_waiters s)"
    with IH(1) show ?thesis unfolding waits_right_def by fastforce
  next
    assume "\<exists>t. x = (InWhenIdle w, t) \<and> b = sch_queued s"
    then obtain t where x: "x = (InWhenIdle w, t)" and b: "b = sch_queued s" by blast
    have "total brought xs = total settled es + named (low b (events s))"
      using cons low_all [of s] ok(1) b by (simp add: owed_def sched_ok_def union_commute)
    with x show ?thesis by (intro exI [of _ xs] exI [of _ t] exI [of _ "[]"]) simp
  qed
  show "waits_right (xs @ [x]) (es @ es') s'"
    unfolding waits_right_def
  proof (safe)
    fix b w assume "(b, w) \<in> set (sch_idle_waiters s')"
    with move_waiters(2) [OF mv] have "(b, w) \<in> set (sch_idle_waiters (asking s x))" by auto
    from due [OF this] obtain as t bs where xs: "xs @ [x] = as @ (InWhenIdle w, t) # bs"
      and as: "total brought as \<subseteq># total settled es + named (low b (events s))"
      by blast
    have "total settled es + named (low b (events s)) \<subseteq>#
        total settled es + (named (low b (events s')) + total settled es')"
      using move_low [OF mv, of b] by (simp add: subset_mset.add_left_mono)
    with as have "total brought as \<subseteq># total settled (es @ es') + named (low b (events s'))"
      by (simp add: union_assoc union_commute subset_mset.order_trans)
    with xs show "\<exists>as t bs. xs @ [x] = as @ (InWhenIdle w, t) # bs
        \<and> total brought as \<subseteq># total settled (es @ es') + named (low b (events s'))"
      by blast
  qed
  show "ran_right (xs @ [x]) (es @ es')"
    unfolding ran_right_def
  proof (intro allI impI)
    fix pre w post assume "es @ es' = pre @ RunIdle w # post"
    from split_append [OF this]
    show "\<exists>as t bs. xs @ [x] = as @ (InWhenIdle w, t) # bs \<and> total brought as \<subseteq># total settled pre"
    proof (elim disjE exE conjE)
      fix post' assume "es = pre @ RunIdle w # post'"
      with IH(2) obtain as t bs where "xs = as @ (InWhenIdle w, t) # bs"
        and "total brought as \<subseteq># total settled pre" unfolding ran_right_def by blast
      then show ?thesis by (intro exI [of _ as] exI [of _ t] exI [of _ "bs @ [x]"]) simp
    next
      fix pre' assume pre: "pre = es @ pre'" and "es' = pre' @ RunIdle w # post"
      from move_idle [OF mv this(2)] obtain b
        where w: "(b, w) \<in> set (sch_idle_waiters (asking s x))"
          and b: "named (low b (events s)) \<subseteq># total settled pre'" by auto
      from due [OF w] obtain as t bs where xs: "xs @ [x] = as @ (InWhenIdle w, t) # bs"
        and as: "total brought as \<subseteq># total settled es + named (low b (events s))" by blast
      have "total brought as \<subseteq># total settled pre"
        using as subset_mset.add_left_mono [OF b, of "total settled es"] pre
        by (simp add: subset_mset.order_trans)
      with xs show ?thesis by blast
    qed
  qed
qed

lemma idle_run:
  assumes "run_ok sched_step shell_ok (Schedule_new dl) xs"
  shows "waits_right xs (snd (run sched_step (Schedule_new dl) xs)) (fst (run sched_step (Schedule_new dl) xs))"
    and "ran_right xs (snd (run sched_step (Schedule_new dl) xs))"
  using assms
proof (induction xs rule: rev_induct)
  case Nil
  {
    case 1
    then show ?case by (simp add: waits_right_def sched_ok_new)
  next
    case 2
    then show ?case by (simp add: ran_right_def)
  }
next
  case (snoc x xs)
  let ?s = "fst (run sched_step (Schedule_new dl) xs)"
  have ok: "run_ok sched_step shell_ok (Schedule_new dl) xs" "shell_ok ?s x"
    if "run_ok sched_step shell_ok (Schedule_new dl) (xs @ [x])"
    using that by (simp_all add: run_ok_append)
  note step = idle_step [OF snoc.IH(1,2) [OF ok(1)] sm.run_inv [OF sched_ok_new(1) ok(1)] ok(2)
      _ prod.collapse [symmetric]]
  note cons = sm.run_conserves [OF sched_ok_new(1) ok(1)]
  {
    case 1
    then show ?case
      using step(1) cons by (simp add: run_append owed_def sched_ok_new(2))
  next
    case 2
    then show ?case
      using step(2) cons by (simp add: run_append owed_def sched_ok_new(2))
  }
qed

text \<open>The parts of the state no operation but a tick, a stop and the alarm's own changes.\<close>

definition settings :: "'j schedule \<Rightarrow> u64 \<times> bool \<times> u64 option" where
  "settings s = (sch_deadline s, sch_stopping s, sch_alarm_due s)"

lemma settings_put [simp]: "settings (put_app pid a s) = settings s"
  by (simp add: settings_def)

lemma settings_wake [simp]: "settings (fst (wake_idle_waiters s)) = settings s"
  by (simp add: settings_def wake_idle_waiters_def Let_def split_beta)

lemma settings_small [simp]:
  "settings (fst (let_go pid s)) = settings s"
  "settings (fst (sched_start pid reuse s)) = settings s"
  "settings (fst (drop_waiting pid s)) = settings s"
  "settings (moved_away_from_all_but pid s) = settings s"
  "settings (sched_foreground tops rs s) = settings s"
  by (auto simp: let_go_def sched_start_def drop_waiting_def moved_away_from_all_but_def
      sched_foreground_def split_beta Let_def settings_def split: option.split)
    (simp_all add: settings_wake [unfolded settings_def, simplified])

lemma settings_abandon [simp]: "settings (fst (sched_abandon now pid ab s)) = settings s"
  by (cases "the_app s pid")
    (simp_all add: sched_abandon_def Let_def split_beta)

lemma settings_decided [simp]: "settings (fst (sched_decided now pid d s)) = settings s"
  by (cases "(now, pid, d, s)" rule: sched_decided.cases) simp_all

lemma settings_tick_app [simp]: "settings (fst (tick_app now pid s)) = settings s"
  by (auto simp: tick_app_def split_beta Let_def split: option.split)

lemma settings_tick_apps [simp]: "settings (fst (tick_apps now pids s)) = settings s"
  by (induction pids arbitrary: s) (simp_all add: Let_def split_beta)

lemma settings_push_parts [simp]:
  "settings (fst (push_erase pid kind key s)) = settings s"
  "settings (push_mark pid kind s) = settings s"
  "settings (fst (push_wait now pid q a s)) = settings s"
  by (auto simp: push_erase_def push_mark_def push_wait_def Let_def split_beta)
    (simp_all add: settings_def)

lemma settings_push [simp]: "settings (fst (sched_push now pid meta job kind key window s)) = settings s"
  by (auto simp: sched_push_def Let_def split_beta split: option.split)

lemma settings_ops [simp]:
  "settings (fst (sched_next now pid g s)) = settings s"
  "settings (fst (sched_returned pid request meta what tw s)) = settings s"
  "settings (fst (sched_published now pid request read th s)) = settings s"
  "settings (fst (outpost_ended pid s)) = settings s"
  "settings (fst (spawn_failed pid g s)) = settings s"
  by (auto simp: sched_next_def sched_returned_def sched_published_def outpost_ended_def
      spawn_failed_def Let_def split_beta split: option.split list.split)

lemma settings_act:
  "settings (fst (sched_act s x)) =
     (sch_deadline s, sch_stopping s \<or> is_stop x, if is_tick x then None else sch_alarm_due s)"
  by (cases "(s, x)" rule: sched_act.cases)
    (auto simp: sched_tick_def Let_def split_beta split: option.split, auto simp: settings_def)

lemma stopping_step: "sch_stopping (fst (sched_step s x)) = (sch_stopping s \<or> is_stop x)"
  and deadline_step: "sch_deadline (fst (sched_step s x)) = sch_deadline s"
  using settings_act [of s x]
  by (auto simp: sched_step_def set_alarm_def settings_def Let_def split_beta)

lemma stopping_run:
  "sch_stopping (fst (run sched_step s xs)) = (sch_stopping s \<or> (\<exists>x \<in> set xs. is_stop x))"
  by (induction xs arbitrary: s) (auto simp: stopping_step)

lemma waiters_step:
  assumes "sched_ok s" and "shell_ok s x" and "\<not> sch_stopping s"
  shows "idles (snd (sched_step s x)) @ map snd (sch_idle_waiters (fst (sched_step s x))) =
    map snd (sch_idle_waiters s) @ waiter_asked x"
proof -
  obtain s' es where step: "sched_step s x = (s', es)" by fastforce
  from step_law(2) [OF assms(1,2) step] obtain F
    where "move (view {#} (asking s x)) F es (view {#} s')" by blast
  from move_waiters(1) [OF this]
  have "map snd (sch_idle_waiters (asking s x)) = idles es @ map snd (sch_idle_waiters s')" by simp
  moreover have "map snd (sch_idle_waiters (asking s x)) = map snd (sch_idle_waiters s) @ waiter_asked x"
    using assms(3) by (cases "(s, x)" rule: asking.cases) (simp_all add: with_waiter_def)
  ultimately show ?thesis using step by simp
qed

lemma waiters_run:
  assumes "sched_ok s" and "run_ok sched_step shell_ok s xs" and "\<not> sch_stopping s"
    and "\<forall>x \<in> set xs. \<not> is_stop x"
  shows "idles (snd (run sched_step s xs)) @ map snd (sch_idle_waiters (fst (run sched_step s xs))) =
    map snd (sch_idle_waiters s) @ waiters_asked xs"
  using assms
proof (induction xs arbitrary: s)
  case Nil
  then show ?case by (simp add: waiters_asked_def)
next
  case (Cons x xs)
  let ?s = "fst (sched_step s x)"
  have "sched_ok ?s" using Cons.prems by (intro sm.step_inv) simp_all
  moreover have "\<not> sch_stopping ?s" using Cons.prems by (simp add: stopping_step)
  ultimately have "idles (snd (run sched_step ?s xs))
      @ map snd (sch_idle_waiters (fst (run sched_step ?s xs))) =
      map snd (sch_idle_waiters ?s) @ waiters_asked xs"
    using Cons by simp
  with waiters_step [of s x] Cons.prems show ?case
    by (simp add: waiters_asked_def)
qed

text \<open>
  C15. An idle waiter runs only after every event before it: when a waiter is run, each event
  queued before the waiter was asked for has had its outcome sent, earlier in the order the
  effects are applied in.
\<close>

theorem idle_runs_after_outcomes:
  assumes "run_ok sched_step shell_ok (Schedule_new dl) xs"
    and "snd (run sched_step (Schedule_new dl) xs) = pre @ RunIdle w # post"
  shows "\<exists>as t bs. xs = as @ (InWhenIdle w, t) # bs \<and> total brought as \<subseteq># total settled pre"
  using idle_run(2) [OF assms(1)] assms(2) unfolding ran_right_def by blast

theorem idle_runs_after_outcomes_witness:
  "\<exists>pre post as t bs.
     snd (run sched_step (Schedule_new two_seconds) day) = pre @ RunIdle 9 # post
     \<and> day = as @ (InWhenIdle 9, t) # bs \<and> total brought as \<subseteq># total settled pre"
proof -
  obtain pre post where "snd (run sched_step (Schedule_new two_seconds) day) = pre @ RunIdle 9 # post"
    using split_list [OF day_idle] by blast
  with idle_runs_after_outcomes [OF day_ok this] show ?thesis by blast
qed

text \<open>
  C17. No idle waiter is forgotten: while the listener runs, the waiters run so far and those
  still waiting are the waiters asked for, in order; and each still waiting waits for an event
  queued no later than it whose outcome is still owed.
\<close>

theorem idle_waiters_prompt:
  assumes "run_ok sched_step shell_ok (Schedule_new dl) xs" and "\<forall>x \<in> set xs. \<not> is_stop x"
  shows "idles (snd (run sched_step (Schedule_new dl) xs))
      @ map snd (sch_idle_waiters (fst (run sched_step (Schedule_new dl) xs))) = waiters_asked xs
    \<and> (\<forall>b \<in> fst ` set (sch_idle_waiters (fst (run sched_step (Schedule_new dl) xs))).
        \<exists>e \<in> set_mset (events (fst (run sched_step (Schedule_new dl) xs))). place_of e \<le> b)"
proof -
  have "\<not> sch_stopping (Schedule_new dl)" by (simp add: Schedule_new_def)
  from waiters_run [OF sched_ok_new(1) assms(1) this assms(2)]
  have "idles (snd (run sched_step (Schedule_new dl) xs))
      @ map snd (sch_idle_waiters (fst (run sched_step (Schedule_new dl) xs))) = waiters_asked xs"
    by (simp add: sched_ok_new(4))
  moreover have "prompt (view {#} (fst (run sched_step (Schedule_new dl) xs)))"
    using sm.run_inv [OF sched_ok_new(1) assms(1)] by (simp add: sched_ok_def)
  ultimately show ?thesis by (simp add: prompt_def)
qed

definition morning :: "((unit, unit) schedule_input \<times> u64) list" where
  "morning = take 5 day"

lemma morning_ok: "run_ok sched_step shell_ok (Schedule_new two_seconds) morning"
  by (simp add: morning_def day_def run.simps sched_defs flight_defs)

lemma morning_waits:
  "sch_idle_waiters (fst (run sched_step (Schedule_new two_seconds) morning)) = [(3, 9)]"
  by (simp add: morning_def day_def run.simps sched_defs flight_defs)

theorem idle_waiters_prompt_witness:
  "idles (snd (run sched_step (Schedule_new two_seconds) morning)) @ [9] = [9]
    \<and> (\<exists>e. e \<in># events (fst (run sched_step (Schedule_new two_seconds) morning)) \<and> place_of e \<le> 3)"
proof -
  have "\<forall>x \<in> set morning. \<not> is_stop x" by (simp add: morning_def day_def)
  from idle_waiters_prompt [OF morning_ok this] show ?thesis
    by (simp add: morning_waits waiters_asked_def) (auto simp: morning_def day_def)
qed

section \<open>The order of reads\<close>

fun push_of :: "pid \<Rightarrow> ('j, 'x) schedule_input \<times> u64 \<Rightarrow> meta list" where
  "push_of pid (InPush pid' meta _ _ _ _, _) = (if pid' = pid then [meta] else [])"
| "push_of pid _ = []"

definition pushes :: "pid \<Rightarrow> (('j, 'x) schedule_input \<times> u64) list \<Rightarrow> meta list" where
  "pushes pid xs = concat (map (push_of pid) xs)"

lemma pushed_brought:
  assumes "named (mset F) = brought x"
  shows "pushed pid F = push_of pid x"
proof (cases "brought x = {#}")
  case True
  then have "F = []" using assms by (simp add: named_def)
  then show ?thesis using True by (cases x rule: brought.cases) simp_all
next
  case False
  then obtain p m job kind key window now where x: "x = (InPush p m job kind key window, now)"
    by (cases x rule: brought.cases) auto
  then have "size F = 1" using arg_cong [OF assms, of size] by (simp add: named_def)
  then obtain e where "F = [e]" by (auto simp: length_Suc_conv)
  with assms x show ?thesis by (cases e) simp
qed

text \<open>
  C16. An application's events are read in the order they came: the events given to its threads,
  followed by those still waiting, are its events in the order they were queued, some left out
  (those replaced or dropped), none given twice and none overtaken.
\<close>

theorem reads_in_order:
  assumes "run_ok sched_step shell_ok (Schedule_new dl) xs"
  shows "subseq (jobs pid (snd (run sched_step (Schedule_new dl) xs))
      @ waiting (fst (run sched_step (Schedule_new dl) xs)) pid) (pushes pid xs)"
  using assms
proof (induction xs rule: rev_induct)
  case Nil
  then show ?case by (simp add: sched_ok_new pushes_def)
next
  case (snoc x xs)
  let ?s = "fst (run sched_step (Schedule_new dl) xs)"
  obtain s' es where step: "sched_step ?s x = (s', es)" by fastforce
  have ok: "run_ok sched_step shell_ok (Schedule_new dl) xs" "shell_ok ?s x"
    using snoc.prems by (simp_all add: run_ok_append)
  from step_law(2) [OF sm.run_inv [OF sched_ok_new(1) ok(1)] ok(2) step] obtain F
    where F: "named (mset F) = brought x" and mv: "move (view {#} (asking ?s x)) F es (view {#} s')"
    by blast
  from move_queues [OF mv, of pid] pushed_brought [OF F, of pid]
  have "subseq (jobs pid es @ waiting s' pid) (waiting ?s pid @ push_of pid x)" by simp
  from move_queues_trans [of _ _ "[]", simplified, OF snoc.IH [OF ok(1)] this] show ?case
    using step by (simp add: run_append pushes_def)
qed

theorem reads_in_order_witness:
  "subseq (jobs 5 (snd (run sched_step (Schedule_new two_seconds) day))
      @ waiting (fst (run sched_step (Schedule_new two_seconds) day)) 5) [ev 11, ev 12, ev 13]"
  using reads_in_order [OF day_ok, of 5] by (simp add: pushes_def day_def)

section \<open>Threads\<close>

definition thread_count :: "'j app \<Rightarrow> nat" where
  "thread_count a = unat (app_abandoned a) + (if app_threaded a then 1 else 0)"

lemma thread_count_limit: "app_ok st n a \<Longrightarrow> thread_count a \<le> unat ABANDONED_LIMIT"
  by (auto simp: app_ok_def thread_count_def word_le_nat_alt word_less_nat_alt)

text \<open>
  C2. An application never holds more threads than the limit, and none of its events is stranded:
  in every state reached, the threads in charge and abandoned are at most the limit; a read is
  under way only by the thread in charge; while the listener runs, an event that waits with no
  thread waits at the limit, with the time its wait ends set; and an application is held only while
  its outpost lives, a thread of it is left or an event of it waits.
\<close>

theorem threads_bounded:
  assumes "run_ok sched_step shell_ok (Schedule_new dl) xs"
    and "s = fst (run sched_step (Schedule_new dl) xs)" and "the_app s pid = Some a"
  shows "thread_count a \<le> unat ABANDONED_LIMIT
    \<and> (running (app_flight a) \<noteq> None \<longrightarrow> app_threaded a)
    \<and> (sch_stopping s \<or> app_queue a = [] \<or> app_threaded a
        \<or> waiting_end a (sch_deadline s) \<noteq> None \<and> app_abandoned a = ABANDONED_LIMIT)
    \<and> \<not> spent a"
proof -
  have "app_ok (sch_stopping s) (sch_queued s) a"
    using sm.run_inv [OF sched_ok_new(1) assms(1)] assms(2,3)
    by (auto simp: sched_ok_def intro: sched_inv_app)
  with thread_count_limit [OF this] show ?thesis
    by (auto simp: app_ok_def waiting_end_def)
qed

theorem threads_bounded_witness:
  "\<exists>a. the_app (fst (run sched_step (Schedule_new two_seconds) day)) 5 = Some a
    \<and> thread_count a \<le> 2 \<and> \<not> spent a"
proof -
  obtain a where a: "the_app (fst (run sched_step (Schedule_new two_seconds) day)) 5 = Some a"
    using day_held by blast
  with threads_bounded [OF day_ok refl a] show ?thesis by (simp add: ABANDONED_LIMIT_def)
qed

section \<open>The alarm\<close>

text \<open>The shell's timer: set as the effects say, and spent by the tick it makes.\<close>

fun apply_alarm :: "('j, 'x) schedule_effect \<Rightarrow> u64 option \<Rightarrow> u64 option" where
  "apply_alarm (Alarm (AlarmSet due)) _ = due"
| "apply_alarm (Alarm AlarmNow) _ = Some 0"
| "apply_alarm _ timer = timer"

definition timer_step ::
  "'j schedule \<times> u64 option \<Rightarrow> ('j, 'x) schedule_input \<times> u64
    \<Rightarrow> ('j schedule \<times> u64 option) \<times> ('j, 'x) schedule_effect list" where
  "timer_step st x =
     (let (s', es) = sched_step (fst st) x
      in ((s', fold apply_alarm es (if is_tick x then None else snd st)), es))"

definition timer_ok :: "'j schedule \<times> u64 option \<Rightarrow> ('j, 'x) schedule_input \<times> u64 \<Rightarrow> bool" where
  "timer_ok st x = shell_ok (fst st) x"

definition timer_inv :: "'j schedule \<times> u64 option \<Rightarrow> bool" where
  "timer_inv st \<longleftrightarrow> sched_ok (fst st)
     \<and> (sch_stopping (fst st)
         \<or> snd st = sch_alarm_due (fst st) \<and> snd st = iter_min (dues (fst st)))"

lemma no_alarm: "(\<forall>c. Alarm c \<notin> set es) \<Longrightarrow> fold apply_alarm es timer = timer"
proof (induction es)
  case Nil
  then show ?case by simp
next
  case (Cons e es)
  then show ?case by (cases e) auto
qed

lemma set_alarm_exact:
  assumes "set_alarm s = (s', es)" and "\<not> sch_stopping s"
  shows "sch_alarm_due s' = iter_min (dues s') \<and> fold apply_alarm es (sch_alarm_due s) = sch_alarm_due s'"
  using assms by (auto simp: set_alarm_def Let_def dues_def split: if_splits)

lemma timer_step_inv:
  assumes "timer_inv st" and "timer_ok st x"
  shows "timer_inv (fst (timer_step st x))"
proof -
  let ?t = "if is_tick x then None else snd st"
  obtain s' es where step: "sched_step (fst st) x = (s', es)" by fastforce
  have ok: "sched_ok (fst st)" "shell_ok (fst st) x"
    using assms by (simp_all add: timer_inv_def timer_ok_def)
  have "sched_ok s'" using step_law(1) [OF ok step] .
  moreover have "fold apply_alarm es ?t = sch_alarm_due s' \<and> sch_alarm_due s' = iter_min (dues s')"
    if run: "\<not> sch_stopping s'"
  proof -
    obtain s1 es1 es2 where act: "sched_act (fst st) x = (s1, es1)" and alarm: "set_alarm s1 = (s', es2)"
      and es: "es = es1 @ es2"
      using step by (auto simp: sched_step_def split: prod.splits)
    have go: "\<not> sch_stopping (fst st)" "\<not> is_stop x"
      using run step stopping_step [of "fst st" x] by auto
    have s1: "\<not> sch_stopping s1" "sch_alarm_due s1 = ?t"
      using settings_act [of "fst st" x] act go assms(1)
      by (auto simp: settings_def timer_inv_def)
    have "fold apply_alarm es1 ?t = ?t"
      using act_law [OF _ ok(2) go(2) act] ok(1) by (intro no_alarm) (auto simp: sched_ok_def)
    with set_alarm_exact [OF alarm s1(1)] s1(2) es show ?thesis by simp
  qed
  ultimately show ?thesis
    using step by (auto simp: timer_inv_def timer_step_def)
qed

interpretation tm: invariant_machine timer_step timer_ok timer_inv
  by unfold_locales (rule timer_step_inv)

lemma timer_inv_new: "timer_inv (Schedule_new dl, None)"
  using sched_ok_new(1) [of dl] by (simp add: timer_inv_def Schedule_new_def dues_def bt_values_def iter_min_def)

definition before :: "u64 \<Rightarrow> u64 option \<Rightarrow> bool" where
  "before now due = (case due of None \<Rightarrow> True | Some due \<Rightarrow> now < due)"

lemma before_iter_min: "before now (iter_min xs) \<longleftrightarrow> (\<forall>x \<in> set xs. now < x)"
proof (cases "iter_min xs")
  case None
  then have "xs = []" by simp
  then show ?thesis by (simp add: before_def iter_min_def)
next
  case (Some m)
  then have "m \<in> set xs" and "\<forall>x \<in> set xs. m \<le> x" by (simp_all add: iter_min_Some)
  then show ?thesis unfolding Some before_def by fastforce
qed

lemma mem_dues:
  "t \<in> set (dues s) \<longleftrightarrow> (\<exists>pid a. the_app s pid = Some a
     \<and> (next_wake (app_flight a) = Some t \<or> waiting_end a (sch_deadline s) = Some t))"
proof -
  have "t \<in> set (dues s) \<longleftrightarrow> (\<exists>e \<in> set (bt_entries (sch_apps s)).
      next_wake (app_flight (snd e)) = Some t \<or> waiting_end (snd e) (sch_deadline s) = Some t)"
    by (auto simp: dues_def bt_values_def split: option.splits) (metis snd_conv)+
  also have "\<dots> \<longleftrightarrow> (\<exists>pid a. (pid, a) \<in> set (bt_entries (sch_apps s))
      \<and> (next_wake (app_flight a) = Some t \<or> waiting_end a (sch_deadline s) = Some t))"
    by force
  finally show ?thesis by (simp add: bt_mem_entries)
qed

lemma tick_app_before:
  assumes "before now (iter_min (dues s))"
  shows "tick_app now pid s = (s, [])"
proof (cases "the_app s pid")
  case None
  then show ?thesis by (simp add: tick_app_def)
next
  case (Some a)
  have "before now (next_wake (app_flight a))" and "before now (waiting_end a (sch_deadline s))"
    using assms [unfolded before_iter_min] Some
    by (auto simp: mem_dues before_def split: option.split)
  moreover from this(1) have "tick now (app_flight a) = (app_flight a, Nothing)"
    by (simp add: tick_due(1) before_def)
  moreover have "put_app pid (a\<lparr>app_flight := app_flight a\<rparr>) s = s"
    using Some by (simp add: put_app_def bt_put_same)
  ultimately show ?thesis
    using Some by (auto simp: tick_app_def before_def is_some_and_def split: option.splits)
qed

lemma tick_before: "before now (iter_min (dues s)) \<Longrightarrow> sched_tick now s = (s, [])"
proof -
  assume "before now (iter_min (dues s))"
  then have quiet: "tick_apps now pids s = (s, [])" for pids
    by (induction pids) (simp_all add: tick_app_before)
  show ?thesis by (simp add: sched_tick_def quiet)
qed

text \<open>
  C13. The alarm is exact: while the listener runs, after any inputs, the shell's timer stands at
  the soonest time anything is due (a read's bound, its half-second judgement, its deadline, or the
  end of a wait at the limit) and stands at none when nothing is; and a tick before that time would
  change nothing and do nothing. So the watchdog sleeps exactly as long as it may.
\<close>

theorem alarm_exact:
  assumes "run_ok timer_step timer_ok (Schedule_new dl, None) xs"
    and "fst (run timer_step (Schedule_new dl, None) xs) = (s, timer)" and "\<not> sch_stopping s"
  shows "timer = iter_min (dues s) \<and> (before now timer \<longrightarrow> sched_tick now s = (s, []))"
  using tm.run_inv [OF timer_inv_new assms(1)] assms(2,3) tick_before
  by (auto simp: timer_inv_def)

lemma timer_run:
  "run_ok timer_step timer_ok st xs = run_ok sched_step shell_ok (fst st) xs"
  "fst (fst (run timer_step st xs)) = fst (run sched_step (fst st) xs)"
  by (induction xs arbitrary: st) (simp_all add: timer_ok_def timer_step_def split_beta)

lemma day_not_stopping: "\<not> sch_stopping (fst (run sched_step (Schedule_new two_seconds) day))"
  using day_runs_on by (auto simp: stopping_run) (simp add: Schedule_new_def)

theorem alarm_exact_witness:
  "\<exists>s timer. fst (run timer_step (Schedule_new two_seconds, None) day) = (s, timer)
    \<and> timer = iter_min (dues s) \<and> (before 0 timer \<longrightarrow> sched_tick 0 s = (s, []))"
proof -
  obtain s timer where run: "fst (run timer_step (Schedule_new two_seconds, None) day) = (s, timer)"
    by fastforce
  then have "\<not> sch_stopping s"
    using day_not_stopping timer_run(2) [of "(Schedule_new two_seconds, None)" day] by simp
  with alarm_exact [OF _ run] run day_ok show ?thesis by (simp add: timer_run(1))
qed

section \<open>The watchdog\<close>

text \<open>What a tick leaves of an application: nothing overdue, unless its publication is asked for.\<close>

definition nothing_overdue ::
  "u64 \<Rightarrow> pid \<Rightarrow> 'j schedule \<Rightarrow> ('j, 'x) schedule_effect list \<Rightarrow> bool" where
  "nothing_overdue now pid s es \<longleftrightarrow>
     (case the_app s pid of
        None \<Rightarrow> True
      | Some a \<Rightarrow>
          before now (waiting_end a (sch_deadline s))
          \<and> (case fl_running (app_flight a) of
                None \<Rightarrow> True
              | Some r \<Rightarrow> now < ri_deadline r
                  \<or> PublishRead pid (ri_request r) (Some Deadline) \<in> set es))"

lemma sat_add_later:
  assumes "now \<noteq> - 1" and "dl \<noteq> 0"
  shows "now < sat_add now (dl :: u64)"
proof -
  have "unat now < 2 ^ 64 - 1"
    using assms(1) unat_max_bound [of now] by (auto simp: word_unat_eq_iff unat_max_word le_neq_implies_less)
  moreover have "0 < unat dl" using assms(2) by (simp add: unat_gt_0)
  ultimately show ?thesis by (simp add: word_less_nat_alt unat_sat_add)
qed

lemma wake_app: "the_app (fst (wake_idle_waiters s)) pid = the_app s pid"
  using wake_apps [of s] by (metis prod.collapse)

lemma wake_deadline: "sch_deadline (fst (wake_idle_waiters s)) = sch_deadline s"
  by (simp add: wake_idle_waiters_def Let_def split_beta)

lemma drop_waiting_overdue: "nothing_overdue now pid (fst (drop_waiting pid s)) es"
  if "the_app s pid = Some a" and "fl_running (app_flight a) = None"
  using that
  by (auto simp: drop_waiting_def nothing_overdue_def waiting_end_def before_def wake_app split_beta Let_def)

lemma abandon_overdue:
  assumes ok: "app_ok st n a" and app: "the_app s pid = Some a" and "app_threaded a"
    and "fl_running (app_flight a) = None" and "now \<noteq> - 1" and "sch_deadline s \<noteq> 0"
    and out: "sched_abandon now pid ab s = (s', es)"
  shows "nothing_overdue now pid s' es"
proof -
  have "app_limit_reached a = None" using ok assms(3) by (auto simp: app_ok_def)
  moreover have "running (app_flight (succeeded now a)) = None"
    using assms(4) by (auto simp: succeeded_def started_def succeed_def Let_def)
  moreover have "the_app s' pid = Some (succeeded now a)" and "sch_deadline s' = sch_deadline s"
    using out by (auto simp: sched_abandon_unfold [OF app] Let_def split_beta wake_app wake_deadline)
  ultimately show ?thesis
    using sat_add_later [OF assms(5,6)]
    by (auto simp: nothing_overdue_def waiting_end_def before_def succeeded_def started_def abandoning_def)
qed

lemma tick_app_overdue:
  assumes inv: "sched_inv s" and now: "now \<noteq> - 1" "sch_deadline s \<noteq> 0"
    and tick_app: "tick_app now pid s = (s', es)"
  shows "nothing_overdue now pid s' es"
proof (cases "the_app s pid")
  case None
  with tick_app show ?thesis by (auto simp: tick_app_def nothing_overdue_def)
next
  case (Some a)
  have ok: "app_ok (sch_stopping s) (sch_queued s) a" using inv Some by (rule sched_inv_app)
  show ?thesis
  proof (cases "fl_running (app_flight a)")
    case None
    show ?thesis
    proof (cases "is_some_and (waiting_end a (sch_deadline s)) (\<lambda>end_at. end_at \<le> now)")
      case True
      with Some None tick_app have "drop_waiting pid s = (s', es)" by (simp add: tick_app_def)
      with drop_waiting_overdue [OF Some None] show ?thesis by (metis fst_conv)
    next
      case False
      with Some None tick_app show ?thesis
        by (auto simp: tick_app_def nothing_overdue_def is_some_and_def before_def not_le
            split: option.splits)
    qed
  next
    case run: (Some r)
    then have threaded: "app_threaded a" using ok by (simp add: app_ok_def)
    obtain f' d where tick: "tick now (app_flight a) = (f', d)" by fastforce
    let ?a = "a\<lparr>app_flight := f'\<rparr>"
    have out: "sched_decided now pid d (put_app pid ?a s) = (s', es)"
      using Some run tick tick_app by (simp add: tick_app_def)
    have ok': "app_ok (sch_stopping s) (sch_queued s) ?a"
      using judge_decides_well [of "app_flight a" now] tick
      by (intro app_ok_flight [OF ok]) (simp add: tick_def)
    show ?thesis
    proof (cases "\<exists>ab. d = Abandon ab")
      case True
      then obtain ab where d: "d = Abandon ab" by blast
      with tick_cases [OF run tick] have "fl_running f' = None" by auto
      with threaded now out d show ?thesis
        by (intro abandon_overdue [OF ok', of "put_app pid ?a s" pid now ab]) simp_all
    next
      case False
      with tick_cases [OF run tick] threaded out show ?thesis
        by (cases "(now, pid, d, put_app pid ?a s)" rule: sched_decided.cases)
          (auto simp: nothing_overdue_def waiting_end_def before_def)
    qed
  qed
qed

lemma tick_app_other:
  assumes "pid' \<noteq> pid"
  shows "the_app (fst (tick_app now pid s)) pid' = the_app s pid'"
proof -
  have start: "the_app (fst (sched_start pid reuse s)) pid' = the_app s pid'" for reuse s
    using assms by (simp add: sched_start_def Let_def split_beta split: option.split)
  have abandon: "the_app (fst (sched_abandon now pid ab s)) pid' = the_app s pid'" for ab s
    using assms by (simp add: sched_abandon_def Let_def split_beta wake_app start split: option.split)
  have decided: "the_app (fst (sched_decided now pid d s)) pid' = the_app s pid'" for d s
    by (cases "(now, pid, d, s)" rule: sched_decided.cases) (simp_all add: abandon)
  have drop: "the_app (fst (drop_waiting pid s)) pid' = the_app s pid'"
    using assms by (simp add: drop_waiting_def Let_def split_beta wake_app split: option.split)
  show ?thesis
    using assms by (simp add: tick_app_def Let_def split_beta decided drop split: option.split)
qed

lemma tick_apps_other: "pid \<notin> set pids \<Longrightarrow> the_app (fst (tick_apps now pids s)) pid = the_app s pid"
  by (induction pids arbitrary: s) (simp_all add: Let_def split_beta tick_app_other)

lemma settings_deadline: "settings s' = settings s \<Longrightarrow> sch_deadline s' = sch_deadline s"
  by (simp add: settings_def)

lemmas tick_deadline = settings_tick_app [THEN settings_deadline] settings_tick_apps [THEN settings_deadline]

lemma nothing_overdue_later:
  assumes "nothing_overdue now pid s es" and "the_app s' pid = the_app s pid"
    and "sch_deadline s' = sch_deadline s" and "set es \<subseteq> set es'"
  shows "nothing_overdue now pid s' es'"
  using assms by (auto simp: nothing_overdue_def split: option.splits)

lemma tick_apps_overdue:
  fixes s :: "'j schedule"
  assumes "sched_inv s" and "now \<noteq> - 1" and "sch_deadline s \<noteq> 0" and "pid \<in> set pids" and "distinct pids"
    and "tick_apps now pids s = (s', es :: ('j, 'x) schedule_effect list)"
  shows "nothing_overdue now pid s' es"
  using assms
proof (induction pids arbitrary: s s' es)
  case Nil
  then show ?case by simp
next
  case (Cons p pids)
  obtain s1 es1 where first: "tick_app now p s = (s1, es1 :: ('j, 'x) schedule_effect list)" by fastforce
  obtain es2 where rest: "tick_apps now pids s1 = (s', es2)" and es: "es = es1 @ es2"
    using Cons.prems(6) first by (auto simp: Let_def split: prod.splits)
  have s1: "sched_inv s1" "sch_deadline s1 = sch_deadline s"
    using op_law_inv [OF tick_app_law [OF Cons.prems(1)]] tick_deadline(1) first by (metis fst_conv)+
  show ?case
  proof (cases "p = pid")
    case True
    with Cons.prems have "pid \<notin> set pids" by simp
    then have "the_app s' pid = the_app s1 pid" and "sch_deadline s' = sch_deadline s1"
      using tick_apps_other tick_deadline(2) rest by (metis fst_conv)+
    with True tick_app_overdue [OF Cons.prems(1,2,3) first] es show ?thesis
      by (auto intro: nothing_overdue_later)
  next
    case False
    then have "nothing_overdue now pid s' es2"
      using Cons.prems s1 rest by (intro Cons.IH [of s1]) simp_all
    with es show ?thesis by (auto intro: nothing_overdue_later)
  qed
qed

lemma deadline_run: "sch_deadline (fst (run sched_step s xs)) = sch_deadline s"
  by (induction xs arbitrary: s) (simp_all add: deadline_step)

text \<open>
  C14. The watchdog leaves nothing overdue: in any state reached while the listener runs, after a
  tick at \<open>now\<close> no event waits at the limit past the end of its wait, and no read is past its
  deadline, unless the tick has just asked for its publication, whose answer abandons it. So with
  the alarm exact, a call that never returns holds its application's events up no longer than the
  deadline.
\<close>

theorem tick_leaves_nothing_overdue:
  assumes "run_ok sched_step shell_ok (Schedule_new dl) xs"
    and "s = fst (run sched_step (Schedule_new dl) xs)" and "\<not> sch_stopping s"
    and "now \<noteq> - 1" and "micros dl \<noteq> 0"
    and "sched_tick now s = (s', es)"
  shows "nothing_overdue now pid s' es"
proof -
  have inv: "sched_inv s"
    using sm.run_inv [OF sched_ok_new(1) assms(1)] assms(2) by (simp add: sched_ok_def)
  have dl: "sch_deadline s \<noteq> 0"
    using assms(2,5) by (simp add: deadline_run Schedule_new_def)
  have keys: "set (bt_keys (sch_apps s)) = {p. the_app s p \<noteq> None}"
    by (force simp: bt_keys_def bt_mem_entries [symmetric])
  have distinct: "distinct (bt_keys (sch_apps s))"
    by (simp add: bt_keys_def ascending_distinct bt_ascending)
  show ?thesis
  proof (cases "pid \<in> set (bt_keys (sch_apps s))")
    case True
    then show ?thesis
      using assms(3,6) by (intro tick_apps_overdue [OF inv assms(4) dl _ distinct]) (simp_all add: sched_tick_def)
  next
    case False
    have "tick_apps now (bt_keys (sch_apps s)) s = (s', es)"
      using assms(3,6) by (simp add: sched_tick_def)
    with tick_apps_other [OF False] have "the_app s' pid = the_app s pid" by (metis fst_conv)
    then have "the_app s' pid = None" using False keys by simp
    then show ?thesis by (simp add: nothing_overdue_def)
  qed
qed

theorem tick_leaves_nothing_overdue_witness:
  "\<exists>s' (es :: (unit, unit) schedule_effect list).
    sched_tick 9000000 (fst (run sched_step (Schedule_new two_seconds) day)) = (s', es)
    \<and> nothing_overdue 9000000 5 s' es"
proof -
  obtain s' and es :: "(unit, unit) schedule_effect list" where tick:
    "sched_tick 9000000 (fst (run sched_step (Schedule_new two_seconds) day)) = (s', es)" by fastforce
  have "micros two_seconds \<noteq> 0" by (simp add: micros_def as_micros_def)
  with tick_leaves_nothing_overdue [OF day_ok refl day_not_stopping _ _ tick] tick show ?thesis by simp
qed

end
