(* ===== verification/Menu_Grace.thy ===== *)
theory Menu_Grace
  imports Protocol Machines
begin

text \<open>
  The grace a menu's end waits for before it is sent (\<^verbatim>\<open>GraceState\<close> of
  \<^verbatim>\<open>crates/verbatim-listener-logic/src/schedule.rs\<close>): a new focus that comes within it makes the end
  needless to read. The idle barrier's answers wait behind the end, so no answer passes it.
\<close>

section \<open>The step\<close>

record grace_state =
  gs_end :: "(u64 \<times> event_timing \<times> u64) option"
  gs_answers :: "u64 list"
  gs_closed :: bool

definition grace_new :: grace_state where
  "grace_new = \<lparr>gs_end = None, gs_answers = [], gs_closed = False\<rparr>"

datatype grace_input = Ended u64 event_timing u64 | Fired | IdleAnswer u64 | Close

datatype grace_effect = SendEnd u64 event_timing | SendIdleAnswer u64 | SetTimer u64

fun grace_step :: "grace_state \<Rightarrow> grace_input \<times> u64 \<Rightarrow> grace_state \<times> grace_effect list" where
  "grace_step s (Ended ended_at_us timing grace, now) =
     (s\<lparr>gs_end := Some (ended_at_us, timing, sat_add now grace)\<rparr>, [SetTimer grace])"
| "grace_step s (Fired, now) =
     (case gs_end s of
        Some (ended_at_us, timing, over) \<Rightarrow>
          if now < over then (s, if gs_closed s then [] else [SetTimer (sat_sub over now)])
          else (s\<lparr>gs_end := None, gs_answers := []\<rparr>,
                SendEnd ended_at_us timing # map SendIdleAnswer (gs_answers s))
      | None \<Rightarrow> (s\<lparr>gs_answers := []\<rparr>, map SendIdleAnswer (gs_answers s)))"
| "grace_step s (IdleAnswer round, now) =
     (if gs_end s \<noteq> None then (s\<lparr>gs_answers := gs_answers s @ [round]\<rparr>, [])
      else (s, [SendIdleAnswer round]))"
| "grace_step s (Close, now) = (s\<lparr>gs_closed := True\<rparr>, [])"

section \<open>The answers\<close>

fun answer_sent :: "grace_effect \<Rightarrow> u64 list" where
  "answer_sent (SendIdleAnswer round) = [round]"
| "answer_sent _ = []"

definition answers_sent :: "grace_effect list \<Rightarrow> u64 list" where
  "answers_sent es = concat (map answer_sent es)"

fun answer_asked :: "grace_input \<times> u64 \<Rightarrow> u64 list" where
  "answer_asked (IdleAnswer round, _) = [round]"
| "answer_asked _ = []"

definition answers_asked :: "(grace_input \<times> u64) list \<Rightarrow> u64 list" where
  "answers_asked xs = concat (map answer_asked xs)"

lemma answers_simps [simp]:
  "answers_sent [] = []"
  "answers_sent (e # es) = answer_sent e @ answers_sent es"
  "answers_sent (es @ es') = answers_sent es @ answers_sent es'"
  "answers_sent (map SendIdleAnswer rs) = rs"
  "answers_asked [] = []"
  "answers_asked (x # xs) = answer_asked x @ answers_asked xs"
  by (simp_all add: answers_sent_def answers_asked_def o_def)

definition grace_inv :: "grace_state \<Rightarrow> bool" where
  "grace_inv s \<longleftrightarrow> gs_end s = None \<longrightarrow> gs_answers s = []"

lemma grace_step_inv: "grace_inv s \<Longrightarrow> grace_inv (fst (grace_step s x))"
  by (cases "(s, x)" rule: grace_step.cases) (auto simp: grace_inv_def split: option.split)

interpretation gr: invariant_machine grace_step "\<lambda>_ _. True" grace_inv
  by unfold_locales (rule grace_step_inv)

lemma grace_step_answers:
  "grace_inv s \<Longrightarrow>
     answers_sent (snd (grace_step s x)) @ gs_answers (fst (grace_step s x)) =
       gs_answers s @ answer_asked x"
  by (cases "(s, x)" rule: grace_step.cases) (auto simp: grace_inv_def split: option.split)

lemma grace_run_answers:
  "grace_inv s \<Longrightarrow>
     answers_sent (snd (run grace_step s xs)) @ gs_answers (fst (run grace_step s xs)) =
       gs_answers s @ answers_asked xs"
proof (induction xs arbitrary: s)
  case Nil
  then show ?case by simp
next
  case (Cons x xs)
  from Cons.IH [OF grace_step_inv [OF Cons.prems, of x]] grace_step_answers [OF Cons.prems, of x]
  show ?case by (metis append.assoc answers_simps(3,6) run_Cons)
qed

lemma grace_new_inv [simp]: "grace_inv grace_new"
  by (simp add: grace_inv_def grace_new_def)

text \<open>
  C39. The idle barrier's answers never pass a menu's end and none is lost: after any inputs, the
  answers sent and then those that wait are the rounds asked for, in order; one waits only behind
  an end; and an input that sends an answer leaves no end waiting, the end sent first.
\<close>

theorem idle_answers_behind_end:
  assumes "run grace_step grace_new xs = (s, es)"
  shows "answers_sent es @ gs_answers s = answers_asked xs
    \<and> (gs_end s = None \<longrightarrow> gs_answers s = [])
    \<and> (case gs_end s of
         None \<Rightarrow> True
       | Some (ended_at_us, timing, _) \<Rightarrow>
           \<forall>x. answers_sent (snd (grace_step s x)) = []
             \<or> (\<exists>rest. snd (grace_step s x) = SendEnd ended_at_us timing # rest)
                \<and> gs_end (fst (grace_step s x)) = None)"
proof -
  have s: "s = fst (run grace_step grace_new xs)" "es = snd (run grace_step grace_new xs)"
    using assms by simp_all
  have "grace_inv s" unfolding s by (rule gr.run_inv) simp_all
  moreover have "answers_sent es @ gs_answers s = answers_asked xs"
    using grace_run_answers [OF grace_new_inv, of xs] by (simp add: s) (simp add: grace_new_def)
  moreover have "answers_sent (snd (grace_step s x)) = []
      \<or> (\<exists>rest. snd (grace_step s x) = SendEnd e t # rest) \<and> gs_end (fst (grace_step s x)) = None"
    if "gs_end s = Some (e, t, over)" for e t over x
    using that by (cases "(s, x)" rule: grace_step.cases) auto
  ultimately show ?thesis by (simp add: grace_inv_def split: option.split)
qed

section \<open>The timer\<close>

text \<open>
  The shell's timer beside the state: one time, replaced as it is set, counted from the input that
  set it. A callback may come from a time the timer was set to earlier, so \<open>Fired\<close> comes with
  whether it spends the time that is set.
\<close>

definition grace_timer :: "u64 \<Rightarrow> grace_effect list \<Rightarrow> u64 option \<Rightarrow> u64 option" where
  "grace_timer now es timer =
     fold (\<lambda>e t. case e of SetTimer after \<Rightarrow> Some (sat_add now after) | _ \<Rightarrow> t) es timer"

fun grace_shell ::
  "grace_state \<times> u64 option \<Rightarrow> (grace_input \<times> u64) \<times> bool
    \<Rightarrow> (grace_state \<times> u64 option) \<times> grace_effect list" where
  "grace_shell (s, timer) ((x, now), spends) =
     (let (s', es) = grace_step s (x, now)
      in ((s', grace_timer now es (if x = Fired \<and> spends then None else timer)), es))"

definition timer_inv :: "grace_state \<times> u64 option \<Rightarrow> bool" where
  "timer_inv st \<longleftrightarrow>
     (case gs_end (fst st) of
        Some (_, _, over) \<Rightarrow> \<not> gs_closed (fst st) \<longrightarrow> snd st = Some over
      | None \<Rightarrow> True)"

lemma sat_add_sub: "b \<le> a \<Longrightarrow> sat_add b (sat_sub a b) = a"
  using unat_max_bound [of a]
  by (simp add: word_unat_eq_iff unat_sat_add unat_sat_sub word_le_nat_alt)

lemma grace_timer_answers [simp]: "grace_timer now (map SendIdleAnswer rs) t = t"
  by (induction rs) (simp_all add: grace_timer_def)

lemma grace_timer_simps [simp]:
  "grace_timer now [] t = t"
  "grace_timer now (e # es) t =
     grace_timer now es (case e of SetTimer after \<Rightarrow> Some (sat_add now after) | _ \<Rightarrow> t)"
  by (simp_all add: grace_timer_def)

lemma grace_shell_inv: "timer_inv st \<Longrightarrow> timer_inv (fst (grace_shell st x))"
proof (cases "(st, x)" rule: grace_shell.cases)
  case (1 s timer i now spends)
  assume "timer_inv st"
  then show ?thesis
    using 1 by (cases i) (auto simp: timer_inv_def sat_add_sub split: option.splits)
qed

interpretation gt: invariant_machine grace_shell "\<lambda>_ _. True" timer_inv
  by unfold_locales (rule grace_shell_inv)

text \<open>
  C38. A menu's end is sent, and not early: after any inputs, while the timer is not being closed,
  an end that waits has the timer set to exactly the end of its grace; a callback from then on
  sends the end, then the answers behind it, and leaves nothing waiting; one before then sends
  nothing and changes nothing.
\<close>

theorem menu_end_timely:
  assumes "fst (run grace_shell (grace_new, None) xs) = (s, timer)" and "\<not> gs_closed s"
    and "gs_end s = Some (ended_at_us, timing, over)"
  shows "timer = Some over
    \<and> (if now < over then fst (grace_step s (Fired, now)) = s
         \<and> snd (grace_step s (Fired, now)) = [SetTimer (sat_sub over now)]
       else snd (grace_step s (Fired, now)) =
              SendEnd ended_at_us timing # map SendIdleAnswer (gs_answers s)
         \<and> gs_end (fst (grace_step s (Fired, now))) = None
         \<and> gs_answers (fst (grace_step s (Fired, now))) = [])"
proof -
  have "timer_inv (grace_new, None)" by (simp add: timer_inv_def grace_new_def)
  then have "timer_inv (s, timer)" using gt.run_inv [of "(grace_new, None)" xs] assms(1) by simp
  then show ?thesis using assms(2,3) by (simp add: timer_inv_def)
qed

definition no_timing :: event_timing where
  "no_timing =
     (let none = \<lparr>cc_uia = 0, cc_msaa = 0, cc_window_messages = 0, cc_connections = 0\<rparr>
      in \<lparr>raised_ms_ago = None, observed_at_us = 0, listener_handled_at_us = 0,
          listener_written_at_us = 0, relayed_at_us = 0, dequeued_at_us = 0, awaited_at_us = 0,
          published_at_us = 0, written_at_us = 0, timing_calls = none, awaited_calls = none,
          core_received_at_us = 0, core_relay_us = 0, core_held_us = 0, core_sent_at_us = 0,
          core_read_at_us = 0\<rparr>)"

theorem idle_answers_behind_end_witness:
  "answers_sent (snd (run grace_step grace_new
     [(Ended 1 no_timing 50, 10), (IdleAnswer 7, 20), (Fired, 60), (IdleAnswer 8, 61)])) = [7, 8]"
proof -
  let ?xs = "[(Ended 1 no_timing 50, 10), (IdleAnswer 7, 20), (Fired, 60), (IdleAnswer 8, 61)]"
  obtain s es where r: "run grace_step grace_new ?xs = (s, es)" by fastforce
  then have "gs_answers s = []"
    by (auto simp: run.simps grace_new_def sat_add_def Let_def)
  with idle_answers_behind_end [OF r] r show ?thesis by simp
qed

theorem menu_end_timely_witness:
  "snd (grace_step (fst (run grace_step grace_new [(Ended 1 no_timing 50, 10), (IdleAnswer 7, 20)]))
     (Fired, 60)) = [SendEnd 1 no_timing, SendIdleAnswer 7]"
proof -
  let ?xs = "[((Ended 1 no_timing 50, 10), False), ((IdleAnswer 7, 20), False)]"
  obtain s timer where r: "fst (run grace_shell (grace_new, None) ?xs) = (s, timer)" by fastforce
  then have "\<not> gs_closed s" "gs_end s = Some (1, no_timing, 60)" "gs_answers s = [7]"
      "s = fst (run grace_step grace_new (map fst ?xs))"
    by (auto simp: run.simps grace_new_def sat_add_def Let_def)
  with menu_end_timely [OF r, of 1 no_timing 60 60] show ?thesis by simp
qed

end
