(* ===== verification/Supervisor_Policy.thy ===== *)
theory Supervisor_Policy
  imports Protocol Machines "HOL-Library.Product_Lexorder" "HOL-Library.Sublist"
begin

text \<open>
  The supervisor's decisions (\<^verbatim>\<open>crates/verbatim-core/src/supervisor/policy.rs\<close>): when an outpost is
  stuck, when an idle one is retired, how long a failed outpost's replacement waits, how the facts
  that come while an outpost starts are held, and which spare outposts are kept and given. Every
  time is in microseconds on the run's shared clock.
\<close>

section \<open>When an outpost is stuck\<close>

datatype wedge_reason = MissedHeartbeats | AbandonedWorkers

record wedge_limits =
  wl_ping_interval :: duration
  wl_missed_pongs :: u32
  wl_abandoned_workers :: usize

record parked =
  pk_on_hung :: usize
  pk_other :: usize

definition parked_default :: parked where
  "parked_default = \<lparr>pk_on_hung = 0, pk_other = 0\<rparr>"

definition since_us :: "u64 \<Rightarrow> u64 \<Rightarrow> duration" where
  "since_us earlier later = from_micros (sat_sub later earlier)"

definition after_us :: "u64 \<Rightarrow> duration \<Rightarrow> u64" where
  "after_us at_us wait = sat_add at_us (micros wait)"

definition wedge_decision :: "u64 \<Rightarrow> u64 \<Rightarrow> wedge_limits \<Rightarrow> parked \<Rightarrow> wedge_reason option" where
  "wedge_decision last_pong_us now_us limits parked =
     (if wl_abandoned_workers limits \<le> pk_other parked then Some AbandonedWorkers
      else if dur_sat_mul (wl_ping_interval limits) (wl_missed_pongs limits)
                \<le> since_us last_pong_us now_us
      then Some MissedHeartbeats
      else None)"

record liveness =
  lv_last_pong_us :: u64

definition Liveness_new :: "u64 \<Rightarrow> liveness" where
  "Liveness_new now_us = \<lparr>lv_last_pong_us = now_us\<rparr>"

definition liveness_ponged :: "u64 \<Rightarrow> liveness \<Rightarrow> liveness" where
  "liveness_ponged at_us l = l\<lparr>lv_last_pong_us := at_us\<rparr>"

definition wedged :: "u64 \<Rightarrow> wedge_limits \<Rightarrow> liveness \<Rightarrow> wedge_reason option" where
  "wedged now_us limits l = wedge_decision (lv_last_pong_us l) now_us limits parked_default"

definition retirement_decision :: "u64 \<Rightarrow> u64 \<Rightarrow> duration \<Rightarrow> bool \<Rightarrow> bool \<Rightarrow> bool" where
  "retirement_decision last_attention_us now_us idle_after holds_attention nodes_held \<longleftrightarrow>
     \<not> holds_attention \<and> \<not> nodes_held \<and> idle_after \<le> since_us last_attention_us now_us"

section \<open>The backoff between failures\<close>

record backoff =
  bo_failures :: u32
  bo_due_us :: "u64 option"

definition backoff_new :: backoff where
  "backoff_new = \<lparr>bo_failures = 0, bo_due_us = None\<rparr>"

definition backoff_failed ::
  "duration \<Rightarrow> u64 \<Rightarrow> duration \<times> duration \<times> duration \<Rightarrow> backoff \<Rightarrow> backoff \<times> duration" where
  "backoff_failed up now_us spacing b =
     (let (first, limit, stayed_up) = spacing;
          failures = (if stayed_up \<le> up then 0 else bo_failures b);
          failures = sat_succ failures;
          wait = (if failures = 1 then 0
                  else let doublings = min (sat_sub failures 2) 31
                       in min (dur_sat_mul first (push_bit (unat doublings) 1)) limit)
      in (\<lparr>bo_failures = failures,
           bo_due_us = (if wait \<noteq> 0 then Some (after_us now_us wait) else None)\<rparr>, wait))"

definition backoff_due :: "backoff \<Rightarrow> u64 option" where
  "backoff_due b = bo_due_us b"

definition backoff_ended :: "u64 \<Rightarrow> backoff \<Rightarrow> backoff \<times> bool" where
  "backoff_ended now_us b =
     (let over = (case bo_due_us b of None \<Rightarrow> False | Some due \<Rightarrow> due \<le> now_us)
      in (if over then b\<lparr>bo_due_us := None\<rparr> else b, over))"

definition backoff_foreground :: "backoff \<Rightarrow> backoff \<times> bool" where
  "backoff_foreground b = (b\<lparr>bo_failures := 0, bo_due_us := None\<rparr>, bo_due_us b \<noteq> None)"

text \<open>The applications whose wait has ended: the loop's body, and the loop.\<close>

definition due_start :: "u64 \<Rightarrow> pid \<times> backoff \<Rightarrow> (pid \<times> backoff) \<times> (u64 \<times> pid) list" where
  "due_start now_us pb =
     (let (pid, b) = pb
      in case backoff_due b of
           None \<Rightarrow> (pb, [])
         | Some due_us \<Rightarrow>
             let (b', over) = backoff_ended now_us b
             in ((pid, b'), if over then [(due_us, pid)] else []))"

definition due_starts :: "u64 \<Rightarrow> (pid \<times> backoff) list \<Rightarrow> (pid \<times> backoff) list \<times> pid list" where
  "due_starts now_us backoffs =
     (map (fst \<circ> due_start now_us) backoffs,
      map snd (sort (concat (map (snd \<circ> due_start now_us) backoffs))))"

section \<open>The facts held while an outpost starts\<close>

record 'x held_fact =
  hf_trace_id :: trace_id
  hf_timing :: event_timing
  hf_fact :: "'x delivered_fact"
  hf_win_event :: "win_event_stamp option"
  hf_received_at_us :: u64

record 'x held_facts =
  hs_facts :: "'x held_fact list"
  hs_first_held_us :: "u64 option"

definition held_new :: "'x held_facts" where
  "held_new = \<lparr>hs_facts = [], hs_first_held_us = None\<rparr>"

definition held_key :: "'x held_fact \<Rightarrow> fact_key option" where
  "held_key h = delivered_key (hf_fact h) (hf_win_event h)"

definition hold_fact :: "'x held_fact \<Rightarrow> u64 \<Rightarrow> 'x held_facts \<Rightarrow> 'x held_facts" where
  "hold_fact f now_us s =
     (let kept = (case held_key f of
                    None \<Rightarrow> hs_facts s
                  | Some key \<Rightarrow> filter (\<lambda>held. held_key held \<noteq> Some key) (hs_facts s))
      in \<lparr>hs_facts = kept @ [f],
          hs_first_held_us = (case hs_first_held_us s of None \<Rightarrow> Some now_us | Some t \<Rightarrow> Some t)\<rparr>)"

definition take_held :: "'x held_facts \<Rightarrow> 'x held_facts \<times> 'x held_fact list" where
  "take_held s = (held_new, hs_facts s)"

section \<open>The spares\<close>

record spares =
  sp_kept :: bool
  sp_waiting :: "(outpost_id \<times> bool) list"
  sp_backoff :: backoff

definition spares_new :: spares where
  "spares_new = \<lparr>sp_kept = False, sp_waiting = [], sp_backoff = backoff_new\<rparr>"

definition spares_keep :: "spares \<Rightarrow> spares \<times> bool" where
  "spares_keep s = (s\<lparr>sp_kept := True\<rparr>, \<not> sp_kept s)"

definition spares_wanted :: "usize \<Rightarrow> u64 \<Rightarrow> spares \<Rightarrow> spares \<times> usize" where
  "spares_wanted keeping now_us s =
     (if \<not> sp_kept s then (s, 0)
      else
        let (b, over) = (if backoff_due (sp_backoff s) \<noteq> None then backoff_ended now_us (sp_backoff s)
                         else (sp_backoff s, True));
            s = s\<lparr>sp_backoff := b\<rparr>
        in if \<not> over then (s, 0)
           else (s, sat_sub keeping (word_of_nat (length (sp_waiting s)))))"

definition spares_due :: "spares \<Rightarrow> u64 option" where
  "spares_due s = backoff_due (sp_backoff s)"

definition spares_add :: "outpost_id \<Rightarrow> spares \<Rightarrow> spares" where
  "spares_add spare s = s\<lparr>sp_waiting := sp_waiting s @ [(spare, False)]\<rparr>"

text \<open>The first entry of the spare is marked, as \<open>find\<close> finds it.\<close>

fun mark_ready :: "outpost_id \<Rightarrow> (outpost_id \<times> bool) list \<Rightarrow> (outpost_id \<times> bool) list option" where
  "mark_ready spare [] = None"
| "mark_ready spare ((waiting, r) # rest) =
     (if waiting = spare then Some ((waiting, True) # rest)
      else map_option ((#) (waiting, r)) (mark_ready spare rest))"

definition spares_ready :: "outpost_id \<Rightarrow> spares \<Rightarrow> spares \<times> nat option" where
  "spares_ready spare s =
     (case mark_ready spare (sp_waiting s) of
        None \<Rightarrow> (s, None)
      | Some ws \<Rightarrow> (s\<lparr>sp_waiting := ws\<rparr>, Some (length (filter snd ws))))"

definition spares_take :: "spares \<Rightarrow> spares \<times> outpost_id option" where
  "spares_take s =
     (if \<not> sp_kept s then (s, None)
      else case sp_waiting s of
             [] \<Rightarrow> (s, None)
           | (spare, _) # rest \<Rightarrow> (s\<lparr>sp_waiting := rest\<rparr>, Some spare))"

definition spares_remove :: "outpost_id \<Rightarrow> spares \<Rightarrow> spares \<times> bool" where
  "spares_remove spare s =
     (let ws = filter (\<lambda>(waiting, _). waiting \<noteq> spare) (sp_waiting s)
      in (s\<lparr>sp_waiting := ws\<rparr>, length ws \<noteq> length (sp_waiting s)))"

definition spares_failed ::
  "duration \<Rightarrow> u64 \<Rightarrow> duration \<times> duration \<times> duration \<Rightarrow> spares \<Rightarrow> spares \<times> duration" where
  "spares_failed up now_us spacing s =
     (let (b, wait) = backoff_failed up now_us spacing (sp_backoff s) in (s\<lparr>sp_backoff := b\<rparr>, wait))"

section \<open>Which facts may start an outpost\<close>

definition SNAP_RESULTS_ACTIVITY :: string where
  "SNAP_RESULTS_ACTIVITY = ''Windows.Shell.SnapComponent.SnapHotKeyResults''"

fun may_start_outpost :: "'x delivered_fact \<Rightarrow> bool" where
  "may_start_outpost (UiaSelection _ _ _) = False"
| "may_start_outpost (UiaFocusDropped _ _ _) = False"
| "may_start_outpost UiaFocusReadsEnded = False"
| "may_start_outpost (UiaNotification _ _ notification) =
     (no_activity_id notification = Some SNAP_RESULTS_ACTIVITY)"
| "may_start_outpost _ = True"

section \<open>The backoff's waits\<close>

text \<open>The waits of failures one after another, each given with how long its outpost was up.\<close>

fun fail_waits ::
  "duration \<times> duration \<times> duration \<Rightarrow> backoff \<Rightarrow> (duration \<times> u64) list \<Rightarrow> duration list" where
  "fail_waits spacing b [] = []"
| "fail_waits spacing b ((up, now) # fs) =
     (let (b', wait) = backoff_failed up now spacing b in wait # fail_waits spacing b' fs)"

text \<open>The wait of the failure numbered \<open>k\<close>, from 0, since the count started again.\<close>

definition backoff_wait :: "duration \<Rightarrow> duration \<Rightarrow> nat \<Rightarrow> duration" where
  "backoff_wait first limit k = (if k = 0 then 0 else min limit (first * 2 ^ (k - 1)))"

lemma unat_doubling:
  assumes "n \<le> 31"
  shows "unat (2 ^ n :: u32) = 2 ^ n"
proof -
  have "(2::nat) ^ n \<le> 2 ^ 31" using assms by (rule power_increasing) simp
  then have "(2::nat) ^ n < 2 ^ LENGTH(32)" by simp
  moreover have "(2::u32) ^ n = word_of_nat (2 ^ n)" by simp
  ultimately show ?thesis by (simp only: unat_of_nat mod_less)
qed

lemma limit_reached_by:
  fixes first limit :: nat
  assumes "limit \<le> first * 2 ^ 31" and "31 \<le> n"
  shows "limit \<le> first * 2 ^ n"
proof -
  have "(2::nat) ^ 31 \<le> 2 ^ n" using assms(2) by (rule power_increasing) simp
  then have "first * 2 ^ 31 \<le> first * 2 ^ n" by (rule mult_le_mono2)
  with assms(1) show ?thesis by (rule order_trans)
qed

lemma backoff_failed_quick:
  assumes "up < stayed_up" and "limit \<le> first * 2 ^ 31" and "limit \<le> dur_max"
  shows "snd (backoff_failed up now (first, limit, stayed_up) b) =
      backoff_wait first limit (unat (bo_failures b))"
    and "bo_failures (fst (backoff_failed up now (first, limit, stayed_up) b)) =
      sat_succ (bo_failures b)"
proof -
  let ?f = "sat_succ (bo_failures b)" and ?n = "unat (bo_failures b)"
  have u: "unat ?f = min (Suc ?n) (2 ^ 32 - 1)" by (simp add: unat_sat_succ)
  have one: "?f = 1 \<longleftrightarrow> ?n = 0" using u by (auto simp: word_unat_eq_iff)
  let ?d = "unat (min (sat_sub ?f 2) (31 :: u32))"
  have d: "?d = min (unat ?f - 2) 31"
    by (simp add: min_def word_le_nat_alt unat_sat_sub)
  have "min (dur_sat_mul first (push_bit ?d 1)) limit = min limit (first * 2 ^ (?n - 1))"
    if "?n \<noteq> 0"
  proof (cases "?n - 1 < 31")
    case True
    then have "?d = ?n - 1" using that u d by simp
    moreover have "unat (2 ^ (?n - 1) :: u32) = 2 ^ (?n - 1)" using True by (simp add: unat_doubling)
    ultimately show ?thesis
      using assms(3) by (auto simp: dur_sat_mul_def min_def)
  next
    case False
    then have "?d = 31" using u d by simp
    with False show ?thesis
      using assms(2,3) limit_reached_by [OF assms(2), of "?n - 1"]
      by (simp add: dur_sat_mul_def unat_doubling min_def)
  qed
  then show "snd (backoff_failed up now (first, limit, stayed_up) b) =
      backoff_wait first limit ?n"
    using assms(1) one by (simp add: backoff_failed_def backoff_wait_def Let_def)
  show "bo_failures (fst (backoff_failed up now (first, limit, stayed_up) b)) = ?f"
    using assms(1) by (simp add: backoff_failed_def Let_def)
qed

lemma backoff_wait_saturated:
  assumes "limit \<le> first * 2 ^ 31" and "2 ^ 32 - 1 \<le> n"
  shows "backoff_wait first limit n = limit"
  using limit_reached_by [OF assms(1), of "n - 1"] assms(2) by (simp add: backoff_wait_def)

lemma backoff_wait_Suc:
  fixes f :: u32
  assumes "limit \<le> first * 2 ^ 31"
  shows "backoff_wait first limit (unat (sat_succ f) + k) =
    backoff_wait first limit (Suc (unat f) + k)"
proof (cases "Suc (unat f) \<le> 2 ^ 32 - 1")
  case True
  then show ?thesis by (simp add: unat_sat_succ)
next
  case False
  then show ?thesis
    using backoff_wait_saturated [OF assms] by (simp add: unat_sat_succ)
qed

lemma fail_waits_from:
  assumes "limit \<le> first * 2 ^ 31" and "limit \<le> dur_max"
    and "\<forall>(up, now) \<in> set fs. up < stayed_up"
  shows "fail_waits (first, limit, stayed_up) b fs =
    map (\<lambda>k. backoff_wait first limit (unat (bo_failures b) + k)) [0..<length fs]"
  using assms(3)
proof (induction fs arbitrary: b)
  case Nil
  then show ?case by simp
next
  case (Cons f fs)
  obtain up now where f: "f = (up, now)" by fastforce
  with Cons.prems have quick: "up < stayed_up" by auto
  obtain b' wait where step: "backoff_failed up now (first, limit, stayed_up) b = (b', wait)"
    by fastforce
  note q = backoff_failed_quick [OF quick assms(1,2), of now b]
  have "fail_waits (first, limit, stayed_up) b' fs =
      map (\<lambda>k. backoff_wait first limit (unat (bo_failures b) + k)) (map Suc [0..<length fs])"
    using Cons q(2) step backoff_wait_Suc [OF assms(1)] by (simp add: o_def)
  then show ?case using f step q(1) by (simp add: map_Suc_upt upt_conv_Cons del: upt_Suc)
qed

text \<open>
  C27. The backoff doubles and never gives up: of outposts that fail one after another, none of
  them up for long, the first is replaced at once, the next waits the first of the backoff, and
  each further one twice as long as the one before, up to the limit, however many fail: the
  counter's saturation and the shift's 32 bits never show.
\<close>

theorem backoff_doubles:
  assumes "limit \<le> first * 2 ^ 31" and "limit \<le> dur_max"
    and "\<forall>(up, now) \<in> set fs. up < stayed_up"
  shows "fail_waits (first, limit, stayed_up) backoff_new fs =
    map (\<lambda>k. if k = 0 then 0 else min limit (first * 2 ^ (k - 1))) [0..<length fs]"
  using fail_waits_from [OF assms, of backoff_new]
  by (simp add: backoff_new_def backoff_wait_def)

theorem backoff_doubles_witness:
  "fail_waits (1000, 30000, 60000) backoff_new (replicate 7 (5, 0)) =
     [0, 1000, 2000, 4000, 8000, 16000, 30000]"
proof -
  have "fail_waits (1000, 30000, 60000) backoff_new (replicate 7 (5, 0)) =
    map (\<lambda>k. if k = 0 then 0 else min 30000 (1000 * 2 ^ (k - 1))) [0..<length (replicate 7 (5::nat, 0::u64))]"
    by (rule backoff_doubles) (simp_all add: dur_max_def)
  also have "\<dots> = [0, 1000, 2000, 4000, 8000, 16000, 30000]"
    by (simp add: upt_rec)
  finally show ?thesis .
qed

section \<open>The applications whose wait has ended\<close>

text \<open>When an application's wait ends.\<close>

definition due_of :: "(pid \<times> backoff) list \<Rightarrow> pid \<Rightarrow> u64" where
  "due_of bs pid = (case map_of bs pid of None \<Rightarrow> 0 | Some b \<Rightarrow> the (bo_due_us b))"

definition dues_of :: "u64 \<Rightarrow> (pid \<times> backoff) list \<Rightarrow> (u64 \<times> pid) list" where
  "dues_of now bs = concat (map (snd \<circ> due_start now) bs)"

lemma due_start_simp:
  "due_start now (pid, b) =
     (if \<exists>t. bo_due_us b = Some t \<and> t \<le> now
      then ((pid, b\<lparr>bo_due_us := None\<rparr>), [(the (bo_due_us b), pid)])
      else ((pid, b), []))"
  by (auto simp: due_start_def backoff_due_def backoff_ended_def split: option.split)

lemma set_dues_of:
  "set (dues_of now bs) = {(t, p). \<exists>b. (p, b) \<in> set bs \<and> bo_due_us b = Some t \<and> t \<le> now}"
proof (induction bs)
  case Nil
  then show ?case by (simp add: dues_of_def)
next
  case (Cons pb bs)
  have "dues_of now (pb # bs) = snd (due_start now pb) @ dues_of now bs" by (simp add: dues_of_def)
  with Cons show ?case by (cases pb) (auto simp: due_start_simp)
qed

lemma dues_of_pids: "distinct (map fst bs) \<Longrightarrow> distinct (map snd (dues_of now bs))"
proof (induction bs)
  case Nil
  then show ?case by (simp add: dues_of_def)
next
  case (Cons pb bs)
  obtain p b where pb: "pb = (p, b)" by fastforce
  have "p \<notin> snd ` set (dues_of now bs)"
    using Cons.prems pb by (force simp: set_dues_of)
  moreover have "dues_of now (pb # bs) = snd (due_start now (p, b)) @ dues_of now bs"
    by (simp add: dues_of_def pb)
  ultimately show ?case using Cons by (simp add: due_start_simp)
qed

lemma due_of_dues:
  assumes "distinct (map fst bs)" and "d \<in> set (dues_of now bs)"
  shows "(due_of bs (snd d), snd d) = d"
  using assms by (cases d) (auto simp: set_dues_of due_of_def)

text \<open>
  C28. The outposts due are started in the order their waits ended: of applications listed once
  each, exactly those whose wait has ended are given their next generation, once each, earliest
  wait first and by process id where two ended together; their waits run no more and every other
  backoff is left as it was, so asking again starts none twice.
\<close>

theorem due_starts_in_order:
  assumes "distinct (map fst bs)" and "due_starts now bs = (bs', pids)"
  shows "distinct pids
    \<and> set pids = {p. \<exists>b t. (p, b) \<in> set bs \<and> bo_due_us b = Some t \<and> t \<le> now}
    \<and> sorted (map (\<lambda>p. (due_of bs p, p)) pids)
    \<and> bs' = map (\<lambda>(p, b). (p, if p \<in> set pids then b\<lparr>bo_due_us := None\<rparr> else b)) bs
    \<and> snd (due_starts now bs') = []"
proof -
  have bs': "bs' = map (fst \<circ> due_start now) bs" and pids: "pids = map snd (sort (dues_of now bs))"
    using assms(2) by (simp_all add: due_starts_def dues_of_def)
  have set: "set pids = {p. \<exists>b t. (p, b) \<in> set bs \<and> bo_due_us b = Some t \<and> t \<le> now}"
    by (force simp: pids set_dues_of)
  have "mset pids = mset (map snd (dues_of now bs))" by (simp add: pids)
  then have "distinct pids"
    using dues_of_pids [OF assms(1), of now] by (metis mset_eq_imp_distinct_iff)
  moreover have "map (\<lambda>p. (due_of bs p, p)) pids = sort (dues_of now bs)"
    unfolding pids map_map o_def by (rule map_idI) (use due_of_dues [OF assms(1)] in simp)
  moreover have "p \<in> set pids \<longleftrightarrow> (\<exists>t. bo_due_us b = Some t \<and> t \<le> now)" if "(p, b) \<in> set bs" for p b
    using that eq_key_imp_eq_value [OF assms(1)] by (auto simp: set)
  then have "bs' = map (\<lambda>(p, b). (p, if p \<in> set pids then b\<lparr>bo_due_us := None\<rparr> else b)) bs"
    by (auto simp: bs' due_start_simp)
  moreover have "set (dues_of now bs') = {}"
    by (auto simp: set_dues_of bs' due_start_simp split: if_splits)
  then have "snd (due_starts now bs') = []" by (simp add: due_starts_def flip: dues_of_def)
  ultimately show ?thesis using set by simp
qed

definition three_waits :: "(pid \<times> backoff) list" where
  "three_waits =
     [(3, \<lparr>bo_failures = 2, bo_due_us = Some 40\<rparr>), (1, backoff_new),
      (9, \<lparr>bo_failures = 2, bo_due_us = Some 20\<rparr>), (4, \<lparr>bo_failures = 2, bo_due_us = Some 60\<rparr>)]"

theorem due_starts_in_order_witness: "snd (due_starts 50 three_waits) = [9, 3]"
proof -
  obtain bs' pids where d: "due_starts 50 three_waits = (bs', pids)" by fastforce
  have "distinct (map fst three_waits)" by (simp add: three_waits_def)
  note order = due_starts_in_order [OF this d]
  have "{p. \<exists>b t. (p, b) \<in> set three_waits \<and> bo_due_us b = Some t \<and> t \<le> 50} = {9, 3}"
    by (rule set_eqI)
       (simp add: three_waits_def backoff_new_def conj_disj_distribR ex_disj_distrib disj_commute)
  with order have "distinct pids" "set pids = {9, 3}"
      "sorted (map (\<lambda>p. (due_of three_waits p, p)) pids)"
    by blast+
  moreover from this have "length pids = 2" using distinct_card [of pids] by simp
  then obtain p q where "pids = [p, q]" by (auto simp: length_Suc_conv numeral_2_eq_2)
  ultimately show ?thesis
    using d by (auto simp: doubleton_eq_iff due_of_def three_waits_def less_eq_prod_def)
qed

section \<open>The facts held\<close>

text \<open>
  The reference: of facts in the order they came, those with no later fact of their key, and
  those with no key.
\<close>

fun keep_latest :: "('a \<Rightarrow> 'k option) \<Rightarrow> 'a list \<Rightarrow> 'a list" where
  "keep_latest key [] = []"
| "keep_latest key (x # xs) =
     (if key x \<noteq> None \<and> key x \<in> key ` set xs then keep_latest key xs
      else x # keep_latest key xs)"

lemma set_keep_latest: "set (keep_latest key xs) \<subseteq> set xs"
  by (induction xs) auto

lemma keep_latest_snoc:
  "keep_latest key (xs @ [x]) =
     (case key x of None \<Rightarrow> keep_latest key xs
      | Some k \<Rightarrow> filter (\<lambda>y. key y \<noteq> Some k) (keep_latest key xs)) @ [x]"
  by (induction xs) (auto split: option.split)

definition hold_all :: "('x held_fact \<times> u64) list \<Rightarrow> 'x held_facts" where
  "hold_all xs = fold (\<lambda>(f, now) s. hold_fact f now s) xs held_new"

lemma hold_all_snoc: "hold_all (xs @ [(f, now)]) = hold_fact f now (hold_all xs)"
  by (simp add: hold_all_def)

text \<open>
  C30. Holding facts keeps the last of each: whatever facts come while an outpost starts, those
  released are the facts that no later fact of the same object, kind and thread replaced, and
  every part of a focus's read, in the order they last came; the wait is counted from the first
  that came.
\<close>

theorem held_facts_keep_latest:
  "hs_facts (hold_all xs) = keep_latest held_key (map fst xs)
   \<and> hs_first_held_us (hold_all xs) = map_option snd (case xs of [] \<Rightarrow> None | x # _ \<Rightarrow> Some x)"
proof (induction xs rule: rev_induct)
  case Nil
  then show ?case by (simp add: hold_all_def held_new_def)
next
  case (snoc x xs)
  obtain f now where x: "x = (f, now)" by fastforce
  with snoc show ?case
    by (auto simp: hold_all_snoc hold_fact_def keep_latest_snoc Let_def split: option.split list.split)
qed

section \<open>The spares over a run\<close>

datatype spare_call =
    KeepSpares
  | WantedSpares usize u64
  | AddSpare outpost_id
  | SpareReady outpost_id
  | TakeSpare
  | RemoveSpare outpost_id
  | SpareFailed duration u64 "duration \<times> duration \<times> duration"

datatype spare_effect = StartSpares usize | SpareTaken outpost_id | SpareLost outpost_id

fun spares_step :: "spares \<Rightarrow> spare_call \<Rightarrow> spares \<times> spare_effect list" where
  "spares_step s KeepSpares = (fst (spares_keep s), [])"
| "spares_step s (WantedSpares keeping now) =
     (let (s', n) = spares_wanted keeping now s in (s', [StartSpares n]))"
| "spares_step s (AddSpare spare) = (spares_add spare s, [])"
| "spares_step s (SpareReady spare) = (fst (spares_ready spare s), [])"
| "spares_step s TakeSpare =
     (let (s', given) = spares_take s
      in (s', case given of None \<Rightarrow> [] | Some spare \<Rightarrow> [SpareTaken spare]))"
| "spares_step s (RemoveSpare spare) =
     (let (s', was) = spares_remove spare s in (s', if was then [SpareLost spare] else []))"
| "spares_step s (SpareFailed up now spacing) = (fst (spares_failed up now spacing s), [])"

definition spares_added :: "spare_call list \<Rightarrow> outpost_id list" where
  "spares_added xs = concat (map (\<lambda>x. case x of AddSpare spare \<Rightarrow> [spare] | _ \<Rightarrow> []) xs)"

definition spares_taken :: "spare_effect list \<Rightarrow> outpost_id list" where
  "spares_taken es = concat (map (\<lambda>e. case e of SpareTaken spare \<Rightarrow> [spare] | _ \<Rightarrow> []) es)"

definition spares_lost :: "spare_effect list \<Rightarrow> outpost_id list" where
  "spares_lost es = concat (map (\<lambda>e. case e of SpareLost spare \<Rightarrow> [spare] | _ \<Rightarrow> []) es)"

abbreviation waiting_ids :: "spares \<Rightarrow> outpost_id list" where
  "waiting_ids s \<equiv> map fst (sp_waiting s)"

lemma mark_ready_ids: "mark_ready spare ws = Some ws' \<Longrightarrow> map fst ws' = map fst ws"
  by (induction ws arbitrary: ws') (auto split: if_splits)

lemma mark_ready_mset:
  assumes "mark_ready spare ws = Some ws'"
  shows "image_mset fst (mset ws') = image_mset fst (mset ws)"
  using arg_cong [OF mark_ready_ids [OF assms], of mset] by simp

text \<open>What one call does to the spares that wait.\<close>

lemma spares_step_waiting:
  assumes "distinct (waiting_ids s)" and "spares_step s x = (s', es)"
  shows "mset (waiting_ids s') + mset (spares_taken es) + mset (spares_lost es) =
      mset (waiting_ids s) + mset (spares_added [x])"
    and "subseq (spares_taken es @ waiting_ids s') (waiting_ids s @ spares_added [x])"
proof -
  note defs = spares_keep_def spares_wanted_def spares_add_def spares_ready_def spares_take_def
    spares_failed_def spares_added_def spares_taken_def spares_lost_def Let_def
  have rem: "map fst (filter (\<lambda>(w, _). w \<noteq> y) ws) = filter (\<lambda>w. w \<noteq> y) (map fst ws)"
    for y and ws :: "(outpost_id \<times> bool) list"
    by (induction ws) auto
  have gone: "mset (filter (\<lambda>w. w \<noteq> y) ws) + (if y \<in> set ws then {#y#} else {#}) = mset ws"
    if "distinct ws" for y and ws :: "outpost_id list"
    using that by (induction ws) auto
  have len: "length (filter (\<lambda>(w, _). w \<noteq> y) ws) \<noteq> length ws \<longleftrightarrow> y \<in> set (map fst ws)"
    for y and ws :: "(outpost_id \<times> bool) list"
    by (induction ws) (auto simp: le_imp_less_Suc less_imp_neq)
  show "mset (waiting_ids s') + mset (spares_taken es) + mset (spares_lost es) =
      mset (waiting_ids s) + mset (spares_added [x])"
  proof (cases "\<exists>y. x = RemoveSpare y")
    case True
    then obtain y where x: "x = RemoveSpare y" by blast
    then have "waiting_ids s' = filter (\<lambda>w. w \<noteq> y) (waiting_ids s)"
      and "es = (if y \<in> set (waiting_ids s) then [SpareLost y] else [])"
      using assms(2) by (auto simp: spares_remove_def Let_def rem len)
    with gone [OF assms(1), of y] x show ?thesis by (simp add: defs split: if_splits)
  next
    case False
    then show ?thesis
      using assms(2) by (cases x) (auto simp: defs dest: mark_ready_ids mark_ready_mset
          split: if_splits list.splits option.splits prod.splits)
  qed
  show "subseq (spares_taken es @ waiting_ids s') (waiting_ids s @ spares_added [x])"
  proof (cases "\<exists>y. x = RemoveSpare y")
    case True
    then obtain y where x: "x = RemoveSpare y" by blast
    then show ?thesis
      using assms(2) by (auto simp: spares_remove_def defs rem)
  next
    case False
    then show ?thesis
      using assms(2) by (cases x) (auto simp: defs dest: mark_ready_ids mark_ready_mset
          split: if_splits list.splits option.splits prod.splits)
  qed
qed

lemma spares_append:
  "spares_taken (es @ es') = spares_taken es @ spares_taken es'"
  "spares_lost (es @ es') = spares_lost es @ spares_lost es'"
  by (simp_all add: spares_taken_def spares_lost_def)

lemma balance_chain:
  fixes w1 :: "'a multiset"
  assumes "w1 + t1 + l1 = a1" and "w2 + t2 + l2 = w1 + a2"
  shows "w2 + (t1 + t2) + (l1 + l2) = a1 + a2"
proof -
  have "w2 + (t1 + t2) + (l1 + l2) = (w2 + t2 + l2) + (t1 + l1)" by (simp add: ac_simps)
  also have "\<dots> = a1 + a2" unfolding assms(2) using assms(1) by (simp add: ac_simps)
  finally show ?thesis .
qed

text \<open>
  C29. A spare is given once, oldest first: of spares each started once, whatever calls come, every
  spare is given to an application, lost while it waited or still waits, and only one of these;
  and those given, then those that wait, are in the order they were started.
\<close>

theorem spares_given_once:
  assumes "distinct (spares_added xs)" and "run spares_step spares_new xs = (s, es)"
  shows "mset (waiting_ids s) + mset (spares_taken es) + mset (spares_lost es) = mset (spares_added xs)
    \<and> subseq (spares_taken es @ waiting_ids s) (spares_added xs)"
  using assms
proof (induction xs arbitrary: s es rule: rev_induct)
  case Nil
  then show ?case
    by (auto simp: spares_new_def spares_added_def spares_taken_def spares_lost_def)
next
  case (snoc x xs)
  obtain s1 es1 where r1: "run spares_step spares_new xs = (s1, es1)" by fastforce
  obtain s2 es2 where r2: "spares_step s1 x = (s2, es2)" by fastforce
  have s: "s = s2" "es = es1 @ es2"
    using snoc.prems(2) r1 r2 run_append [of spares_step spares_new xs "[x]"] by (auto simp: prod_eq_iff)
  have added: "spares_added (xs @ [x]) = spares_added xs @ spares_added [x]"
    by (simp add: spares_added_def)
  with snoc have IH: "mset (waiting_ids s1) + mset (spares_taken es1) + mset (spares_lost es1) =
        mset (spares_added xs)"
      "subseq (spares_taken es1 @ waiting_ids s1) (spares_added xs)"
    using r1 by auto
  then have "mset (waiting_ids s1 @ spares_taken es1 @ spares_lost es1) = mset (spares_added xs)"
    by (simp add: ac_simps)
  then have "distinct (waiting_ids s1)"
    using snoc.prems(1) added mset_eq_imp_distinct_iff by fastforce
  note step = spares_step_waiting [OF this r2]
  have "mset (waiting_ids s) + mset (spares_taken es) + mset (spares_lost es) =
      mset (spares_added (xs @ [x]))"
    using balance_chain [OF IH(1) step(1)] by (simp add: s added spares_append)
  moreover have "subseq (spares_taken es1 @ spares_taken es2 @ waiting_ids s2)
      (spares_taken es1 @ waiting_ids s1 @ spares_added [x])"
    using step(2) by (simp add: list_emb_append_mono)
  then have "subseq (spares_taken es @ waiting_ids s) (spares_added (xs @ [x]))"
    using list_emb_append_mono [OF IH(2) subseq_order.refl [of "spares_added [x]"]]
    by (simp add: s added spares_append)
  ultimately show ?case by simp
qed

definition spare_day :: "spare_call list" where
  "spare_day = [KeepSpares, AddSpare 4, AddSpare 5, SpareReady 5, AddSpare 6, RemoveSpare 5, TakeSpare]"

theorem spares_given_once_witness:
  "subseq (spares_taken (snd (run spares_step spares_new spare_day))
     @ waiting_ids (fst (run spares_step spares_new spare_day))) [4, 5, 6]"
proof -
  obtain s es where r: "run spares_step spares_new spare_day = (s, es)" by fastforce
  have "spares_added spare_day = [4, 5, 6]" by (simp add: spares_added_def spare_day_def)
  with spares_given_once [OF _ r] r show ?thesis by simp
qed

end
