(* ===== verification/Generation.thy ===== *)
theory Generation
  imports Supervisor_Policy
begin

text \<open>
  An application's outpost generation as the supervisor's owner knows it
  (\<^verbatim>\<open>crates/verbatim-core/src/supervisor/generation.rs\<close>): one state for each stage of its life, and
  each transition a function that gives the next state with the notices to send, in order. The
  type of the child's process is a parameter, as in the source.
\<close>

section \<open>The states\<close>

datatype end_reason = Exited | Killed | Retired | TargetExited

datatype 'c process_run = RunLaunching | RunRunning 'c

fun run_running :: "'c process_run \<Rightarrow> 'c option" where
  "run_running (RunRunning child) = Some child"
| "run_running RunLaunching = None"

record live =
  li_last_pong_us :: u64
  li_parked :: parked

definition Live_new :: "u64 \<Rightarrow> live" where
  "Live_new now_us = \<lparr>li_last_pong_us = now_us, li_parked = parked_default\<rparr>"

datatype heartbeat = Ping | Wedged wedge_reason

record given_spare =
  gv_fault :: "string option"

record unready =
  un_outpost :: outpost_id
  un_reason :: end_reason
  un_started :: bool

datatype 'c generation =
    Launching outpost_id
  | SpareGiven outpost_id
  | Starting outpost_id 'c "given_spare option" live
  | ReadyGen outpost_id 'c live
  | WaitingGen "unready option"

datatype 'c next_generation = NextSpare outpost_id "'c option" | NextLaunch outpost_id

datatype lifecycle =
    Started outpost_id pid
  | Ended outpost_id pid end_reason bool
  | Regenerated outpost_id outpost_id pid
  | NotWatched pid

datatype notice =
    HookInstalled pid outpost_id
  | HookRemoved pid
  | Assign outpost_id
  | Launch outpost_id
  | ToApp lifecycle

record 'c gen_failure =
  ga_next :: "'c generation"
  ga_outpost :: outpost_id
  ga_child :: "'c option"
  ga_ready :: bool
  ga_fault :: "string option"
  ga_notices :: "notice list"

record 'c gen_removal =
  gd_child :: "'c option"
  gd_outpost :: "outpost_id option"
  gd_ready :: bool
  gd_notices :: "notice list"

definition generation_new :: "'c generation" where
  "generation_new = WaitingGen None"

section \<open>What a state says\<close>

fun gen_outpost :: "'c generation \<Rightarrow> outpost_id option" where
  "gen_outpost (Launching outpost) = Some outpost"
| "gen_outpost (SpareGiven outpost) = Some outpost"
| "gen_outpost (Starting outpost _ _ _) = Some outpost"
| "gen_outpost (ReadyGen outpost _ _) = Some outpost"
| "gen_outpost (WaitingGen _) = None"

fun gen_child :: "'c generation \<Rightarrow> 'c option" where
  "gen_child (Starting _ child _ _) = Some child"
| "gen_child (ReadyGen _ child _) = Some child"
| "gen_child _ = None"

fun ready_child :: "'c generation \<Rightarrow> 'c option" where
  "ready_child (ReadyGen _ child _) = Some child"
| "ready_child _ = None"

fun forwarding_target :: "outpost_id \<Rightarrow> 'c generation \<Rightarrow> 'c option" where
  "forwarding_target outpost (ReadyGen ready child _) = (if ready = outpost then Some child else None)"
| "forwarding_target outpost _ = None"

fun is_ready :: "'c generation \<Rightarrow> bool" where
  "is_ready (ReadyGen _ _ _) = True"
| "is_ready _ = False"

fun is_launching :: "'c generation \<Rightarrow> bool" where
  "is_launching (Launching _) = True"
| "is_launching (SpareGiven _) = True"
| "is_launching _ = False"

fun is_spare_given :: "'c generation \<Rightarrow> bool" where
  "is_spare_given (SpareGiven _) = True"
| "is_spare_given _ = False"

text \<open>The reference to the liveness of a running generation: read, and replaced.\<close>

fun gen_live :: "'c generation \<Rightarrow> live option" where
  "gen_live (Starting _ _ _ live) = Some live"
| "gen_live (ReadyGen _ _ live) = Some live"
| "gen_live _ = None"

fun gen_set_live :: "live \<Rightarrow> 'c generation \<Rightarrow> 'c generation" where
  "gen_set_live live (Starting outpost child spare _) = Starting outpost child spare live"
| "gen_set_live live (ReadyGen outpost child _) = ReadyGen outpost child live"
| "gen_set_live live g = g"

definition gen_ponged :: "u64 \<Rightarrow> parked \<Rightarrow> 'c generation \<Rightarrow> 'c generation" where
  "gen_ponged at_us parked g =
     (case gen_live g of
        None \<Rightarrow> g
      | Some live \<Rightarrow> gen_set_live (live\<lparr>li_last_pong_us := at_us, li_parked := parked\<rparr>) g)"

definition gen_heartbeat :: "u64 \<Rightarrow> wedge_limits \<Rightarrow> 'c generation \<Rightarrow> heartbeat option" where
  "gen_heartbeat now_us limits g =
     (case gen_live g of
        None \<Rightarrow> None
      | Some live \<Rightarrow>
          Some (case wedge_decision (li_last_pong_us live) now_us limits (li_parked live) of
                  Some reason \<Rightarrow> Wedged reason
                | None \<Rightarrow> Ping))"

text \<open>What the caller writes through the reference to a given spare's fault.\<close>

fun set_spare_fault :: "string \<Rightarrow> 'c generation \<Rightarrow> 'c generation" where
  "set_spare_fault fault (Starting outpost child (Some spare) live) =
     Starting outpost child (Some (spare\<lparr>gv_fault := Some fault\<rparr>)) live"
| "set_spare_fault fault g = g"

section \<open>The transitions\<close>

abbreviation started_notice :: "outpost_id \<Rightarrow> pid \<Rightarrow> notice" where
  "started_notice outpost pid \<equiv> ToApp (Started outpost pid)"

abbreviation ended_notice :: "outpost_id \<Rightarrow> pid \<Rightarrow> end_reason \<Rightarrow> bool \<Rightarrow> notice" where
  "ended_notice outpost pid reason follows \<equiv> ToApp (Ended outpost pid reason follows)"

fun next_outpost :: "'c next_generation \<Rightarrow> outpost_id" where
  "next_outpost (NextSpare outpost _) = outpost"
| "next_outpost (NextLaunch outpost) = outpost"

text \<open>The notices of the generation that failed before its \<open>Ready\<close>, as the next is given.\<close>

definition replaced_notices :: "pid \<Rightarrow> outpost_id \<Rightarrow> unready option \<Rightarrow> notice list" where
  "replaced_notices pid nxt unready =
     (case unready of
        None \<Rightarrow> []
      | Some failed \<Rightarrow>
          ToApp (Regenerated (un_outpost failed) nxt pid)
          # (if un_started failed
             then [ended_notice (un_outpost failed) pid (un_reason failed) True] else []))"

fun given :: "pid \<Rightarrow> 'c next_generation \<Rightarrow> u64 \<Rightarrow> 'c generation \<Rightarrow> 'c generation \<times> notice list" where
  "given pid nxt now_us (WaitingGen unready) =
     (let before = replaced_notices pid (next_outpost nxt) unready
      in case nxt of
           NextSpare outpost (Some child) \<Rightarrow>
             (Starting outpost child (Some \<lparr>gv_fault = None\<rparr>) (Live_new now_us),
              before @ [Assign outpost, started_notice outpost pid])
         | NextSpare outpost None \<Rightarrow> (SpareGiven outpost, before)
         | NextLaunch outpost \<Rightarrow> (Launching outpost, before @ [Launch outpost]))"
| "given pid nxt now_us g = (g, [])"

fun launched ::
  "pid \<Rightarrow> 'c \<Rightarrow> u64 \<Rightarrow> 'c generation \<Rightarrow> ('c generation \<times> 'c) + ('c generation \<times> notice list)" where
  "launched pid child now_us (Launching outpost) =
     Inr (Starting outpost child None (Live_new now_us), [started_notice outpost pid])"
| "launched pid child now_us g = Inl (g, child)"

fun assigned ::
  "pid \<Rightarrow> 'c \<Rightarrow> u64 \<Rightarrow> 'c generation \<Rightarrow> ('c generation \<times> 'c) + ('c generation \<times> notice list)" where
  "assigned pid child now_us (SpareGiven outpost) =
     Inr (Starting outpost child (Some \<lparr>gv_fault = None\<rparr>) (Live_new now_us),
          [Assign outpost, started_notice outpost pid])"
| "assigned pid child now_us g = Inl (g, child)"

fun gen_ready :: "pid \<Rightarrow> outpost_id \<Rightarrow> 'c generation \<Rightarrow> 'c generation \<times> notice list" where
  "gen_ready pid outpost (Starting starting child spare live) =
     (if starting = outpost then (ReadyGen outpost child live, [HookInstalled pid outpost])
      else (Starting starting child spare live, []))"
| "gen_ready pid outpost g = (g, [])"

definition failed_with ::
  "pid \<Rightarrow> end_reason \<Rightarrow> outpost_id \<Rightarrow> 'c option \<Rightarrow> bool \<Rightarrow> string option \<Rightarrow> 'c gen_failure" where
  "failed_with pid reason outpost child ready fault =
     \<lparr>ga_next =
        (if ready then WaitingGen None
         else WaitingGen (Some \<lparr>un_outpost = outpost, un_reason = reason, un_started = child \<noteq> None\<rparr>)),
      ga_outpost = outpost, ga_child = child, ga_ready = ready, ga_fault = fault,
      ga_notices = (if ready then [HookRemoved pid, ended_notice outpost pid reason True] else [])\<rparr>"

fun gen_failed :: "pid \<Rightarrow> end_reason \<Rightarrow> 'c generation \<Rightarrow> 'c generation + 'c gen_failure" where
  "gen_failed pid reason (ReadyGen outpost child _) =
     Inr (failed_with pid reason outpost (Some child) True None)"
| "gen_failed pid reason (Starting outpost child spare _) =
     Inr (failed_with pid reason outpost (Some child) False (Option.bind spare gv_fault))"
| "gen_failed pid reason (Launching outpost) = Inr (failed_with pid reason outpost None False None)"
| "gen_failed pid reason (SpareGiven outpost) = Inr (failed_with pid reason outpost None False None)"
| "gen_failed pid reason (WaitingGen unready) = Inl (WaitingGen unready)"

definition removed_with ::
  "pid \<Rightarrow> end_reason option \<Rightarrow> 'c option \<Rightarrow> outpost_id option \<Rightarrow> bool \<Rightarrow> outpost_id option
    \<Rightarrow> 'c gen_removal" where
  "removed_with pid reason child outpost ready heard =
     \<lparr>gd_child = child, gd_outpost = outpost, gd_ready = ready,
      gd_notices = HookRemoved pid #
        (case reason of
           None \<Rightarrow> []
         | Some reason \<Rightarrow>
             (case heard of None \<Rightarrow> [] | Some outpost \<Rightarrow> [ended_notice outpost pid reason False])
             @ [ToApp (NotWatched pid)])\<rparr>"

fun gen_removed :: "pid \<Rightarrow> end_reason option \<Rightarrow> 'c generation \<Rightarrow> 'c gen_removal" where
  "gen_removed pid reason (ReadyGen outpost child _) =
     removed_with pid reason (Some child) (Some outpost) True (Some outpost)"
| "gen_removed pid reason (Starting outpost child _ _) =
     removed_with pid reason (Some child) (Some outpost) False (Some outpost)"
| "gen_removed pid reason (Launching outpost) =
     removed_with pid reason None (Some outpost) False None"
| "gen_removed pid reason (SpareGiven outpost) =
     removed_with pid reason None (Some outpost) False None"
| "gen_removed pid reason (WaitingGen unready) =
     removed_with pid reason None None False
       (Option.bind unready (\<lambda>u. if un_started u then Some (un_outpost u) else None))"

section \<open>A record's life\<close>

text \<open>
  The calls the owner makes on one application's record. Once the record is removed nothing is
  called on it; what the app last heard is kept beside it, for the notices are judged by it.
\<close>

datatype 'c gen_call =
    CallGiven "'c next_generation" u64
  | CallLaunched 'c u64
  | CallAssigned 'c u64
  | CallReady outpost_id
  | CallPonged u64 parked
  | CallFault string
  | CallFailed end_reason
  | CallRemoved "end_reason option"

datatype 'c life = Held "'c generation" | Removed "outpost_id option"

datatype 'c life_effect = Notify notice | ChildLeaves 'c

text \<open>The generation the app heard started and has not heard the end of.\<close>

fun heard :: "'c generation \<Rightarrow> outpost_id option" where
  "heard (Starting outpost _ _ _) = Some outpost"
| "heard (ReadyGen outpost _ _) = Some outpost"
| "heard (WaitingGen (Some u)) = (if un_started u then Some (un_outpost u) else None)"
| "heard _ = None"

fun life_heard :: "'c life \<Rightarrow> outpost_id option" where
  "life_heard (Held g) = heard g"
| "life_heard (Removed h) = h"

fun life_ready :: "'c life \<Rightarrow> bool" where
  "life_ready (Held g) = is_ready g"
| "life_ready (Removed _) = False"

fun life_child :: "'c life \<Rightarrow> 'c option" where
  "life_child (Held g) = gen_child g"
| "life_child (Removed _) = None"

abbreviation leaves :: "'c option \<Rightarrow> 'c life_effect list" where
  "leaves child \<equiv> (case child of None \<Rightarrow> [] | Some c \<Rightarrow> [ChildLeaves c])"

fun or_given_back ::
  "('c generation \<times> 'c) + ('c generation \<times> notice list) \<Rightarrow> 'c life \<times> 'c life_effect list" where
  "or_given_back (Inl (g, child)) = (Held g, [ChildLeaves child])"
| "or_given_back (Inr (g, ns)) = (Held g, map Notify ns)"

fun life_step :: "pid \<Rightarrow> 'c life \<Rightarrow> 'c gen_call \<Rightarrow> 'c life \<times> 'c life_effect list" where
  "life_step pid (Held g) (CallGiven nxt now) = map_prod Held (map Notify) (given pid nxt now g)"
| "life_step pid (Held g) (CallLaunched child now) = or_given_back (launched pid child now g)"
| "life_step pid (Held g) (CallAssigned child now) = or_given_back (assigned pid child now g)"
| "life_step pid (Held g) (CallReady outpost) = map_prod Held (map Notify) (gen_ready pid outpost g)"
| "life_step pid (Held g) (CallPonged at parked) = (Held (gen_ponged at parked g), [])"
| "life_step pid (Held g) (CallFault fault) = (Held (set_spare_fault fault g), [])"
| "life_step pid (Held g) (CallFailed reason) =
     (case gen_failed pid reason g of
        Inl g \<Rightarrow> (Held g, [])
      | Inr f \<Rightarrow> (Held (ga_next f), map Notify (ga_notices f) @ leaves (ga_child f)))"
| "life_step pid (Held g) (CallRemoved reason) =
     (let r = gen_removed pid reason g
      in (Removed (if reason = None then heard g else None),
          map Notify (gd_notices r) @ leaves (gd_child r)))"
| "life_step pid (Removed h) _ = (Removed h, [])"

text \<open>
  The owner's duty: a generation is given only while none is current (the source's
  \<open>debug_assert\<close>), and nothing is called on a record that is removed.
\<close>

fun life_ok :: "'c life \<Rightarrow> 'c gen_call \<Rightarrow> bool" where
  "life_ok (Held g) (CallGiven _ _) \<longleftrightarrow> gen_outpost g = None"
| "life_ok (Held g) _ \<longleftrightarrow> True"
| "life_ok (Removed _) _ \<longleftrightarrow> False"

section \<open>What the listener and the app hear\<close>

fun hook_told :: "'c life_effect \<Rightarrow> bool \<Rightarrow> bool" where
  "hook_told (Notify (HookInstalled _ _)) _ = True"
| "hook_told (Notify (HookRemoved _)) _ = False"
| "hook_told _ hooked = hooked"

text \<open>
  The app's side: the generation it holds to be up, or \<open>None\<close> once a notice contradicts what it
  heard before: a start while another is up, the end of one not up, a replacement of one while
  another is up, or the end of watching while one is up.
\<close>

fun hear :: "pid \<Rightarrow> lifecycle \<Rightarrow> outpost_id option \<Rightarrow> outpost_id option option" where
  "hear pid (Started outpost target) up =
     (if up = None \<and> target = pid then Some (Some outpost) else None)"
| "hear pid (Ended outpost target _ _) up =
     (if up = Some outpost \<and> target = pid then Some None else None)"
| "hear pid (Regenerated outpost _ target) up =
     (if (up = None \<or> up = Some outpost) \<and> target = pid then Some up else None)"
| "hear pid (NotWatched target) up = (if up = None \<and> target = pid then Some None else None)"

fun app_told :: "pid \<Rightarrow> 'c life_effect \<Rightarrow> outpost_id option option \<Rightarrow> outpost_id option option" where
  "app_told pid (Notify (ToApp l)) told = Option.bind told (hear pid l)"
| "app_told pid _ told = told"

lemmas life_defs =
  gen_ponged_def replaced_notices_def failed_with_def removed_with_def Let_def

lemma gen_ponged_simps [simp]:
  "is_ready (gen_ponged at parked g) = is_ready g"
  "gen_child (gen_ponged at parked g) = gen_child g"
  "heard (gen_ponged at parked g) = heard g"
  by (cases g; simp add: gen_ponged_def)+

lemma set_spare_fault_simps [simp]:
  "is_ready (set_spare_fault fault g) = is_ready g"
  "gen_child (set_spare_fault fault g) = gen_child g"
  "heard (set_spare_fault fault g) = heard g"
  by (cases "(fault, g)" rule: set_spare_fault.cases; simp)+

lemma heard_WaitingGen:
  "heard (WaitingGen u) = Option.bind u (\<lambda>u. if un_started u then Some (un_outpost u) else None)"
  by (cases u) simp_all

lemma fold_leaves [simp]:
  "fold hook_told (leaves c) h = h"
  "fold (app_told pid) (leaves c) t = t"
  by (simp_all split: option.split)

text \<open>One lemma for each law, by the state and the call.\<close>

lemma life_step_hook:
  "life_ok l x \<Longrightarrow>
     life_ready (fst (life_step pid l x)) = fold hook_told (snd (life_step pid l x)) (life_ready l)"
  by (cases l; cases x; cases "case l of Held g \<Rightarrow> g | Removed _ \<Rightarrow> generation_new")
     (auto simp: life_defs split: next_generation.split option.split)

lemma life_step_app:
  "life_ok l x \<Longrightarrow>
     Some (life_heard (fst (life_step pid l x))) =
       fold (app_told pid) (snd (life_step pid l x)) (Some (life_heard l))"
  by (cases l; cases x; cases "case l of Held g \<Rightarrow> g | Removed _ \<Rightarrow> generation_new")
     (auto simp: life_defs heard_WaitingGen split: next_generation.split option.split)

interpretation lh: mirrored_machine "life_step pid" life_ok "\<lambda>_. True" life_ready hook_told
  by unfold_locales (simp_all add: life_step_hook)

interpretation la: mirrored_machine "life_step pid" life_ok "\<lambda>_. True"
    "Some \<circ> life_heard" "app_told pid"
  by unfold_locales (simp_all add: life_step_app)

text \<open>
  C22. The listener knows of a hook exactly while it is in: over any life of an application's
  record, however its generations start, fail and are replaced, what the listener was last told
  is whether the current generation is ready, and the hook of a removed record is gone.
\<close>

theorem hook_told_exact:
  assumes "run_ok (life_step pid) life_ok (Held generation_new) xs"
    and "run (life_step pid) (Held generation_new) xs = (l, es)"
  shows "fold hook_told es False = life_ready l"
  using lh.run_view [OF TrueI assms(1)] assms(2) by (simp add: generation_new_def)


section \<open>The processes\<close>

fun child_in :: "'c gen_call \<Rightarrow> 'c multiset" where
  "child_in (CallGiven (NextSpare _ (Some child)) _) = {#child#}"
| "child_in (CallLaunched child _) = {#child#}"
| "child_in (CallAssigned child _) = {#child#}"
| "child_in _ = {#}"

fun child_out :: "'c life_effect \<Rightarrow> 'c multiset" where
  "child_out (ChildLeaves child) = {#child#}"
| "child_out _ = {#}"

definition children :: "'c life \<Rightarrow> 'c multiset" where
  "children l = (case life_child l of None \<Rightarrow> {#} | Some c \<Rightarrow> {#c#})"

lemma total_notify [simp]: "total child_out (map Notify ns) = {#}"
  by (induction ns) simp_all

lemma life_step_children:
  "life_ok l x \<Longrightarrow>
     children (fst (life_step pid l x)) + total child_out (snd (life_step pid l x)) =
       children l + child_in x"
  by (cases l; cases x; cases "case l of Held g \<Rightarrow> g | Removed _ \<Rightarrow> generation_new")
     (auto simp: life_defs children_def split: next_generation.split option.split)

interpretation lc: conserving_machine "life_step pid" life_ok "\<lambda>_. True" children child_in child_out
  by unfold_locales (simp_all add: life_step_children)

text \<open>
  C26. No outpost process is lost: every process a launch reports or a spare brings is the current
  generation's, or was handed back to be ended, exactly once; a removed record keeps none.
\<close>

theorem processes_handed_back:
  assumes "run_ok (life_step pid) life_ok (Held generation_new) xs"
    and "run (life_step pid) (Held generation_new) xs = (l, es)"
  shows "children l + total child_out es = total child_in xs
    \<and> (case l of Removed _ \<Rightarrow> total child_out es = total child_in xs | Held _ \<Rightarrow> True)"
  using lc.run_conserves [OF TrueI assms(1)] assms(2)
  by (auto simp: generation_new_def children_def split: life.split)

definition short_life :: "nat gen_call list" where
  "short_life =
     [CallGiven (NextSpare 1 (Some 10)) 0, CallFault ''hook'', CallFailed Exited,
      CallGiven (NextLaunch 2) 5, CallLaunched 20 6, CallAssigned 30 7, CallReady 2,
      CallPonged 8 parked_default, CallRemoved (Some TargetExited)]"

lemma short_life_ok: "run_ok (life_step 9) life_ok (Held generation_new) short_life"
  by (simp add: short_life_def generation_new_def life_defs)

lemma short_life_removed: "fst (run (life_step 9) (Held generation_new) short_life) = Removed None"
  by (simp add: short_life_def generation_new_def life_defs)

lemma short_life_brings: "total child_in short_life = {#10, 20, 30#}"
  by (simp add: short_life_def)

theorem hook_told_exact_witness:
  "\<not> fold hook_told (snd (run (life_step 9) (Held generation_new) short_life)) False"
  using hook_told_exact [OF short_life_ok surjective_pairing] by (simp add: short_life_removed)


theorem processes_handed_back_witness:
  "total child_out (snd (run (life_step 9) (Held generation_new) short_life)) = {#10, 20, 30#}"
  using processes_handed_back [OF short_life_ok surjective_pairing]
  by (simp add: short_life_removed short_life_brings)

end
