(* ===== verification/Strings.thy ===== *)
theory Strings
  imports Main "HOL-Library.Char_ord" "HOL-Library.List_Lexorder" "HOL-Library.Multiset"
begin

text \<open>
  What the program uses of Rust's strings: splitting at a character, joining with one, and the
  lower case of ASCII text. A string is a list of characters, compared in dictionary order.
\<close>

section \<open>Splitting and joining\<close>

text \<open>\<open>str::split\<close> and \<open>str::split_once\<close> with a character, and \<open>[String]::join\<close>.\<close>

fun split_on :: "char \<Rightarrow> string \<Rightarrow> string list" where
  "split_on c [] = [[]]"
| "split_on c (x # xs) =
     (if x = c then [] # split_on c xs
      else case split_on c xs of p # ps \<Rightarrow> (x # p) # ps | [] \<Rightarrow> [[x]])"

fun split_once :: "char \<Rightarrow> string \<Rightarrow> (string \<times> string) option" where
  "split_once c [] = None"
| "split_once c (x # xs) =
     (if x = c then Some ([], xs) else map_option (apfst ((#) x)) (split_once c xs))"

fun join :: "char \<Rightarrow> string list \<Rightarrow> string" where
  "join c [] = []"
| "join c [p] = p"
| "join c (p # q # ps) = p @ c # join c (q # ps)"

lemma split_on_nonempty [simp]: "split_on c xs \<noteq> []"
  by (cases xs) (simp_all split: list.split)

lemma split_on_free: "c \<notin> set p \<Longrightarrow> split_on c p = [p]"
  by (induction p) auto

lemma split_on_parts: "p \<in> set (split_on c xs) \<Longrightarrow> c \<notin> set p"
  by (induction xs arbitrary: p) (auto split: if_splits list.splits)

lemma split_on_append: "c \<notin> set p \<Longrightarrow> split_on c (p @ c # rest) = p # split_on c rest"
  by (induction p) auto

lemma split_join:
  assumes "ps \<noteq> []" and "\<forall>p \<in> set ps. c \<notin> set p"
  shows "split_on c (join c ps) = ps"
  using assms
  by (induction ps rule: join.induct) (simp_all add: split_on_free split_on_append)

lemma join_split [simp]: "join c (split_on c xs) = xs"
proof (induction xs)
  case Nil
  then show ?case by simp
next
  case (Cons x xs)
  obtain p ps where s: "split_on c xs = p # ps" by (cases "split_on c xs") simp_all
  have "join c ((x # p) # ps) = x # join c (p # ps)" for x by (cases ps) simp_all
  moreover have "join c ([] # p # ps) = c # join c (p # ps)" by simp
  ultimately show ?case using Cons s by simp
qed

lemma split_once_Some:
  "split_once c xs = Some (a, b) \<longleftrightarrow> xs = a @ c # b \<and> c \<notin> set a"
  by (induction xs arbitrary: a b) (auto simp: Cons_eq_append_conv)

lemma split_once_append [simp]: "c \<notin> set a \<Longrightarrow> split_once c (a @ c # b) = Some (a, b)"
  by (simp add: split_once_Some)

section \<open>Lower case\<close>

definition is_ascii :: "string \<Rightarrow> bool" where
  "is_ascii s \<longleftrightarrow> (\<forall>c \<in> set s. of_char c < (128 :: nat))"

definition is_ascii_lowercase :: "char \<Rightarrow> bool" where
  "is_ascii_lowercase c \<longleftrightarrow> 97 \<le> (of_char c :: nat) \<and> (of_char c :: nat) \<le> 122"

definition is_ascii_uppercase :: "char \<Rightarrow> bool" where
  "is_ascii_uppercase c \<longleftrightarrow> 65 \<le> (of_char c :: nat) \<and> (of_char c :: nat) \<le> 90"

definition char_lower :: "char \<Rightarrow> char" where
  "char_lower c = (if is_ascii_uppercase c then char_of (of_char c + (32 :: nat)) else c)"

text \<open>\<open>str::to_lowercase\<close>, on ASCII text.\<close>

definition to_lowercase :: "string \<Rightarrow> string" where
  "to_lowercase s = map char_lower s"

lemma of_char_lower:
  "(of_char (char_lower c) :: nat) =
     (if is_ascii_uppercase c then of_char c + 32 else of_char c)"
  by (simp add: char_lower_def is_ascii_uppercase_def of_char_of)

lemma char_lower_idem [simp]: "char_lower (char_lower c) = char_lower c"
  using of_char_lower [of c] by (simp add: char_lower_def is_ascii_uppercase_def)

lemma to_lowercase_idem [simp]: "to_lowercase (to_lowercase s) = to_lowercase s"
  by (simp add: to_lowercase_def)

lemma to_lowercase_simps [simp]:
  "to_lowercase [] = []"
  "to_lowercase (c # s) = char_lower c # to_lowercase s"
  "to_lowercase (s @ t) = to_lowercase s @ to_lowercase t"
  "to_lowercase s = [] \<longleftrightarrow> s = []"
  "[] = to_lowercase s \<longleftrightarrow> s = []"
  by (auto simp: to_lowercase_def)

text \<open>A character that is no letter is its own lower case, and of no other.\<close>

lemma char_lower_other:
  assumes "\<not> is_ascii_uppercase d" and "\<not> is_ascii_lowercase d"
  shows "char_lower c = d \<longleftrightarrow> c = d"
proof (cases "is_ascii_uppercase c")
  case True
  then have "is_ascii_lowercase (char_lower c)"
    using of_char_lower [of c] by (simp add: is_ascii_uppercase_def is_ascii_lowercase_def)
  with True assms show ?thesis by auto
next
  case False
  then show ?thesis by (simp add: char_lower_def)
qed

lemma mem_to_lowercase:
  assumes "\<not> is_ascii_uppercase d" and "\<not> is_ascii_lowercase d"
  shows "d \<in> set (to_lowercase s) \<longleftrightarrow> d \<in> set s"
proof (induction s)
  case Nil
  then show ?case by simp
next
  case (Cons c s)
  then show ?case using char_lower_other [OF assms, of c] by auto
qed

lemma is_ascii_lowercase_text [simp]: "is_ascii s \<Longrightarrow> is_ascii (to_lowercase s)"
  by (auto simp: is_ascii_def to_lowercase_def of_char_lower is_ascii_uppercase_def)

end
