(* ===== verification/Gestures.thy ===== *)
theory Gestures
  imports Strings Prelude
begin

text \<open>
  Gesture identifiers (\<^verbatim>\<open>crates/verbatim-model/src/gesture.rs\<close>), the names of the keys
  (\<^verbatim>\<open>crates/verbatim-input/src/keys.rs\<close>), the lock keys (\<^verbatim>\<open>src/toggle.rs\<close> of the same crate) and the
  map of bound gestures (\<^verbatim>\<open>src/map.rs\<close>).
\<close>

type_synonym u16 = "16 word"
type_synonym u8 = "8 word"

section \<open>Gesture identifiers\<close>

datatype gesture_id = GestureId string

datatype gesture_parse_error = MissingSource string | EmptyPart string

definition gesture_parse :: "string \<Rightarrow> gesture_parse_error + gesture_id" where
  "gesture_parse raw =
     (case split_once CHR '':'' raw of
        None \<Rightarrow> Inl (MissingSource raw)
      | Some (source, keys) \<Rightarrow>
          if source = [] then Inl (MissingSource raw)
          else
            let parts = map to_lowercase (split_on CHR ''+'' keys)
            in if [] \<in> set parts then Inl (EmptyPart raw)
               else Inr (GestureId (to_lowercase source @ '':'' @ join CHR ''+'' (sort parts))))"

fun gesture_as_str :: "gesture_id \<Rightarrow> string" where
  "gesture_as_str (GestureId normalized) = normalized"

definition gesture_source :: "gesture_id \<Rightarrow> string" where
  "gesture_source g =
     (case split_once CHR '':'' (gesture_as_str g) of None \<Rightarrow> [] | Some (source, _) \<Rightarrow> source)"

section \<open>Key names\<close>

definition VERBATIM_MODIFIER_NAME :: string where
  "VERBATIM_MODIFIER_NAME = ''verbatim''"

record key_name =
  kn_vk :: u16
  kn_extended :: "bool option"

definition NAMED_KEYS :: "(string \<times> u16 \<times> bool option) list" where
  "NAMED_KEYS = [
    (''break'', 0x03, None),
    (''backspace'', 0x08, None),
    (''tab'', 0x09, None),
    (''enter'', 0x0D, Some False),
    (''numpadenter'', 0x0D, Some True),
    (''shift'', 0x10, None),
    (''control'', 0x11, None),
    (''alt'', 0x12, None),
    (''pause'', 0x13, None),
    (''capslock'', 0x14, None),
    (''escape'', 0x1B, None),
    (''space'', 0x20, None),
    (''pageup'', 0x21, Some True),
    (''numpad9'', 0x21, Some False),
    (''pagedown'', 0x22, Some True),
    (''numpad3'', 0x22, Some False),
    (''end'', 0x23, Some True),
    (''numpad1'', 0x23, Some False),
    (''home'', 0x24, Some True),
    (''numpad7'', 0x24, Some False),
    (''leftarrow'', 0x25, Some True),
    (''numpad4'', 0x25, Some False),
    (''uparrow'', 0x26, Some True),
    (''numpad8'', 0x26, Some False),
    (''rightarrow'', 0x27, Some True),
    (''numpad6'', 0x27, Some False),
    (''downarrow'', 0x28, Some True),
    (''numpad2'', 0x28, Some False),
    (''numpad5'', 0x0C, None),
    (''printscreen'', 0x2C, None),
    (''insert'', 0x2D, Some True),
    (''numpadinsert'', 0x2D, Some False),
    (''numpad0'', 0x2D, Some False),
    (''delete'', 0x2E, Some True),
    (''numpaddelete'', 0x2E, Some False),
    (''leftwindows'', 0x5B, None),
    (''rightwindows'', 0x5C, None),
    (''applications'', 0x5D, None),
    (''numpadmultiply'', 0x6A, None),
    (''numpadplus'', 0x6B, None),
    (''numpadminus'', 0x6D, None),
    (''numpaddivide'', 0x6F, None),
    (''period'', 0xBE, None),
    (''f1'', 0x70, None),
    (''f2'', 0x71, None),
    (''f3'', 0x72, None),
    (''f4'', 0x73, None),
    (''f5'', 0x74, None),
    (''f6'', 0x75, None),
    (''f7'', 0x76, None),
    (''f8'', 0x77, None),
    (''f9'', 0x78, None),
    (''f10'', 0x79, None),
    (''f11'', 0x7A, None),
    (''f12'', 0x7B, None),
    (''numlock'', 0x90, None),
    (''scrolllock'', 0x91, None),
    (''leftshift'', 0xA0, None),
    (''rightshift'', 0xA1, None),
    (''leftcontrol'', 0xA2, None),
    (''rightcontrol'', 0xA3, None),
    (''leftalt'', 0xA4, None),
    (''rightalt'', 0xA5, None),
    (''plus'', 0xBB, None)]"

definition is_digit :: "char \<Rightarrow> bool" where
  "is_digit c \<longleftrightarrow> 48 \<le> (of_char c :: nat) \<and> (of_char c :: nat) \<le> 57"

fun single_key :: "string \<Rightarrow> u16 option" where
  "single_key [c] =
     (if is_ascii_lowercase c then Some (word_of_nat (of_char c - 32))
      else if is_digit c then Some (word_of_nat (of_char c))
      else None)"
| "single_key _ = None"

definition vk_from_name :: "string \<Rightarrow> key_name option" where
  "vk_from_name name =
     (case single_key name of
        Some vk \<Rightarrow> Some \<lparr>kn_vk = vk, kn_extended = None\<rparr>
      | None \<Rightarrow>
          map_option (\<lambda>(_, vk, extended). \<lparr>kn_vk = vk, kn_extended = extended\<rparr>)
            (find (\<lambda>(key_name, _, _). key_name = name) NAMED_KEYS))"

text \<open>The run of one-character names that starts at a virtual key.\<close>

definition offset_into :: "string list \<Rightarrow> u16 \<Rightarrow> u16 \<Rightarrow> string option" where
  "offset_into names vk first =
     (if first \<le> vk \<and> unat (vk - first) < length names then Some (names ! unat (vk - first))
      else None)"

definition LETTERS :: "string list" where
  "LETTERS = map (\<lambda>c. [c]) ''abcdefghijklmnopqrstuvwxyz''"

definition DIGITS :: "string list" where
  "DIGITS = map (\<lambda>c. [c]) ''0123456789''"

definition name_from_vk :: "u16 \<Rightarrow> bool \<Rightarrow> string option" where
  "name_from_vk vk extended =
     (case find (\<lambda>(_, key_vk, key_extended).
             key_vk = vk \<and> (case key_extended of None \<Rightarrow> extended | Some e \<Rightarrow> e) = extended) NAMED_KEYS of
        Some (name, _, _) \<Rightarrow> Some name
      | None \<Rightarrow>
          if 0x41 \<le> vk \<and> vk \<le> 0x5A then offset_into LETTERS vk 0x41
          else if 0x30 \<le> vk \<and> vk \<le> 0x39 then offset_into DIGITS vk 0x30
          else None)"

section \<open>Lock keys\<close>

datatype toggle_key = CapsLock | NumLock | ScrollLock

definition toggle_from_vk :: "u16 \<Rightarrow> toggle_key option" where
  "toggle_from_vk vk =
     (if vk = 0x14 then Some CapsLock
      else if vk = 0x90 then Some NumLock
      else if vk = 0x91 then Some ScrollLock
      else None)"

fun toggle_vk :: "toggle_key \<Rightarrow> u16" where
  "toggle_vk CapsLock = 0x14"
| "toggle_vk NumLock = 0x90"
| "toggle_vk ScrollLock = 0x91"

fun toggle_name :: "toggle_key \<Rightarrow> string" where
  "toggle_name CapsLock = ''kb:capslock''"
| "toggle_name NumLock = ''kb:numlock''"
| "toggle_name ScrollLock = ''kb:scrolllock''"

text \<open>\<open>expect\<close> on the parse of the name: no gesture would be a panic.\<close>

definition toggle_gesture :: "toggle_key \<Rightarrow> gesture_id option" where
  "toggle_gesture key = (case gesture_parse (toggle_name key) of Inl _ \<Rightarrow> None | Inr g \<Rightarrow> Some g)"

definition toggle_of_gesture :: "gesture_id \<Rightarrow> toggle_key option" where
  "toggle_of_gesture g =
     find (\<lambda>key. toggle_gesture key = Some g) [CapsLock, NumLock, ScrollLock]"

section \<open>The gesture map\<close>

record gesture_map =
  gm_bound :: "gesture_id set"
  gm_observed :: "gesture_id set"
  gm_held :: "gesture_id set"

definition GestureMap_new :: "gesture_id list \<Rightarrow> gesture_map" where
  "GestureMap_new gestures = \<lparr>gm_bound = set gestures, gm_observed = {}, gm_held = {}\<rparr>"

definition with_observed :: "gesture_id list \<Rightarrow> gesture_map \<Rightarrow> gesture_map" where
  "with_observed gestures m = m\<lparr>gm_observed := gm_observed m \<union> set gestures\<rparr>"

definition with_held :: "gesture_id list \<Rightarrow> gesture_map \<Rightarrow> gesture_map" where
  "with_held gestures m =
     m\<lparr>gm_observed := gm_observed m \<union> set gestures, gm_held := gm_held m \<union> set gestures\<rparr>"

section \<open>Identifiers are normal\<close>

lemma colon_plus_no_letters:
  "\<not> is_ascii_uppercase CHR '':''" "\<not> is_ascii_lowercase CHR '':''"
  "\<not> is_ascii_uppercase CHR ''+''" "\<not> is_ascii_lowercase CHR ''+''"
  by (simp_all add: is_ascii_uppercase_def is_ascii_lowercase_def)

lemmas mem_lower_colon = mem_to_lowercase [OF colon_plus_no_letters(1,2)]
lemmas mem_lower_plus = mem_to_lowercase [OF colon_plus_no_letters(3,4)]

lemma gesture_parse_parts:
  assumes "source \<noteq> []" and "CHR '':'' \<notin> set source"
    and "ps \<noteq> []" and "[] \<notin> set ps" and "\<forall>p \<in> set ps. CHR ''+'' \<notin> set p"
  shows "gesture_parse (source @ '':'' @ join CHR ''+'' ps) =
    Inr (GestureId (to_lowercase source @ '':'' @ join CHR ''+'' (sort (map to_lowercase ps))))"
  using assms by (auto simp: gesture_parse_def split_join Let_def)

lemma gesture_parse_Inr:
  assumes "gesture_parse raw = Inr g"
  obtains source ps where "raw = source @ '':'' @ join CHR ''+'' ps" and "source \<noteq> []"
    and "CHR '':'' \<notin> set source" and "ps \<noteq> []" and "[] \<notin> set ps"
    and "\<forall>p \<in> set ps. CHR ''+'' \<notin> set p"
proof -
  obtain source keys where s: "split_once CHR '':'' raw = Some (source, keys)" "source \<noteq> []"
      "[] \<notin> set (map to_lowercase (split_on CHR ''+'' keys))"
    using assms by (auto simp: gesture_parse_def Let_def split: option.splits if_splits)
  show thesis
  proof (rule that [of source "split_on CHR ''+'' keys"])
    show "raw = source @ '':'' @ join CHR ''+'' (split_on CHR ''+'' keys)" "CHR '':'' \<notin> set source"
      using s(1) by (simp_all add: split_once_Some)
    show "[] \<notin> set (split_on CHR ''+'' keys)" using s(3) by (auto simp: image_iff)
    show "\<forall>p \<in> set (split_on CHR ''+'' keys). CHR ''+'' \<notin> set p" using split_on_parts by blast
  qed (use s(2) in simp_all)
qed

text \<open>
  C36. A gesture's identifier is normal: what an ASCII identifier parses to is itself an identifier
  that parses to the same gesture, and whatever the order and the case its parts are written in,
  the same gesture comes out, so a binding is found however the user wrote it.
\<close>

theorem gesture_parse_normal:
  assumes "is_ascii raw" and "gesture_parse raw = Inr g"
  shows "gesture_parse (gesture_as_str g) = Inr g
    \<and> (\<exists>source ps. raw = source @ '':'' @ join CHR ''+'' ps
        \<and> (\<forall>source' ps'. to_lowercase source' = to_lowercase source \<longrightarrow>
             mset (map to_lowercase ps') = mset (map to_lowercase ps) \<longrightarrow>
             gesture_parse (source' @ '':'' @ join CHR ''+'' ps') = Inr g))"
proof -
  obtain source ps where raw: "raw = source @ '':'' @ join CHR ''+'' ps" and src: "source \<noteq> []"
      "CHR '':'' \<notin> set source" and ps: "ps \<noteq> []" "[] \<notin> set ps"
      "\<forall>p \<in> set ps. CHR ''+'' \<notin> set p"
    using gesture_parse_Inr [OF assms(2)] .
  have g: "g = GestureId (to_lowercase source @ '':'' @ join CHR ''+'' (sort (map to_lowercase ps)))"
    using assms(2) gesture_parse_parts [OF src ps] raw by simp
  have same: "gesture_parse (source' @ '':'' @ join CHR ''+'' ps') = Inr g"
    if lo: "to_lowercase source' = to_lowercase source"
      and ms: "mset (map to_lowercase ps') = mset (map to_lowercase ps)" for source' ps'
  proof -
    have src': "source' \<noteq> []" "CHR '':'' \<notin> set source'"
      using lo src mem_lower_colon [of source] mem_lower_colon [of source'] by auto
    have set': "to_lowercase ` set ps' = to_lowercase ` set ps"
      using arg_cong [OF ms, of set_mset] by simp
    have "ps' \<noteq> []" using ms ps(1) by auto
    moreover have "[] \<notin> set ps'"
    proof
      assume "[] \<in> set ps'"
      then have "[] \<in> to_lowercase ` set ps" using set' by (force simp: image_iff)
      then show False using ps(2) by (auto simp: image_iff)
    qed
    moreover have "CHR ''+'' \<notin> set p" if "p \<in> set ps'" for p
    proof -
      have "to_lowercase p \<in> to_lowercase ` set ps" using that set' by blast
      then obtain q where "q \<in> set ps" "to_lowercase p = to_lowercase q" by blast
      then show ?thesis using ps(3) mem_lower_plus [of p] mem_lower_plus [of q] by simp
    qed
    ultimately have "gesture_parse (source' @ '':'' @ join CHR ''+'' ps') =
        Inr (GestureId (to_lowercase source' @ '':'' @ join CHR ''+'' (sort (map to_lowercase ps'))))"
      using src' by (intro gesture_parse_parts) simp_all
    moreover have "sort (map to_lowercase ps') = sort (map to_lowercase ps)"
      using ms by (intro properties_for_sort) simp_all
    ultimately show ?thesis using g lo by simp
  qed
  have "gesture_parse (gesture_as_str g) = Inr g"
    using same [of "to_lowercase source" "sort (map to_lowercase ps)"] by (simp add: g multiset.map_comp o_def)
  then show ?thesis using raw same by blast
qed

theorem gesture_parse_normal_witness:
  "gesture_parse ''kb:v+verbatim'' = Inr (GestureId ''kb:v+verbatim'')"
proof -
  have p: "gesture_parse ''KB:Verbatim+V'' = Inr (GestureId ''kb:v+verbatim'')" by code_simp
  have "is_ascii ''KB:Verbatim+V''" by code_simp
  from gesture_parse_normal [OF this p] show ?thesis by simp
qed

section \<open>Key names go both ways\<close>

lemma named_keys_distinct: "distinct (map fst NAMED_KEYS)"
  by code_simp

lemma named_keys_long: "\<forall>(name, _) \<in> set NAMED_KEYS. 2 \<le> length name"
  by code_simp

lemma find_distinct:
  "distinct (map fst es) \<Longrightarrow> (n, v, e) \<in> set es \<Longrightarrow>
     find (\<lambda>(n', _, _). n' = n) es = Some (n, v, e)"
  by (induction es) (auto simp: image_iff)

lemma find_named:
  assumes "(name, vk, e) \<in> set NAMED_KEYS"
  shows "vk_from_name name = Some \<lparr>kn_vk = vk, kn_extended = e\<rparr>"
proof -
  have "2 \<le> length name" using named_keys_long assms by fastforce
  then have "single_key name = None" by (cases name rule: single_key.cases) simp_all
  then show ?thesis using find_distinct [OF named_keys_distinct assms] by (simp add: vk_from_name_def)
qed

lemma find_SomeD: "find P xs = Some x \<Longrightarrow> x \<in> set xs \<and> P x"
  by (induction xs) (auto split: if_splits)

text \<open>The keys with a twin that differs only in the extended flag, and no key of a character.\<close>

definition TWINS :: "u16 list" where
  "TWINS = [0x0D, 0x21, 0x22, 0x23, 0x24, 0x25, 0x26, 0x27, 0x28, 0x2D, 0x2E]"

lemma named_keys_twins: "list_all (\<lambda>(_, vk, e). (e \<noteq> None) = (vk \<in> set TWINS)) NAMED_KEYS"
  by code_simp

lemma named_keys_twin: "(n, vk, e) \<in> set NAMED_KEYS \<Longrightarrow> (e \<noteq> None) = (vk \<in> set TWINS)"
  by (drule bspec [OF named_keys_twins [unfolded list_all_iff]]) simp

lemma named_keys_no_chars:
  "list_all (\<lambda>(_, vk, _). \<not> (0x41 \<le> vk \<and> vk \<le> 0x5A) \<and> \<not> (0x30 \<le> vk \<and> vk \<le> 0x39)) NAMED_KEYS"
  by code_simp

text \<open>The one-character names, by their place.\<close>

lemma single_places:
  "list_all (\<lambda>i. vk_from_name (LETTERS ! i) = Some \<lparr>kn_vk = 0x41 + word_of_nat i, kn_extended = None\<rparr>
     \<and> offset_into LETTERS (0x41 + word_of_nat i) 0x41 = Some (LETTERS ! i)
     \<and> 0x41 \<le> (0x41 + word_of_nat i :: u16) \<and> 0x41 + word_of_nat i \<le> (0x5A :: u16)) [0..<26]"
  "list_all (\<lambda>i. vk_from_name (DIGITS ! i) = Some \<lparr>kn_vk = 0x30 + word_of_nat i, kn_extended = None\<rparr>
     \<and> offset_into DIGITS (0x30 + word_of_nat i) 0x30 = Some (DIGITS ! i)
     \<and> 0x30 \<le> (0x30 + word_of_nat i :: u16) \<and> 0x30 + word_of_nat i \<le> (0x39 :: u16)) [0..<10]"
  by code_simp+

lemma letter_place:
  assumes "i < 26"
  shows "vk_from_name (LETTERS ! i) = Some \<lparr>kn_vk = 0x41 + word_of_nat i, kn_extended = None\<rparr>"
    and "offset_into LETTERS (0x41 + word_of_nat i) 0x41 = Some (LETTERS ! i)"
    and "0x41 \<le> (0x41 + word_of_nat i :: u16)" and "0x41 + word_of_nat i \<le> (0x5A :: u16)"
proof -
  have "i \<in> set [0..<26]" using assms unfolding set_upt by simp
  then show "vk_from_name (LETTERS ! i) = Some \<lparr>kn_vk = 0x41 + word_of_nat i, kn_extended = None\<rparr>"
      "offset_into LETTERS (0x41 + word_of_nat i) 0x41 = Some (LETTERS ! i)"
      "0x41 \<le> (0x41 + word_of_nat i :: u16)" "0x41 + word_of_nat i \<le> (0x5A :: u16)"
    using single_places(1) unfolding list_all_iff by blast+
qed

lemma digit_place:
  assumes "i < 10"
  shows "vk_from_name (DIGITS ! i) = Some \<lparr>kn_vk = 0x30 + word_of_nat i, kn_extended = None\<rparr>"
    and "offset_into DIGITS (0x30 + word_of_nat i) 0x30 = Some (DIGITS ! i)"
    and "0x30 \<le> (0x30 + word_of_nat i :: u16)" and "0x30 + word_of_nat i \<le> (0x39 :: u16)"
proof -
  have "i \<in> set [0..<10]" using assms unfolding set_upt by simp
  then show "vk_from_name (DIGITS ! i) = Some \<lparr>kn_vk = 0x30 + word_of_nat i, kn_extended = None\<rparr>"
      "offset_into DIGITS (0x30 + word_of_nat i) 0x30 = Some (DIGITS ! i)"
      "0x30 \<le> (0x30 + word_of_nat i :: u16)" "0x30 + word_of_nat i \<le> (0x39 :: u16)"
    using single_places(2) unfolding list_all_iff by blast+
qed

lemma char_counts: "length LETTERS = 26" "length DIGITS = 10"
  by code_simp+

lemma chars_between:
  "list_all (\<lambda>n. [char_of n] = LETTERS ! (n - 97)) [97..<123]"
  "list_all (\<lambda>n. [char_of n] = DIGITS ! (n - 48)) [48..<58]"
  by code_simp+

lemma single_key_place:
  assumes "single_key name = Some vk"
  shows "(\<exists>i<26. name = LETTERS ! i) \<or> (\<exists>i<10. name = DIGITS ! i)"
proof -
  from assms obtain c where c: "name = [c]" by (cases name rule: single_key.cases) simp_all
  let ?n = "of_char c :: nat"
  from assms c consider "97 \<le> ?n" "?n \<le> 122" | "48 \<le> ?n" "?n \<le> 57"
    by (auto simp: is_ascii_lowercase_def is_digit_def split: if_splits)
  then show ?thesis
  proof cases
    case 1
    then have "?n \<in> set [97..<123]" unfolding set_upt by simp
    then have "[char_of ?n] = LETTERS ! (?n - 97)" using chars_between(1) by (auto simp only: list_all_iff)
    then have "name = LETTERS ! (?n - 97)" using c by simp
    moreover have "?n - 97 < 26" using 1 by simp
    ultimately show ?thesis by blast
  next
    case 2
    then have "?n \<in> set [48..<58]" unfolding set_upt by simp
    then have "[char_of ?n] = DIGITS ! (?n - 48)" using chars_between(2) by (auto simp only: list_all_iff)
    then have "name = DIGITS ! (?n - 48)" using c by simp
    moreover have "?n - 48 < 10" using 2 by simp
    ultimately show ?thesis by blast
  qed
qed

lemma name_from_vk_char:
  assumes "0x41 \<le> vk \<and> vk \<le> 0x5A \<or> 0x30 \<le> vk \<and> vk \<le> 0x39"
  shows "name_from_vk vk e =
    (if 0x41 \<le> vk \<and> vk \<le> 0x5A then offset_into LETTERS vk 0x41 else offset_into DIGITS vk 0x30)"
proof -
  have "find (\<lambda>(_, key_vk, key_extended).
      key_vk = vk \<and> (case key_extended of None \<Rightarrow> e | Some x \<Rightarrow> x) = e) NAMED_KEYS = None"
    using named_keys_no_chars assms by (fastforce simp: find_None_iff list_all_iff)
  then show ?thesis using assms by (auto simp: name_from_vk_def)
qed

lemma name_of_single_back:
  assumes "single_key name = Some vk" and "vk_from_name name = Some k"
  shows "name_from_vk (kn_vk k) e = Some name"
proof -
  have low: "\<not> (0x41 :: u16) \<le> w" if "w \<le> 0x39" for w
    using that by (simp add: word_le_nat_alt)
  from single_key_place [OF assms(1)] show ?thesis
  proof (elim disjE exE conjE)
    fix i :: nat assume i: "i < 26" and "name = LETTERS ! i"
    then show ?thesis
      using assms(2) letter_place [OF i] by (auto simp: name_from_vk_char)
  next
    fix i :: nat assume i: "i < 10" and "name = DIGITS ! i"
    then show ?thesis
      using assms(2) digit_place [OF i] low by (auto simp: name_from_vk_char)
  qed
qed

lemma name_of_named_back:
  assumes "(name, vk, x) \<in> set NAMED_KEYS" and "x = None \<or> x = Some e"
  shows "\<exists>name'. name_from_vk vk e = Some name' \<and> (name', vk, x) \<in> set NAMED_KEYS"
proof -
  let ?P = "\<lambda>(_, key_vk, key_extended).
    key_vk = vk \<and> (case key_extended of None \<Rightarrow> e | Some y \<Rightarrow> y) = e"
  have "?P (name, vk, x)" using assms(2) by (auto split: option.split)
  then have "find ?P NAMED_KEYS \<noteq> None"
    using assms(1) unfolding find_None_iff by blast
  then obtain name' vk' x' where f: "find ?P NAMED_KEYS = Some (name', vk', x')"
    by (metis not_None_eq prod_cases3)
  then have m: "(name', vk', x') \<in> set NAMED_KEYS" "vk' = vk" "x' = None \<or> x' = Some e"
    using find_SomeD [OF f] by (auto split: option.splits)
  have "(x = None) = (x' = None)"
    using named_keys_twin [OF assms(1)] named_keys_twin [OF m(1)] m(2) by blast
  then have "x' = x" using assms(2) m(3) by auto
  then show ?thesis using f m by (auto simp: name_from_vk_def)
qed

lemma name_of_vk_back:
  assumes "vk_from_name name = Some k" and "kn_extended k = None \<or> kn_extended k = Some e"
  shows "\<exists>name'. name_from_vk (kn_vk k) e = Some name' \<and> vk_from_name name' = Some k"
proof (cases "single_key name")
  case None
  then obtain n vk x where "find (\<lambda>(n, _, _). n = name) NAMED_KEYS = Some (n, vk, x)"
      "k = \<lparr>kn_vk = vk, kn_extended = x\<rparr>"
    using assms(1) by (auto simp: vk_from_name_def)
  then have "(name, vk, x) \<in> set NAMED_KEYS" "k = \<lparr>kn_vk = vk, kn_extended = x\<rparr>"
    using find_SomeD by fastforce+
  with name_of_named_back [of name vk x e] assms(2) show ?thesis using find_named by fastforce
next
  case (Some vk)
  then show ?thesis using name_of_single_back assms(1) by blast
qed

lemma offset_into_vk:
  assumes "offset_into names vk first = Some name"
  obtains i where "i < length names" "name = names ! i" "vk = first + word_of_nat i"
  using assms by (force simp: offset_into_def split: if_splits)

lemma vk_of_name_back:
  assumes "name_from_vk vk extended = Some name"
  shows "\<exists>k. vk_from_name name = Some k \<and> kn_vk k = vk
    \<and> (kn_extended k = None \<or> kn_extended k = Some extended)"
proof (cases "find (\<lambda>(_, key_vk, key_extended).
    key_vk = vk \<and> (case key_extended of None \<Rightarrow> extended | Some y \<Rightarrow> y) = extended) NAMED_KEYS")
  case (Some entry)
  then obtain x where "(name, vk, x) \<in> set NAMED_KEYS" "x = None \<or> x = Some extended"
    using assms find_SomeD [OF Some] by (cases entry) (auto simp: name_from_vk_def split: option.splits)
  then show ?thesis using find_named by auto
next
  case None
  then consider "offset_into LETTERS vk 0x41 = Some name" | "offset_into DIGITS vk 0x30 = Some name"
    using assms by (auto simp: name_from_vk_def split: if_splits)
  then show ?thesis
  proof cases
    case 1
    then obtain i where "i < 26" "name = LETTERS ! i" "vk = 0x41 + word_of_nat i"
      by (rule offset_into_vk) (simp add: char_counts)
    then show ?thesis using letter_place by simp
  next
    case 2
    then obtain i where "i < 10" "name = DIGITS ! i" "vk = 0x30 + word_of_nat i"
      by (rule offset_into_vk) (simp add: char_counts)
    then show ?thesis using digit_place by simp
  qed
qed

text \<open>
  Key names go both ways: the name given to a key resolves to that key, with an extended flag
  that matches; and what a name resolves to has a name for each flag it matches, which resolves
  to the same key. (Two names share a key, numpad insert and numpad 0, and the first is given.)
\<close>

theorem key_names_roundtrip:
  "(name_from_vk vk extended = Some name \<longrightarrow>
      (\<exists>k. vk_from_name name = Some k \<and> kn_vk k = vk
        \<and> (kn_extended k = None \<or> kn_extended k = Some extended)))
   \<and> (vk_from_name name' = Some k \<longrightarrow> kn_extended k = None \<or> kn_extended k = Some e \<longrightarrow>
      (\<exists>name''. name_from_vk (kn_vk k) e = Some name'' \<and> vk_from_name name'' = Some k))"
  using vk_of_name_back [of vk extended name] name_of_vk_back [of name' k e] by blast

theorem key_names_roundtrip_witness:
  "\<exists>name. name_from_vk 0x2D False = Some name
     \<and> vk_from_name name = Some \<lparr>kn_vk = 0x2D, kn_extended = Some False\<rparr>"
proof -
  have "vk_from_name ''numpad0'' = Some \<lparr>kn_vk = 0x2D, kn_extended = Some False\<rparr>" by code_simp
  with key_names_roundtrip
    [of 0 False "[]" "''numpad0''" "\<lparr>kn_vk = 0x2D, kn_extended = Some False\<rparr>" False]
  show ?thesis by simp
qed

section \<open>Lock keys\<close>

lemma toggle_roundtrip:
  "toggle_from_vk (toggle_vk key) = Some key"
  "toggle_from_vk vk = Some key \<Longrightarrow> toggle_vk key = vk"
  by (cases key; simp add: toggle_from_vk_def split: if_splits)+

text \<open>The three names parse, so the \<open>expect\<close> never panics, and the gesture says which lock it is.\<close>

lemma toggle_gesture_of: "\<exists>g. toggle_gesture key = Some g \<and> toggle_of_gesture g = Some key"
proof -
  have "toggle_gesture CapsLock = Some (GestureId ''kb:capslock'')"
       "toggle_gesture NumLock = Some (GestureId ''kb:numlock'')"
       "toggle_gesture ScrollLock = Some (GestureId ''kb:scrolllock'')"
    by code_simp+
  then show ?thesis by (cases key) (simp_all add: toggle_of_gesture_def)
qed

end
