(* ===== verification/Key_Decisions.thy ===== *)
theory Key_Decisions
  imports Gestures BTree "HOL-Library.Product_Lexorder"
begin

text \<open>
  The keyboard decision machine (\<^verbatim>\<open>crates/verbatim-input/src/state.rs\<close>): what the hook does with each
  key transition. It passes it to the application, swallows it, holds a caret key back for its
  caret to be read, or defers a transition behind one held back.
\<close>

section \<open>The configuration and the inputs\<close>

record decision_config =
  dc_caps_lock :: bool
  dc_insert :: bool
  dc_numpad_insert :: bool
  dc_share_modifier :: bool
  dc_multi_press_timeout :: duration
  dc_interrupt_for_characters :: bool
  dc_interrupt_for_enter :: bool

definition DEFAULT_MULTI_PRESS_TIMEOUT :: duration where
  "DEFAULT_MULTI_PRESS_TIMEOUT = from_millis 500"

definition config_default :: decision_config where
  "config_default =
     \<lparr>dc_caps_lock = True, dc_insert = True, dc_numpad_insert = True, dc_share_modifier = False,
      dc_multi_press_timeout = DEFAULT_MULTI_PRESS_TIMEOUT,
      dc_interrupt_for_characters = True, dc_interrupt_for_enter = True\<rparr>"

record raised_gesture =
  rg_gesture :: gesture_id
  rg_repeat :: u8

record key_event =
  ke_vk :: u16
  ke_scan_code :: u32
  ke_extended :: bool
  ke_injected :: bool
  ke_pressed :: bool

datatype key_speech_effect = CancelSpeech | TogglePause

datatype key_source = User | Own

datatype hold_permit = NoPermit | DeferPermit | HoldAndDefer

record key_input =
  ki_event :: key_event
  ki_now :: u64
  ki_num_lock :: bool
  ki_source :: key_source
  ki_permit :: hold_permit
  ki_may_mask :: bool

section \<open>The decision\<close>

datatype verdict = Pass | Swallow | Hold u32 | Defer u32

datatype press_report = NothingReported | Translated | TranslatedOrPassed

record decision =
  de_verdict :: verdict
  de_emitted :: "raised_gesture option"
  de_speech :: "key_speech_effect option"
  de_shared_modifier :: bool
  de_observed :: "raised_gesture option"
  de_typing :: press_report
  de_toggle :: "toggle_key option"
  de_mask :: "(u32 \<times> u32) option"

definition decision_pass :: decision where
  "decision_pass =
     \<lparr>de_verdict = Pass, de_emitted = None, de_speech = None, de_shared_modifier = False,
      de_observed = None, de_typing = NothingReported, de_toggle = None, de_mask = None\<rparr>"

definition pass_observed :: "gesture_id \<Rightarrow> decision" where
  "pass_observed g = decision_pass\<lparr>de_observed := Some \<lparr>rg_gesture = g, rg_repeat = 0\<rparr>\<rparr>"

definition pass_shared_modifier :: decision where
  "pass_shared_modifier = decision_pass\<lparr>de_shared_modifier := True\<rparr>"

definition decision_swallow :: decision where
  "decision_swallow = decision_pass\<lparr>de_verdict := Swallow\<rparr>"

definition swallow_emit :: "raised_gesture \<Rightarrow> decision" where
  "swallow_emit emitted = decision_pass\<lparr>de_verdict := Swallow, de_emitted := Some emitted\<rparr>"

section \<open>The keys\<close>

abbreviation VK_CAPITAL :: u16 where "VK_CAPITAL \<equiv> 0x14"
abbreviation VK_INSERT :: u16 where "VK_INSERT \<equiv> 0x2D"
abbreviation VK_RETURN :: u16 where "VK_RETURN \<equiv> 0x0D"
abbreviation VK_SPACE :: u16 where "VK_SPACE \<equiv> 0x20"
abbreviation VK_MASK :: u16 where "VK_MASK \<equiv> 0xFF"

definition is_shift :: "u16 \<Rightarrow> bool" where
  "is_shift vk \<longleftrightarrow> vk \<in> {0x10, 0xA0, 0xA1}"

definition generic_modifier_name :: "u16 \<Rightarrow> string option" where
  "generic_modifier_name vk =
     (if vk \<in> {0x11, 0xA2, 0xA3} then Some ''control''
      else if vk \<in> {0x10, 0xA0, 0xA1} then Some ''shift''
      else if vk \<in> {0x12, 0xA4, 0xA5} then Some ''alt''
      else if vk \<in> {0x5B, 0x5C} then Some ''leftwindows''
      else None)"

definition is_normal_modifier :: "u16 \<Rightarrow> bool" where
  "is_normal_modifier vk \<longleftrightarrow> generic_modifier_name vk \<noteq> None"

definition is_numpad_operator :: "u16 \<Rightarrow> bool" where
  "is_numpad_operator vk \<longleftrightarrow> vk \<in> {0x6A, 0x6B, 0x6D, 0x6F}"

definition may_edit :: "u16 \<Rightarrow> bool" where
  "may_edit vk \<longleftrightarrow>
     \<not> is_normal_modifier vk \<and> toggle_from_vk vk = None
     \<and> \<not> (vk \<in> {0x13, 0x2C, 0x5F} \<or> 0xA6 \<le> vk \<and> vk \<le> 0xB7)"

definition since :: "u64 \<Rightarrow> u64 \<Rightarrow> duration" where
  "since earlier now = from_micros (sat_sub now earlier)"

type_synonym key_code = "u16 \<times> bool"

record key_down =
  kd_reached :: bool
  kd_swallowed_gesture :: bool

definition key_down_default :: key_down where
  "key_down_default = \<lparr>kd_reached = False, kd_swallowed_gesture = False\<rparr>"

record waiting =
  wt_place :: u32
  wt_transition :: "(u16 \<times> bool) option"

datatype key_role = Modifier | Named string | Unnamed

section \<open>The life of a lone tap of the modifier\<close>

datatype lone_modifier =
    Idle
  | HeldAlone key_code
  | TapPending key_code u64
  | PassingThrough

fun hands_press_to_os :: "lone_modifier \<Rightarrow> key_code \<Rightarrow> u64 \<Rightarrow> duration \<Rightarrow> bool" where
  "hands_press_to_os PassingThrough key now timeout \<longleftrightarrow> True"
| "hands_press_to_os (TapPending tapped released) key now timeout \<longleftrightarrow>
     tapped = key \<and> since released now < timeout"
| "hands_press_to_os _ key now timeout \<longleftrightarrow> False"

definition after_press :: "key_code \<Rightarrow> bool \<Rightarrow> key_role \<Rightarrow> lone_modifier" where
  "after_press key hands_to_os role =
     (if hands_to_os then PassingThrough
      else if role = Modifier then HeldAlone key
      else Idle)"

fun after_release :: "lone_modifier \<Rightarrow> key_code \<Rightarrow> u64 \<Rightarrow> lone_modifier" where
  "after_release PassingThrough key now = Idle"
| "after_release (HeldAlone candidate) key now =
     (if candidate = key then TapPending key now else HeldAlone candidate)"
| "after_release (TapPending candidate released) key now =
     (if candidate = key then TapPending key now else TapPending candidate released)"
| "after_release Idle key now = Idle"

section \<open>The machine\<close>

record decision_machine =
  dm_config :: decision_config
  dm_map :: gesture_map
  dm_held_modifiers :: "(key_code, unit) btree"
  dm_keys_down :: "(key_code, key_down) btree"
  dm_lone_modifier :: lone_modifier
  dm_last_gesture :: "(gesture_id \<times> u64) option"
  dm_repeat_count :: u8
  dm_line :: "waiting list"
  dm_last_place :: u32

definition DecisionMachine_new :: "decision_config \<Rightarrow> gesture_map \<Rightarrow> decision_machine" where
  "DecisionMachine_new config m =
     \<lparr>dm_config = config, dm_map = m, dm_held_modifiers = bt_empty, dm_keys_down = bt_empty,
      dm_lone_modifier = Idle, dm_last_gesture = None, dm_repeat_count = 0, dm_line = [],
      dm_last_place = 0\<rparr>"

definition key_of :: "key_event \<Rightarrow> key_code" where
  "key_of event = (ke_vk event, ke_extended event)"

definition down_entry :: "key_code \<Rightarrow> decision_machine \<Rightarrow> key_down" where
  "down_entry key m = (case bt_get (dm_keys_down m) key of None \<Rightarrow> key_down_default | Some d \<Rightarrow> d)"

definition queue_transition :: "(u16 \<times> bool) option \<Rightarrow> decision_machine \<Rightarrow> decision_machine \<times> u32" where
  "queue_transition transition m =
     (let place = (if dm_last_place m = - 1 then 1 else dm_last_place m + 1)
      in (m\<lparr>dm_last_place := place,
            dm_line := dm_line m @ [\<lparr>wt_place = place, wt_transition = transition\<rparr>]\<rparr>, place))"

definition passed_on :: "u32 \<Rightarrow> decision_machine \<Rightarrow> decision_machine" where
  "passed_on place m =
     (if \<forall>w \<in> set (dm_line m). wt_place w \<noteq> place then m
      else m\<lparr>dm_line := tl (dropWhile (\<lambda>w. wt_place w \<noteq> place) (dm_line m))\<rparr>)"

definition has_outstanding :: "decision_machine \<Rightarrow> bool" where
  "has_outstanding m \<longleftrightarrow> dm_line m \<noteq> []"

definition deferred_transitions :: "decision_machine \<Rightarrow> (u16 \<times> bool) list" where
  "deferred_transitions m = List.map_filter wt_transition (dm_line m)"

definition is_verbatim_modifier :: "decision_config \<Rightarrow> key_code \<Rightarrow> bool" where
  "is_verbatim_modifier config key \<longleftrightarrow>
     (let (vk, extended) = key
      in dc_caps_lock config \<and> vk = VK_CAPITAL
         \<or> dc_insert config \<and> vk = VK_INSERT \<and> extended
         \<or> dc_numpad_insert config \<and> vk = VK_INSERT \<and> \<not> extended)"

definition role_of :: "key_code \<Rightarrow> bool \<Rightarrow> decision_machine \<Rightarrow> key_role" where
  "role_of key hands_to_os m =
     (if \<not> hands_to_os \<and> is_verbatim_modifier (dm_config m) key then Modifier
      else case name_from_vk (fst key) (snd key) of Some name \<Rightarrow> Named name | None \<Rightarrow> Unnamed)"

definition modifier_part :: "key_code \<Rightarrow> decision_machine \<Rightarrow> key_code \<Rightarrow> string option" where
  "modifier_part current_key m key =
     (if key = current_key then None
      else if is_verbatim_modifier (dm_config m) key then Some VERBATIM_MODIFIER_NAME
      else generic_modifier_name (fst key))"

definition build_gesture :: "key_code \<Rightarrow> string \<Rightarrow> decision_machine \<Rightarrow> gesture_id option" where
  "build_gesture current_key main_name m =
     (let parts = List.map_filter (modifier_part current_key m) (bt_keys (dm_held_modifiers m))
                  @ [main_name]
      in case gesture_parse (''kb:'' @ join CHR ''+'' parts) of Inl _ \<Rightarrow> None | Inr g \<Rightarrow> Some g)"

definition count_press ::
  "gesture_id \<Rightarrow> key_code \<Rightarrow> u64 \<Rightarrow> decision_machine \<Rightarrow> decision_machine \<times> u8" where
  "count_press g key now m =
     (if kd_swallowed_gesture (down_entry key m) then (m, dm_repeat_count m)
      else
        let n = (case dm_last_gesture m of
                   Some (prev, at) \<Rightarrow>
                     if prev = g \<and> since at now < dc_multi_press_timeout (dm_config m)
                     then sat_succ (dm_repeat_count m) else 0
                 | None \<Rightarrow> 0)
        in (m\<lparr>dm_repeat_count := n, dm_last_gesture := Some (g, now)\<rparr>, n))"

definition set_swallowed :: "key_code \<Rightarrow> decision_machine \<Rightarrow> decision_machine" where
  "set_swallowed key m =
     m\<lparr>dm_keys_down := bt_put key (down_entry key m\<lparr>kd_swallowed_gesture := True\<rparr>) (dm_keys_down m)\<rparr>"

section \<open>What a press does to speech\<close>

definition is_typed_character :: "key_event \<Rightarrow> decision_machine \<Rightarrow> bool" where
  "is_typed_character event m \<longleftrightarrow>
     (let vk = ke_vk event in
      \<not> is_verbatim_modifier (dm_config m) (key_of event)
      \<and> (let modifiers_allow = list_all (\<lambda>(held, _). is_shift held) (bt_keys (dm_held_modifiers m));
             character_key =
               vk = VK_SPACE \<or> 0x30 \<le> vk \<and> vk \<le> 0x39 \<or> 0x41 \<le> vk \<and> vk \<le> 0x5A
               \<or> 0xBA \<le> vk \<and> vk \<le> 0xC0 \<or> 0xDB \<le> vk \<and> vk \<le> 0xDF \<or> vk = 0xE2;
             lock_key = vk \<in> {0x14, 0x90, 0x91}
         in lock_key \<or> character_key \<and> modifiers_allow))"

definition speech_effect :: "key_event \<Rightarrow> decision_machine \<Rightarrow> key_speech_effect option" where
  "speech_effect event m =
     (let vk = ke_vk event; config = dm_config m in
      if ke_extended event \<and> 0xAD \<le> vk \<and> vk \<le> 0xAF \<or> vk = VK_MASK then None
      else if \<not> dc_interrupt_for_characters config \<and> (is_shift vk \<or> is_typed_character event m) then None
      else if \<not> dc_interrupt_for_enter config \<and> vk = VK_RETURN then None
      else if is_shift vk then
        (if bt_get (dm_held_modifiers m) (key_of event) \<noteq> None then None else Some TogglePause)
      else Some CancelSpeech)"

section \<open>The press and the release\<close>

text \<open>A press that completes no bound gesture.\<close>

definition press_unbound ::
  "key_event \<Rightarrow> bool \<Rightarrow> key_role \<Rightarrow> gesture_id option \<Rightarrow> decision_machine
    \<Rightarrow> decision_machine \<times> decision" where
  "press_unbound event hands_to_os role gesture m =
     (let key = key_of event;
          share = dc_share_modifier (dm_config m);
          m = (if role \<noteq> Modifier \<and> \<not> is_normal_modifier (ke_vk event)
               then m\<lparr>dm_last_gesture := None\<rparr> else m)
      in if role = Modifier then
           (if share then (m, pass_shared_modifier) else (set_swallowed key m, decision_swallow))
         else if hands_to_os \<and> share then (m, pass_shared_modifier)
         else (m, case gesture of
                    Some g \<Rightarrow> if g \<in> gm_observed (dm_map m) then pass_observed g else decision_pass
                  | None \<Rightarrow> decision_pass))"

text \<open>A press of a key with a name: the chord it completes, and what becomes of it.\<close>

definition press_named ::
  "key_event \<Rightarrow> u64 \<Rightarrow> bool \<Rightarrow> key_role \<Rightarrow> string \<Rightarrow> decision_machine
    \<Rightarrow> decision_machine \<times> decision" where
  "press_named event now hands_to_os role main_name m =
     (let key = key_of event;
          m = (if role = Modifier \<or> is_normal_modifier (ke_vk event)
               then m\<lparr>dm_held_modifiers := bt_put key () (dm_held_modifiers m)\<rparr> else m);
          gesture = build_gesture key main_name m
      in case gesture of
           Some g \<Rightarrow>
             if g \<in> gm_bound (dm_map m) then
               let (m, n) = count_press g key now m
               in (set_swallowed key m, swallow_emit \<lparr>rg_gesture = g, rg_repeat = n\<rparr>)
             else press_unbound event hands_to_os role gesture m
         | None \<Rightarrow> press_unbound event hands_to_os role gesture m)"

definition on_press ::
  "key_event \<Rightarrow> u64 \<Rightarrow> bool \<Rightarrow> decision_machine \<Rightarrow> decision_machine \<times> decision" where
  "on_press event now num_lock m =
     (let key = key_of event;
          hands_to_os =
            hands_press_to_os (dm_lone_modifier m) key now (dc_multi_press_timeout (dm_config m));
          role = role_of key hands_to_os m;
          m = m\<lparr>dm_lone_modifier := after_press key hands_to_os role\<rparr>
      in case role of
           Modifier \<Rightarrow> press_named event now hands_to_os role VERBATIM_MODIFIER_NAME m
         | Named name \<Rightarrow>
             if num_lock \<and> is_numpad_operator (ke_vk event)
             then (m\<lparr>dm_last_gesture := None\<rparr>, decision_pass)
             else press_named event now hands_to_os role name m
         | Unnamed \<Rightarrow> (m\<lparr>dm_last_gesture := None\<rparr>, decision_pass))"

definition on_release :: "key_event \<Rightarrow> u64 \<Rightarrow> decision_machine \<Rightarrow> decision_machine \<times> decision" where
  "on_release event now m =
     (let key = key_of event
      in (m\<lparr>dm_lone_modifier := after_release (dm_lone_modifier m) key now,
            dm_held_modifiers := bt_remove key (dm_held_modifiers m)\<rparr>, decision_pass))"

section \<open>The verdict\<close>

text \<open>A transition that would pass: deferred while one waits in the line and the permit lets it be.\<close>

definition pass_or_defer ::
  "key_event \<Rightarrow> key_source \<Rightarrow> hold_permit \<Rightarrow> decision_machine \<Rightarrow> decision_machine \<times> verdict" where
  "pass_or_defer event source permit m =
     (if source = User \<and> toggle_from_vk (ke_vk event) = None \<and> permit \<noteq> NoPermit \<and> dm_line m \<noteq> []
      then let (m, place) = queue_transition (Some (ke_vk event, ke_pressed event)) m in (m, Defer place)
      else (m, Pass))"

definition is_held :: "key_source \<Rightarrow> hold_permit \<Rightarrow> decision \<Rightarrow> decision_machine \<Rightarrow> bool" where
  "is_held source permit d m \<longleftrightarrow>
     source = User \<and> permit = HoldAndDefer
     \<and> (case de_observed d of None \<Rightarrow> False | Some o' \<Rightarrow> rg_gesture o' \<in> gm_held (dm_map m))"

definition set_reached :: "key_code \<Rightarrow> bool \<Rightarrow> decision_machine \<Rightarrow> decision_machine" where
  "set_reached key reached m =
     m\<lparr>dm_keys_down := bt_put key (down_entry key m\<lparr>kd_reached := reached\<rparr>) (dm_keys_down m)\<rparr>"

definition place_key ::
  "key_event \<Rightarrow> key_source \<Rightarrow> hold_permit \<Rightarrow> decision \<Rightarrow> decision_machine
    \<Rightarrow> decision_machine \<times> verdict" where
  "place_key event source permit d m =
     (let key = key_of event in
      if ke_pressed event then
        if de_verdict d = Swallow then
          (m\<lparr>dm_keys_down := bt_put key (down_entry key m) (dm_keys_down m)\<rparr>, Swallow)
        else
          let held = is_held source permit d m; m = set_reached key (\<not> held) m
          in if held then let (m, place) = queue_transition None m in (m, Hold place)
             else pass_or_defer event source permit m
      else
        let down = bt_get (dm_keys_down m) key;
            m = m\<lparr>dm_keys_down := bt_remove key (dm_keys_down m)\<rparr>
        in if (case down of None \<Rightarrow> False | Some d \<Rightarrow> \<not> kd_reached d) then (m, Swallow)
           else pass_or_defer event source permit m)"

definition report :: "key_event \<Rightarrow> key_source \<Rightarrow> decision \<Rightarrow> decision" where
  "report event source d =
     (let d = (if source = Own then d\<lparr>de_speech := None, de_observed := None\<rparr> else d);
          reaches = (case de_verdict d of Pass \<Rightarrow> True | Defer _ \<Rightarrow> True | _ \<Rightarrow> False)
      in d\<lparr>de_typing :=
             (if ke_pressed event \<and> reaches \<and> \<not> de_shared_modifier d \<and> source = User
              then if de_observed d = None \<and> may_edit (ke_vk event) then TranslatedOrPassed else Translated
              else NothingReported),
           de_toggle :=
             (if ke_pressed event \<and> de_verdict d = Pass \<and> \<not> de_shared_modifier d
              then toggle_from_vk (ke_vk event) else None)\<rparr>)"

definition reached_any :: "u16 set \<Rightarrow> decision_machine \<Rightarrow> bool" where
  "reached_any vks m \<longleftrightarrow>
     list_ex (\<lambda>key. fst key \<in> vks
       \<and> (case bt_get (dm_keys_down m) key of None \<Rightarrow> False | Some d \<Rightarrow> kd_reached d))
       (bt_keys (dm_held_modifiers m))"

definition modifiers_may_act_alone :: "decision_machine \<Rightarrow> bool" where
  "modifiers_may_act_alone m \<longleftrightarrow>
     reached_any {0x12, 0xA4, 0xA5, 0x5B, 0x5C} m
     \<or> reached_any {0x11, 0xA2, 0xA3} m \<and> reached_any {0x10, 0xA0, 0xA1} m"

definition add_mask :: "key_input \<Rightarrow> decision \<Rightarrow> decision_machine \<Rightarrow> decision_machine \<times> decision" where
  "add_mask input d m =
     (if de_emitted d \<noteq> None \<and> ki_source input = User \<and> ki_may_mask input
         \<and> modifiers_may_act_alone m
      then let (m, press) = queue_transition (Some (VK_MASK, True)) m;
               (m, release) = queue_transition (Some (VK_MASK, False)) m
           in (m, d\<lparr>de_mask := Some (press, release)\<rparr>)
      else (m, d))"

definition on_key :: "key_input \<Rightarrow> decision_machine \<Rightarrow> decision_machine \<times> decision" where
  "on_key input m =
     (let event = ki_event input;
          (m, d) = (if ke_pressed event
                    then let speech = speech_effect event m;
                             (m, d) = on_press event (ki_now input) (ki_num_lock input) m
                         in (m, d\<lparr>de_speech := speech\<rparr>)
                    else on_release event (ki_now input) m);
          (m, v) = place_key event (ki_source input) (ki_permit input) d m
      in add_mask input (report event (ki_source input) (d\<lparr>de_verdict := v\<rparr>)) m)"

section \<open>What each part of a decision changes\<close>

lemma down_entry_update [simp]:
  "down_entry k (m\<lparr>dm_lone_modifier := l\<rparr>) = down_entry k m"
  "down_entry k (m\<lparr>dm_held_modifiers := h\<rparr>) = down_entry k m"
  "down_entry k (m\<lparr>dm_last_gesture := g\<rparr>) = down_entry k m"
  "down_entry k (m\<lparr>dm_repeat_count := n\<rparr>) = down_entry k m"
  "down_entry k (m\<lparr>dm_line := ws\<rparr>) = down_entry k m"
  "down_entry k (m\<lparr>dm_last_place := p\<rparr>) = down_entry k m"
  by (simp_all add: down_entry_def)

lemmas decision_defs =
  decision_pass_def pass_observed_def pass_shared_modifier_def decision_swallow_def swallow_emit_def

text \<open>
  The frame of a press: the line is not touched, of the keys down at most the key's own mark of a
  swallowed gesture changes, and the decision passes or swallows, with a gesture emitted only when
  it swallows and one observed only when it passes.
\<close>

definition press_frame :: "key_code \<Rightarrow> decision_machine \<Rightarrow> decision_machine \<times> decision \<Rightarrow> bool" where
  "press_frame key m r \<longleftrightarrow>
     (let (m', d) = r in
      dm_config m' = dm_config m \<and> dm_map m' = dm_map m
      \<and> dm_line m' = dm_line m \<and> dm_last_place m' = dm_last_place m
      \<and> (dm_keys_down m' = dm_keys_down m
         \<or> dm_keys_down m' =
             bt_put key (down_entry key m\<lparr>kd_swallowed_gesture := True\<rparr>) (dm_keys_down m))
      \<and> (de_verdict d = Pass \<or> de_verdict d = Swallow)
      \<and> (de_emitted d \<noteq> None \<longrightarrow> de_verdict d = Swallow)
      \<and> (de_observed d \<noteq> None \<longrightarrow> de_verdict d = Pass)
      \<and> de_mask d = None)"

lemma press_unbound_frame: "press_frame (key_of e) m (press_unbound e h role g m)"
  by (auto simp: press_frame_def press_unbound_def set_swallowed_def decision_defs Let_def
      split: option.split)

lemma press_frame_start:
  assumes "press_frame key m0 r" and "dm_config m0 = dm_config m" and "dm_map m0 = dm_map m"
    and "dm_line m0 = dm_line m" and "dm_last_place m0 = dm_last_place m"
    and "dm_keys_down m0 = dm_keys_down m"
  shows "press_frame key m r"
  using assms by (simp add: press_frame_def down_entry_def)

lemma count_press_frame:
  assumes "count_press g key now m = (m', n)"
  shows "dm_config m' = dm_config m" "dm_map m' = dm_map m" "dm_line m' = dm_line m"
    "dm_last_place m' = dm_last_place m" "dm_keys_down m' = dm_keys_down m"
    "down_entry k m' = down_entry k m"
  using assms by (auto simp: count_press_def Let_def split: if_splits)

lemma press_named_frame: "press_frame (key_of e) m (press_named e now h role name m)"
proof -
  let ?m = "if role = Modifier \<or> is_normal_modifier (ke_vk e)
    then m\<lparr>dm_held_modifiers := bt_put (key_of e) () (dm_held_modifiers m)\<rparr> else m"
  let ?g = "build_gesture (key_of e) name ?m"
  have same: "dm_config ?m = dm_config m" "dm_map ?m = dm_map m" "dm_line ?m = dm_line m"
      "dm_last_place ?m = dm_last_place m" "dm_keys_down ?m = dm_keys_down m"
      "down_entry (key_of e) ?m = down_entry (key_of e) m"
    by simp_all
  show ?thesis
  proof (cases "\<exists>g. ?g = Some g \<and> g \<in> gm_bound (dm_map m)")
    case True
    then obtain g where g: "?g = Some g" "g \<in> gm_bound (dm_map m)" by blast
    obtain m' n where c: "count_press g (key_of e) now ?m = (m', n)" by fastforce
    have "press_named e now h role name m =
        (set_swallowed (key_of e) m', swallow_emit \<lparr>rg_gesture = g, rg_repeat = n\<rparr>)"
      using g c by (simp add: press_named_def Let_def)
    then show ?thesis
      using count_press_frame [OF c] same
      by (simp add: press_frame_def set_swallowed_def decision_defs)
  next
    case False
    then have "press_named e now h role name m = press_unbound e h role ?g ?m"
      by (auto simp: press_named_def Let_def split: option.split)
    then show ?thesis
      using press_frame_start [OF press_unbound_frame same(1-5)] by simp
  qed
qed

lemma on_press_frame: "press_frame (key_of e) m (on_press e now num_lock m)"
proof -
  let ?h = "hands_press_to_os (dm_lone_modifier m) (key_of e) now (dc_multi_press_timeout (dm_config m))"
  let ?m = "m\<lparr>dm_lone_modifier := after_press (key_of e) ?h (role_of (key_of e) ?h m)\<rparr>"
  have named: "press_frame (key_of e) m (press_named e now ?h role name ?m)" for role name
    by (rule press_frame_start [OF press_named_frame]) simp_all
  have pass: "press_frame (key_of e) m (?m\<lparr>dm_last_gesture := None\<rparr>, decision_pass)"
    by (simp add: press_frame_def decision_defs)
  show ?thesis
    using named pass by (auto simp: on_press_def Let_def split: key_role.split)
qed

lemma report_fields [simp]:
  "de_verdict (report e s d) = de_verdict d"
  "de_emitted (report e s d) = de_emitted d"
  "de_mask (report e s d) = de_mask d"
  "de_shared_modifier (report e s d) = de_shared_modifier d"
  by (simp_all add: report_def Let_def)

lemma queue_transition_simps [simp]:
  "dm_keys_down (fst (queue_transition t m)) = dm_keys_down m"
  "dm_held_modifiers (fst (queue_transition t m)) = dm_held_modifiers m"
  by (simp_all add: queue_transition_def Let_def)

lemma add_mask_simps [simp]:
  "dm_keys_down (fst (add_mask i d m)) = dm_keys_down m"
  "de_verdict (snd (add_mask i d m)) = de_verdict d"
  by (simp_all add: add_mask_def Let_def split_beta)

section \<open>Keys in the application\<close>

text \<open>The keys whose press reached the application, or is deferred to, and which are still down.\<close>

definition reached_keys :: "decision_machine \<Rightarrow> key_code set" where
  "reached_keys m = {k. \<exists>d. bt_get (dm_keys_down m) k = Some d \<and> kd_reached d}"

lemma reached_keys_cong: "dm_keys_down m' = dm_keys_down m \<Longrightarrow> reached_keys m' = reached_keys m"
  by (simp add: reached_keys_def)

lemma reached_keys_put:
  assumes "dm_keys_down m' = bt_put k d (dm_keys_down m)"
  shows "reached_keys m' = (if kd_reached d then insert k (reached_keys m) else reached_keys m - {k})"
  using assms by (auto simp: reached_keys_def)

lemma reached_keys_entry: "k \<in> reached_keys m \<longleftrightarrow> kd_reached (down_entry k m)"
  by (auto simp: reached_keys_def down_entry_def key_down_default_def split: option.splits)

lemma press_frame_reached:
  assumes "press_frame key m (m', d)"
  shows "reached_keys m' = reached_keys m"
proof -
  from assms consider "dm_keys_down m' = dm_keys_down m"
    | "dm_keys_down m' = bt_put key (down_entry key m\<lparr>kd_swallowed_gesture := True\<rparr>) (dm_keys_down m)"
    by (auto simp: press_frame_def)
  then show ?thesis
  proof cases
    case 1
    then show ?thesis by (rule reached_keys_cong)
  next
    case 2
    then show ?thesis using reached_keys_put [OF 2] reached_keys_entry [of key m] by auto
  qed
qed

lemma pass_or_defer_simps [simp]:
  "dm_keys_down (fst (pass_or_defer e s p m)) = dm_keys_down m"
  "snd (pass_or_defer e s p m) \<noteq> Swallow" "snd (pass_or_defer e s p m) \<noteq> Hold n"
  by (auto simp: pass_or_defer_def Let_def split_beta)

lemma pass_or_defer_result:
  "(m', v) = pass_or_defer e s p m \<Longrightarrow>
     dm_keys_down m' = dm_keys_down m \<and> v \<noteq> Swallow \<and> (\<forall>n. v \<noteq> Hold n)"
  using pass_or_defer_simps [of e s p m] by (metis fst_conv snd_conv)

text \<open>What one transition does to the keys in the application, by its verdict.\<close>

definition keys_after :: "key_event \<Rightarrow> verdict \<Rightarrow> key_code set \<Rightarrow> key_code set" where
  "keys_after e v S =
     (if ke_pressed e then
        (case v of Swallow \<Rightarrow> S | Hold _ \<Rightarrow> S - {key_of e} | _ \<Rightarrow> insert (key_of e) S)
      else S - {key_of e})"

lemma place_key_press:
  assumes "ke_pressed e" and "place_key e s p d m = (m', v)"
  shows "reached_keys m' = keys_after e v (reached_keys m)"
proof (cases "de_verdict d = Swallow")
  case True
  then have "dm_keys_down m' = bt_put (key_of e) (down_entry (key_of e) m) (dm_keys_down m)" "v = Swallow"
    using assms by (auto simp: place_key_def Let_def)
  then show ?thesis
    using reached_keys_put reached_keys_entry [of "key_of e" m] assms(1)
    by (auto simp: keys_after_def)
next
  case False
  let ?h = "is_held s p d m"
  have put: "reached_keys x = (if ?h then reached_keys m - {key_of e} else insert (key_of e) (reached_keys m))"
    if "dm_keys_down x = dm_keys_down (set_reached (key_of e) (\<not> ?h) m)" for x
    using reached_keys_put [of x "key_of e" "down_entry (key_of e) m\<lparr>kd_reached := \<not> ?h\<rparr>" m] that
    by (simp add: set_reached_def)
  show ?thesis
  proof (cases ?h)
    case True
    then have "dm_keys_down m' = dm_keys_down (set_reached (key_of e) (\<not> ?h) m)" "\<exists>n. v = Hold n"
      using assms False by (auto simp: place_key_def Let_def queue_transition_def)
    then show ?thesis using put True assms(1) by (auto simp: keys_after_def)
  next
    case unheld: False
    then have r: "(m', v) = pass_or_defer e s p (set_reached (key_of e) True m)"
      using assms False by (simp add: place_key_def Let_def)
    then have "dm_keys_down m' = dm_keys_down (set_reached (key_of e) (\<not> ?h) m)"
      and "v \<noteq> Swallow" and "v \<noteq> Hold n" for n
      using pass_or_defer_result unheld by auto
    then show ?thesis using put unheld assms(1) by (cases v) (auto simp: keys_after_def)
  qed
qed

lemma place_key_release:
  assumes "\<not> ke_pressed e" and "place_key e s p d m = (m', v)"
    and "bt_get (dm_keys_down m) (key_of e) \<noteq> None"
  shows "reached_keys m' = reached_keys m - {key_of e}"
    and "v = Swallow \<longleftrightarrow> key_of e \<notin> reached_keys m" and "v \<noteq> Hold n"
proof -
  let ?m = "m\<lparr>dm_keys_down := bt_remove (key_of e) (dm_keys_down m)\<rparr>"
  obtain d' where d': "bt_get (dm_keys_down m) (key_of e) = Some d'" using assms(3) by blast
  have r: "(m', v) = (if kd_reached d' then pass_or_defer e s p ?m else (?m, Swallow))"
    using assms(1,2) d' by (auto simp: place_key_def Let_def split: if_splits)
  then have "dm_keys_down m' = dm_keys_down ?m"
    using pass_or_defer_result by (auto split: if_splits)
  then show "reached_keys m' = reached_keys m - {key_of e}"
    by (auto simp: reached_keys_def)
  show "v = Swallow \<longleftrightarrow> key_of e \<notin> reached_keys m" "v \<noteq> Hold n"
    using r pass_or_defer_result d' by (auto simp: reached_keys_def split: if_splits)
qed

text \<open>
  The application's side: the keys it holds down, or \<open>None\<close> once it sees the release of a key it
  does not hold down. A held press is sent with its release, and a deferred transition in its turn.
\<close>

fun app_sees :: "key_input \<times> decision \<Rightarrow> key_code set option \<Rightarrow> key_code set option" where
  "app_sees (i, d) None = None"
| "app_sees (i, d) (Some S) =
     (if \<not> ke_pressed (ki_event i) \<and> de_verdict d \<noteq> Swallow \<and> key_of (ki_event i) \<notin> S then None
      else Some (keys_after (ki_event i) (de_verdict d) S))"

datatype key_call = KeyTransition key_input | PassedOn u32

fun key_step :: "decision_machine \<Rightarrow> key_call \<Rightarrow> decision_machine \<times> (key_input \<times> decision) list" where
  "key_step m (KeyTransition i) = (let (m', d) = on_key i m in (m', [(i, d)]))"
| "key_step m (PassedOn place) = (passed_on place m, [])"

text \<open>The keyboard's side: a release is of a key that went down.\<close>

fun key_ok :: "decision_machine \<Rightarrow> key_call \<Rightarrow> bool" where
  "key_ok m (KeyTransition i) \<longleftrightarrow>
     ke_pressed (ki_event i) \<or> bt_get (dm_keys_down m) (key_of (ki_event i)) \<noteq> None"
| "key_ok m (PassedOn _) \<longleftrightarrow> True"

lemma on_key_keys:
  assumes "on_key i m = (m', d)" and "key_ok m (KeyTransition i)"
  shows "app_sees (i, d) (Some (reached_keys m)) = Some (reached_keys m')"
proof -
  let ?e = "ki_event i"
  obtain m1 d1 where r: "(if ke_pressed ?e
      then let speech = speech_effect ?e m; (m, d) = on_press ?e (ki_now i) (ki_num_lock i) m
           in (m, d\<lparr>de_speech := speech\<rparr>)
      else on_release ?e (ki_now i) m) = (m1, d1)"
    by fastforce
  obtain m2 v where p: "place_key ?e (ki_source i) (ki_permit i) d1 m1 = (m2, v)" by fastforce
  have last: "reached_keys m' = reached_keys m2" "de_verdict d = v"
    using assms(1) r p add_mask_simps [of i "report ?e (ki_source i) (d1\<lparr>de_verdict := v\<rparr>)" m2]
    by (auto simp: on_key_def Let_def reached_keys_def dest!: arg_cong [of _ _ fst] arg_cong [of _ _ snd])
  show ?thesis
  proof (cases "ke_pressed ?e")
    case True
    then obtain d0 where "on_press ?e (ki_now i) (ki_num_lock i) m = (m1, d0)"
      using r by (auto simp: Let_def split: prod.splits)
    then have "reached_keys m1 = reached_keys m"
      using on_press_frame [of ?e m "ki_now i" "ki_num_lock i"] press_frame_reached by simp
    then show ?thesis using place_key_press [OF True p] last True by simp
  next
    case False
    then have m1: "dm_keys_down m1 = dm_keys_down m" "reached_keys m1 = reached_keys m"
      using r by (auto simp: on_release_def Let_def reached_keys_def)
    then have "bt_get (dm_keys_down m1) (key_of ?e) \<noteq> None" using assms(2) False by simp
    note rel = place_key_release [OF False p this]
    show ?thesis using rel last m1 False by (auto simp: keys_after_def)
  qed
qed

lemma passed_on_simps [simp]:
  "dm_keys_down (passed_on place m) = dm_keys_down m"
  "dm_last_place (passed_on place m) = dm_last_place m"
  by (simp_all add: passed_on_def)

lemma key_step_keys:
  "key_ok m x \<Longrightarrow>
     Some (reached_keys (fst (key_step m x))) = fold app_sees (snd (key_step m x)) (Some (reached_keys m))"
proof (cases x)
  case (KeyTransition i)
  obtain m' d where "on_key i m = (m', d)" by fastforce
  moreover assume "key_ok m x"
  ultimately show ?thesis using on_key_keys KeyTransition by simp
qed (simp add: reached_keys_def)

interpretation km: mirrored_machine key_step key_ok "\<lambda>_. True" "Some \<circ> reached_keys" app_sees
  by unfold_locales (simp_all add: key_step_keys)


section \<open>The shape of a decision\<close>

lemma pass_or_defer_cases:
  assumes "pass_or_defer e s p m = (m', v)"
  shows "v = Pass \<or> s = User \<and> p \<noteq> NoPermit \<and> toggle_from_vk (ke_vk e) = None \<and> (\<exists>n. v = Defer n)"
  using assms by (auto simp: pass_or_defer_def Let_def split: if_splits prod.splits)

lemma place_key_cases:
  assumes "place_key e s p d m = (m', v)" and "de_verdict d = Pass \<or> de_verdict d = Swallow"
  shows "(de_verdict d = Swallow \<longrightarrow> ke_pressed e \<longrightarrow> v = Swallow)
    \<and> (ke_pressed e \<longrightarrow> v = Swallow \<longrightarrow> de_verdict d = Swallow)
    \<and> (s = Own \<longrightarrow> v = Pass \<or> v = Swallow)
    \<and> (p = NoPermit \<longrightarrow> v = Pass \<or> v = Swallow)
    \<and> (toggle_from_vk (ke_vk e) \<noteq> None \<longrightarrow> (\<forall>n. v \<noteq> Defer n))"
  using assms
  by (auto simp: place_key_def Let_def is_held_def dest: pass_or_defer_cases
      split: if_splits option.splits prod.splits)

lemma report_more [simp]:
  "de_observed (report e s d) = (if s = Own then None else de_observed d)"
  "de_speech (report e s d) = (if s = Own then None else de_speech d)"
  "s = Own \<Longrightarrow> de_typing (report e s d) = NothingReported"
  "de_toggle (report e s d) =
     (if ke_pressed e \<and> de_verdict d = Pass \<and> \<not> de_shared_modifier d
      then toggle_from_vk (ke_vk e) else None)"
  by (auto simp: report_def Let_def)

lemma add_mask_more:
  assumes "add_mask i d m = (m', d')"
  shows "\<exists>mask. d' = d\<lparr>de_mask := mask\<rparr>
    \<and> (mask = de_mask d \<or> de_emitted d \<noteq> None \<and> ki_source i = User)"
proof (cases "de_emitted d \<noteq> None \<and> ki_source i = User \<and> ki_may_mask i \<and> modifiers_may_act_alone m")
  case True
  then show ?thesis using assms by (auto simp: add_mask_def Let_def split: prod.splits)
next
  case False
  then have "d' = d\<lparr>de_mask := de_mask d\<rparr>" using assms by (auto simp: add_mask_def)
  then show ?thesis by blast
qed

text \<open>
  C35. A decision is never contradictory: a gesture is emitted only with its key swallowed and
  observed only with its key on its way to the application; a mask follows only a gesture emitted;
  Verbatim's own keys are neither held nor deferred, do nothing to speech and report no text; with
  no permit nothing is held back; a lock key is never deferred; and a lock's new state is announced
  only when its press passes.
\<close>

theorem decision_shape:
  "let (_, d) = on_key i m; e = ki_event i in
     (de_emitted d \<noteq> None \<longrightarrow> de_verdict d = Swallow)
   \<and> (de_observed d \<noteq> None \<longrightarrow> de_verdict d \<noteq> Swallow)
   \<and> (de_mask d \<noteq> None \<longrightarrow> de_emitted d \<noteq> None)
   \<and> (ki_source i = Own \<longrightarrow> (de_verdict d = Pass \<or> de_verdict d = Swallow)
        \<and> de_speech d = None \<and> de_typing d = NothingReported \<and> de_mask d = None)
   \<and> (ki_permit i = NoPermit \<longrightarrow> de_verdict d = Pass \<or> de_verdict d = Swallow)
   \<and> (toggle_from_vk (ke_vk e) \<noteq> None \<longrightarrow> (\<forall>n. de_verdict d \<noteq> Defer n))
   \<and> (de_toggle d \<noteq> None \<longrightarrow> ke_pressed e \<and> de_verdict d = Pass)"
proof -
  let ?e = "ki_event i"
  obtain m1 d1 where r: "(if ke_pressed ?e
      then let speech = speech_effect ?e m; (m, d) = on_press ?e (ki_now i) (ki_num_lock i) m
           in (m, d\<lparr>de_speech := speech\<rparr>)
      else on_release ?e (ki_now i) m) = (m1, d1)"
    by fastforce
  have d1: "de_verdict d1 = Pass \<or> de_verdict d1 = Swallow"
      "de_emitted d1 \<noteq> None \<longrightarrow> de_verdict d1 = Swallow \<and> ke_pressed ?e"
      "de_observed d1 \<noteq> None \<longrightarrow> de_verdict d1 = Pass \<and> ke_pressed ?e" "de_mask d1 = None"
    using r on_press_frame [of ?e m "ki_now i" "ki_num_lock i"]
    by (auto simp: press_frame_def on_release_def decision_defs Let_def split: if_splits prod.splits)
  obtain m2 v where p: "place_key ?e (ki_source i) (ki_permit i) d1 m1 = (m2, v)" by fastforce
  note v = place_key_cases [OF p d1(1)]
  define d2 where "d2 = report ?e (ki_source i) (d1\<lparr>de_verdict := v\<rparr>)"
  obtain m' d where o: "on_key i m = (m', d)" by fastforce
  then have "add_mask i d2 m2 = (m', d)" using r p by (simp add: on_key_def Let_def d2_def)
  from add_mask_more [OF this] obtain mask where d: "d = d2\<lparr>de_mask := mask\<rparr>"
      "mask = de_mask d2 \<or> de_emitted d2 \<noteq> None \<and> ki_source i = User"
    by blast
  then have f: "de_verdict d = v" "de_emitted d = de_emitted d1"
      "de_observed d = (if ki_source i = Own then None else de_observed d1)"
      "ki_source i = Own \<Longrightarrow> de_speech d = None" "ki_source i = Own \<Longrightarrow> de_typing d = NothingReported"
      "de_toggle d \<noteq> None \<Longrightarrow> ke_pressed ?e \<and> v = Pass" "de_mask d = mask"
    by (simp_all add: d2_def split: if_splits)
  have mask: "de_mask d \<noteq> None \<longrightarrow> de_emitted d \<noteq> None \<and> ki_source i = User"
    using d(2) d1(4) f(2,7) by (auto simp: d2_def)
  then have own: "ki_source i = Own \<Longrightarrow> de_mask d = None" by (cases "de_mask d") auto
  show ?thesis
    unfolding o Let_def prod.case
  proof (intro conjI impI)
    show "de_emitted d \<noteq> None" if "de_mask d \<noteq> None" using that mask by blast
    show "de_verdict d = Swallow" if "de_emitted d \<noteq> None" using that f(1,2) d1(2) v by simp
    show "de_verdict d \<noteq> Swallow" if "de_observed d \<noteq> None"
      using that f(1,3) d1(3) v by (auto split: if_splits)
  qed (use f v own in \<open>auto split: if_splits\<close>)
qed

section \<open>The places in line\<close>

text \<open>
  The place of the transition numbered \<open>n\<close>, from 0: they count from 1 up to \<open>u32::MAX\<close> and
  start again at 1.
\<close>

definition place_count :: nat where
  "place_count = 2 ^ 32 - 1"

definition nth_place :: "nat \<Rightarrow> u32" where
  "nth_place n = word_of_nat (n mod place_count + 1)"

lemma unat_nth_place: "unat (nth_place n) = n mod place_count + 1"
proof -
  have "n mod place_count < place_count" by (simp add: place_count_def)
  then have "n mod place_count + 1 < 2 ^ LENGTH(32)" by (simp add: place_count_def)
  then show ?thesis by (simp only: nth_place_def unat_of_nat mod_less)
qed

lemma nth_place_nonzero [simp]: "nth_place n \<noteq> 0"
  using unat_nth_place [of n] by (metis add_eq_0_iff_both_eq_0 one_neq_zero unat_0)

lemma nth_place_Suc:
  "nth_place (Suc n) = (if nth_place n = - 1 then 1 else nth_place n + 1)"
proof (cases "n mod place_count = place_count - 1")
  case True
  then have "unat (nth_place n) = unat (- 1 :: u32)"
    using unat_nth_place [of n] by (simp add: unat_max_word place_count_def)
  then have "nth_place n = - 1" by (simp add: word_unat_eq_iff)
  moreover have "Suc n mod place_count = 0"
    using True by (simp add: mod_Suc place_count_def)
  ultimately show ?thesis by (simp add: nth_place_def)
next
  case False
  then have s: "Suc n mod place_count = Suc (n mod place_count)"
    by (auto simp: mod_Suc place_count_def)
  have "n mod place_count < place_count - 1"
    using False mod_less_divisor [of place_count n] by (simp add: place_count_def)
  then have "unat (nth_place n) \<noteq> unat (- 1 :: u32)"
    using unat_nth_place [of n] by (simp add: unat_max_word place_count_def)
  then have "nth_place n \<noteq> - 1" by auto
  then show ?thesis using s by (simp add: nth_place_def)
qed

lemma nth_place_distinct:
  assumes "n \<le> place_count"
  shows "distinct (map (\<lambda>i. nth_place (c + i)) [0..<n])"
proof -
  have "i = j" if "i \<le> j" "j < n" "nth_place (c + i) = nth_place (c + j)" for i j
  proof -
    have "(c + j) mod place_count = (c + i) mod place_count"
      using that(3) unat_nth_place [of "c + i"] unat_nth_place [of "c + j"] by simp
    then have "place_count dvd c + j - (c + i)"
      using that(1) by (intro mod_eq_dvd_iff_nat [THEN iffD1]) simp_all
    moreover have "c + j - (c + i) < place_count" using that assms by simp
    ultimately have "c + j - (c + i) = 0" using dvd_imp_le [of place_count "c + j - (c + i)"] by linarith
    then show "i = j" using that(1) by simp
  qed
  then have "inj_on (\<lambda>i. nth_place (c + i)) {0..<n}"
    by (intro inj_onI) (metis atLeastLessThan_iff nat_le_linear)
  then show ?thesis by (simp add: distinct_map)
qed

text \<open>The places in line are the last ones given out, \<open>c\<close> of them in all.\<close>

definition line_counts :: "nat \<Rightarrow> decision_machine \<Rightarrow> bool" where
  "line_counts c m \<longleftrightarrow>
     dm_last_place m = (if c = 0 then 0 else nth_place (c - 1))
     \<and> length (dm_line m) \<le> c
     \<and> map wt_place (dm_line m) =
         map (\<lambda>i. nth_place (c - length (dm_line m) + i)) [0..<length (dm_line m)]"

lemma queue_transition_counts:
  assumes "line_counts c m"
  shows "line_counts (Suc c) (fst (queue_transition t m))"
proof -
  let ?n = "length (dm_line m)"
  have place: "(if dm_last_place m = - 1 then 1 else dm_last_place m + 1) = nth_place c"
    using assms nth_place_Suc [of "c - 1"]
    by (auto simp: line_counts_def nth_place_def)
  then have q: "fst (queue_transition t m) = m\<lparr>dm_last_place := nth_place c,
      dm_line := dm_line m @ [\<lparr>wt_place = nth_place c, wt_transition = t\<rparr>]\<rparr>"
    by (simp add: queue_transition_def Let_def)
  have "?n \<le> c" using assms by (simp add: line_counts_def)
  then show ?thesis
    using assms unfolding q by (simp add: line_counts_def)
qed

lemma line_counts_cong:
  assumes "line_counts c m" and "dm_line m' = dm_line m" and "dm_last_place m' = dm_last_place m"
  shows "line_counts c m'"
  using assms by (simp add: line_counts_def)

lemma passed_on_counts:
  assumes "line_counts c m"
  shows "line_counts c (passed_on place m)"
proof -
  obtain ws where ws: "dm_line m = ws @ dm_line (passed_on place m)"
  proof (cases "\<forall>w \<in> set (dm_line m). wt_place w \<noteq> place")
    case True
    then show ?thesis using that [of "[]"] by (simp add: passed_on_def)
  next
    case False
    let ?r = "dropWhile (\<lambda>w. wt_place w \<noteq> place) (dm_line m)"
    have "?r \<noteq> []" using False by (auto simp: dropWhile_eq_Nil_conv)
    then have "dm_line m = (takeWhile (\<lambda>w. wt_place w \<noteq> place) (dm_line m) @ [hd ?r]) @ tl ?r"
      using takeWhile_dropWhile_id [of "\<lambda>w. wt_place w \<noteq> place" "dm_line m"] by simp
    moreover have "dm_line (passed_on place m) = tl ?r" using False by (auto simp: passed_on_def)
    ultimately show ?thesis using that by metis
  qed
  let ?n = "length (dm_line (passed_on place m))" and ?k = "length ws"
  have "map wt_place (dm_line (passed_on place m)) = drop ?k (map wt_place (dm_line m))"
    using ws by (metis append_eq_conv_conj drop_map)
  also have "\<dots> = map (\<lambda>i. nth_place (c - (?k + ?n) + i)) [?k..<?k + ?n]"
    using assms ws by (simp add: line_counts_def drop_map flip: length_append)
  also have "\<dots> = map (\<lambda>i. nth_place (c - ?n + i)) [0..<?n]"
    using assms arg_cong [OF ws, of length]
    by (intro nth_equalityI) (simp_all add: line_counts_def)
  finally show ?thesis
    using assms arg_cong [OF ws, of length] by (simp add: line_counts_def)
qed

lemma pass_or_defer_counts:
  assumes "line_counts c m"
  shows "\<exists>c'. line_counts c' (fst (pass_or_defer e s p m))"
  using assms queue_transition_counts [OF assms]
  by (auto simp: pass_or_defer_def Let_def split_beta)

lemma place_key_counts:
  assumes "line_counts c m"
  shows "\<exists>c'. line_counts c' (fst (place_key e s p d m))"
proof -
  have same: "line_counts c (m\<lparr>dm_keys_down := ds\<rparr>)" for ds
    by (rule line_counts_cong [OF assms]) simp_all
  have q: "\<exists>c'. line_counts c' (fst (queue_transition t (m\<lparr>dm_keys_down := ds\<rparr>)))" for t ds
    using queue_transition_counts [OF same] by blast
  show ?thesis
    using same pass_or_defer_counts [OF same] q
    by (auto simp: place_key_def set_reached_def Let_def split_beta)
qed

lemma add_mask_counts:
  assumes "line_counts c m"
  shows "\<exists>c'. line_counts c' (fst (add_mask i d m))"
  using assms queue_transition_counts [OF queue_transition_counts [OF assms]]
  by (auto simp: add_mask_def Let_def split_beta)

lemma key_step_counts:
  assumes "\<exists>c. line_counts c m"
  shows "\<exists>c. line_counts c (fst (key_step m x))"
proof (cases x)
  case (KeyTransition i)
  let ?e = "ki_event i"
  obtain c where c: "line_counts c m" using assms by blast
  obtain m1 d1 where r: "(if ke_pressed ?e
      then let speech = speech_effect ?e m; (m, d) = on_press ?e (ki_now i) (ki_num_lock i) m
           in (m, d\<lparr>de_speech := speech\<rparr>)
      else on_release ?e (ki_now i) m) = (m1, d1)"
    by fastforce
  then have "dm_line m1 = dm_line m" "dm_last_place m1 = dm_last_place m"
    using on_press_frame [of ?e m "ki_now i" "ki_num_lock i"]
    by (auto simp: press_frame_def on_release_def Let_def split: if_splits prod.splits)
  then have "line_counts c m1" by (rule line_counts_cong [OF c])
  from place_key_counts [OF this] obtain c' where
    "line_counts c' (fst (place_key ?e (ki_source i) (ki_permit i) d1 m1))"
    by blast
  from add_mask_counts [OF this] show ?thesis
    using r KeyTransition by (simp add: on_key_def Let_def split_beta)
next
  case (PassedOn place)
  then show ?thesis using assms passed_on_counts by auto
qed

interpretation kl: invariant_machine key_step "\<lambda>_ _. True" "\<lambda>m. \<exists>c. line_counts c m"
  by unfold_locales (rule key_step_counts)

text \<open>
  C34. A place in line names one transition: after any keys and any of them passed on, however
  often the counter has wrapped, no two transitions in line have the same place, none has place 0,
  and passing one on takes it and those ahead of it out of the line, and nothing else, as long as
  fewer than \<open>2^32\<close> wait.
\<close>

theorem places_name_one:
  assumes "fst (run key_step (DecisionMachine_new config gestures) xs) = m"
    and "length (dm_line m) < 2 ^ 32"
  shows "distinct (map wt_place (dm_line m)) \<and> 0 \<notin> wt_place ` set (dm_line m)
    \<and> (dm_line m = before @ w # after \<longrightarrow> dm_line (passed_on (wt_place w) m) = after)"
proof -
  have "line_counts 0 (DecisionMachine_new config gestures)"
    by (simp add: line_counts_def DecisionMachine_new_def)
  then have "\<exists>c. line_counts c (DecisionMachine_new config gestures)" by blast
  from kl.run_inv [OF this run_ok_True, of xs] obtain c where c: "line_counts c m"
    using assms(1) by blast
  have "length (dm_line m) \<le> place_count" using assms(2) by (simp add: place_count_def)
  then have dist: "distinct (map wt_place (dm_line m))"
    using c nth_place_distinct [of "length (dm_line m)" "c - length (dm_line m)"]
    by (simp add: line_counts_def)
  have "map wt_place (dm_line m) =
      map nth_place (map (\<lambda>i. c - length (dm_line m) + i) [0..<length (dm_line m)])"
    using c unfolding line_counts_def by (simp only: map_map o_def)
  then have "set (map wt_place (dm_line m)) \<subseteq> range nth_place"
    unfolding set_map [of nth_place] by (metis image_mono set_map subset_UNIV)
  then have "0 \<notin> wt_place ` set (dm_line m)" using nth_place_nonzero by fastforce
  moreover have "dm_line (passed_on (wt_place w) m) = after" if l: "dm_line m = before @ w # after"
  proof -
    have "\<forall>v \<in> set before. wt_place v \<noteq> wt_place w" using dist l by (auto simp: image_iff)
    then have "dropWhile (\<lambda>v. wt_place v \<noteq> wt_place w) (dm_line m) = w # after"
      by (simp add: l dropWhile_append2)
    then show ?thesis by (auto simp: passed_on_def l)
  qed
  ultimately show ?thesis using dist by blast
qed

end
