(* ===== verification/Key_Runs.thy ===== *)
theory Key_Runs
  imports Key_Decisions
begin

text \<open>
  What the keyboard decision machine does over whole presses: the repeat count a bound gesture
  carries, however its key is tapped and held, and the double tap that hands the Verbatim modifier
  to the operating system.
\<close>

section \<open>One transition, with nothing held back\<close>

definition transition :: "key_code \<Rightarrow> bool \<Rightarrow> u64 \<Rightarrow> key_input" where
  "transition key pressed now =
     \<lparr>ki_event = \<lparr>ke_vk = fst key, ke_scan_code = 0, ke_extended = snd key, ke_injected = False,
        ke_pressed = pressed\<rparr>,
      ki_now = now, ki_num_lock = False, ki_source = User, ki_permit = NoPermit,
      ki_may_mask = False\<rparr>"

abbreviation press :: "key_code \<Rightarrow> u64 \<Rightarrow> key_call" where
  "press key now \<equiv> KeyTransition (transition key True now)"

abbreviation release :: "key_code \<Rightarrow> u64 \<Rightarrow> key_call" where
  "release key now \<equiv> KeyTransition (transition key False now)"

lemma transition_simps [simp]:
  "key_of (ki_event (transition key pressed now)) = key"
  "ke_vk (ki_event (transition key pressed now)) = fst key"
  "ke_pressed (ki_event (transition key pressed now)) = pressed"
  "ki_now (transition key pressed now) = now"
  "ki_num_lock (transition key pressed now) = False"
  "ki_source (transition key pressed now) = User"
  "ki_permit (transition key pressed now) = NoPermit"
  "ki_may_mask (transition key pressed now) = False"
  by (simp_all add: transition_def key_of_def)

lemma add_mask_transition [simp]: "add_mask (transition key pressed now) d m = (m, d)"
  by (simp add: add_mask_def)

text \<open>What a press leaves, by the verdict of the rules on it.\<close>

lemma on_key_press:
  assumes "on_press (ki_event (transition key True now)) now False m = (m1, d)"
  shows "\<exists>d'. on_key (transition key True now) m =
      (if de_verdict d = Swallow
       then m1\<lparr>dm_keys_down := bt_put key (down_entry key m1) (dm_keys_down m1)\<rparr>
       else set_reached key True m1, d')
    \<and> de_emitted d' = de_emitted d \<and> de_verdict d' = (if de_verdict d = Swallow then Swallow else Pass)
    \<and> de_toggle d' = (if de_verdict d \<noteq> Swallow \<and> \<not> de_shared_modifier d
                      then toggle_from_vk (fst key) else None)"
  using assms
  by (auto simp: on_key_def place_key_def pass_or_defer_def is_held_def Let_def)

lemma on_key_release:
  "\<exists>d'. on_key (transition key False now) m =
      (m\<lparr>dm_lone_modifier := after_release (dm_lone_modifier m) key now,
         dm_held_modifiers := bt_remove key (dm_held_modifiers m),
         dm_keys_down := bt_remove key (dm_keys_down m)\<rparr>, d')
    \<and> de_emitted d' = None
    \<and> de_verdict d' =
        (if bt_get (dm_keys_down m) key \<noteq> None \<and> key \<notin> reached_keys m then Swallow else Pass)"
  by (auto simp: on_key_def on_release_def place_key_def pass_or_defer_def decision_defs Let_def
      reached_keys_def split: option.splits if_splits)

section \<open>Counting presses\<close>

text \<open>A key that is no modifier, and its gesture on its own.\<close>

definition plain_key :: "decision_config \<Rightarrow> key_code \<Rightarrow> gesture_id \<Rightarrow> bool" where
  "plain_key config key g \<longleftrightarrow>
     \<not> is_verbatim_modifier config key \<and> \<not> is_normal_modifier (fst key)
     \<and> (case name_from_vk (fst key) (snd key) of
          None \<Rightarrow> False | Some name \<Rightarrow> gesture_parse (''kb:'' @ name) = Inr g)"

lemma on_press_bound:
  assumes "plain_key (dm_config m) key g" and "g \<in> gm_bound (dm_map m)"
    and "dm_lone_modifier m = Idle" and "dm_held_modifiers m = bt_empty"
    and "count_press g key now m = (m', n)"
  shows "on_press (ki_event (transition key True now)) now False m =
    (set_swallowed key m', swallow_emit \<lparr>rg_gesture = g, rg_repeat = n\<rparr>)"
proof -
  obtain name where name: "name_from_vk (fst key) (snd key) = Some name"
      "gesture_parse (''kb:'' @ name) = Inr g"
    using assms(1) by (auto simp: plain_key_def split: option.splits)
  have idle: "m\<lparr>dm_lone_modifier := Idle\<rparr> = m" using assms(3) by (cases m) simp
  have "build_gesture key name m = Some g"
    using assms(4) name(2) by (simp add: build_gesture_def bt_keys_def map_filter_def)
  then show ?thesis
    using assms name(1)
    by (simp add: on_press_def role_of_def after_press_def press_named_def plain_key_def Let_def idle)
qed

text \<open>The reference count: each press from the one before it.\<close>

fun repeat_counts :: "duration \<Rightarrow> (u64 \<times> u8) option \<Rightarrow> u64 list \<Rightarrow> u8 list" where
  "repeat_counts timeout prev [] = []"
| "repeat_counts timeout prev (t # ts) =
     (let n = (case prev of
                 None \<Rightarrow> 0
               | Some (t0, n0) \<Rightarrow> if since t0 t < timeout then sat_succ n0 else 0)
      in n # repeat_counts timeout (Some (t, n)) ts)"

definition counted :: "gesture_id \<Rightarrow> (u64 \<times> u8) option \<Rightarrow> decision_machine \<Rightarrow> bool" where
  "counted g prev m \<longleftrightarrow>
     (case prev of
        None \<Rightarrow> dm_last_gesture m = None
      | Some (t, n) \<Rightarrow> dm_last_gesture m = Some (g, t) \<and> dm_repeat_count m = n)"

text \<open>With no key down, and with only the gesture's key down, its press swallowed.\<close>

definition calm :: "decision_config \<Rightarrow> gesture_map \<Rightarrow> key_code \<Rightarrow> decision_machine \<Rightarrow> bool" where
  "calm config gestures key m \<longleftrightarrow>
     dm_config m = config \<and> dm_map m = gestures \<and> dm_lone_modifier m = Idle
     \<and> dm_held_modifiers m = bt_empty \<and> bt_get (dm_keys_down m) key = None"

definition pressed_down :: "decision_config \<Rightarrow> gesture_map \<Rightarrow> key_code \<Rightarrow> decision_machine \<Rightarrow> bool" where
  "pressed_down config gestures key m \<longleftrightarrow>
     dm_config m = config \<and> dm_map m = gestures \<and> dm_lone_modifier m = Idle
     \<and> dm_held_modifiers m = bt_empty \<and> kd_swallowed_gesture (down_entry key m)"

definition emitted :: "key_input \<times> decision \<Rightarrow> u8 list" where
  "emitted x = (case de_emitted (snd x) of None \<Rightarrow> [] | Some r \<Rightarrow> [rg_repeat r])"

lemma bound_press_step:
  assumes "plain_key config key g" and "g \<in> gm_bound gestures"
    and "dm_config m = config" "dm_map m = gestures" "dm_lone_modifier m = Idle"
      "dm_held_modifiers m = bt_empty"
    and "count_press g key now m = (m1, n)"
  shows "\<exists>m' d. key_step m (press key now) = (m', [(transition key True now, d)])
    \<and> emitted (transition key True now, d) = [n] \<and> pressed_down config gestures key m'
    \<and> dm_last_gesture m' = dm_last_gesture m1 \<and> dm_repeat_count m' = dm_repeat_count m1"
proof -
  have op: "on_press (ki_event (transition key True now)) now False m =
      (set_swallowed key m1, swallow_emit \<lparr>rg_gesture = g, rg_repeat = n\<rparr>)"
    using assms by (intro on_press_bound) simp_all
  have m1: "dm_config m1 = config" "dm_map m1 = gestures" "dm_lone_modifier m1 = Idle"
      "dm_held_modifiers m1 = bt_empty"
    using assms(3-7) by (auto simp: count_press_def Let_def split: if_splits)
  from on_key_press [OF op] show ?thesis
    using m1 by (auto simp: decision_defs emitted_def pressed_down_def set_swallowed_def down_entry_def)
qed

lemma first_press:
  assumes "plain_key config key g" and "g \<in> gm_bound gestures"
    and "calm config gestures key m" and "counted g prev m"
    and "n = hd (repeat_counts (dc_multi_press_timeout config) prev [t])"
  shows "\<exists>m' d. key_step m (press key t) = (m', [(transition key True t, d)])
    \<and> emitted (transition key True t, d) = [n] \<and> pressed_down config gestures key m'
    \<and> counted g (Some (t, n)) m'"
proof -
  have "\<not> kd_swallowed_gesture (down_entry key m)"
    using assms(3) by (simp add: calm_def down_entry_def key_down_default_def)
  then have "count_press g key t m =
      (m\<lparr>dm_repeat_count := n, dm_last_gesture := Some (g, t)\<rparr>, n)"
    using assms(3-5)
    by (auto simp: count_press_def counted_def calm_def Let_def split: option.splits)
  from bound_press_step [OF assms(1,2) _ _ _ _ this] assms(3) show ?thesis
    by (auto simp: calm_def counted_def)
qed

lemma repeated_press:
  assumes "plain_key config key g" and "g \<in> gm_bound gestures"
    and "pressed_down config gestures key m" and "counted g (Some (t, n)) m"
  shows "\<exists>m' d. key_step m (press key now) = (m', [(transition key True now, d)])
    \<and> emitted (transition key True now, d) = [n] \<and> pressed_down config gestures key m'
    \<and> counted g (Some (t, n)) m'"
proof -
  have "count_press g key now m = (m, n)"
    using assms(3,4) by (simp add: count_press_def pressed_down_def counted_def)
  from bound_press_step [OF assms(1,2) _ _ _ _ this] assms(3,4) show ?thesis
    by (auto simp: pressed_down_def counted_def)
qed

lemma bt_remove_empty [simp]: "bt_remove k bt_empty = bt_empty"
  by (simp add: bt_entries_inject [symmetric])

lemma counted_release:
  assumes "pressed_down config gestures key m" and "counted g prev m"
  shows "\<exists>m' d. key_step m (release key now) = (m', [(transition key False now, d)])
    \<and> emitted (transition key False now, d) = [] \<and> calm config gestures key m' \<and> counted g prev m'"
proof -
  let ?m = "m\<lparr>dm_lone_modifier := after_release (dm_lone_modifier m) key now,
    dm_held_modifiers := bt_remove key (dm_held_modifiers m),
    dm_keys_down := bt_remove key (dm_keys_down m)\<rparr>"
  obtain d where d: "on_key (transition key False now) m = (?m, d)" "de_emitted d = None"
    using on_key_release [of key now m] by blast
  have "calm config gestures key ?m" using assms(1) by (simp add: pressed_down_def calm_def)
  moreover have "counted g prev ?m" using assms(2) by (cases prev) (auto simp: counted_def)
  ultimately show ?thesis using d by (simp add: emitted_def)
qed

text \<open>A tap: the press, the auto-repeats while the key is held, and the release, each with its time.\<close>

type_synonym tap = "u64 \<times> u64 list \<times> u64"

fun tap_calls :: "key_code \<Rightarrow> tap \<Rightarrow> key_call list" where
  "tap_calls key (t, repeats, released) =
     press key t # map (press key) repeats @ [release key released]"

definition emissions :: "(key_input \<times> decision) list \<Rightarrow> u8 list" where
  "emissions es = concat (map emitted es)"

lemma emissions_simps [simp]:
  "emissions [] = []" "emissions (e # es) = emitted e @ emissions es"
  "emissions (es @ es') = emissions es @ emissions es'"
  by (simp_all add: emissions_def)


lemma repeated_presses:
  assumes "plain_key config key g" and "g \<in> gm_bound gestures"
    and "pressed_down config gestures key m" and "counted g (Some (t, n)) m"
  shows "\<exists>m' es. run key_step m (map (press key) repeats) = (m', es)
    \<and> emissions es = replicate (length repeats) n
    \<and> pressed_down config gestures key m' \<and> counted g (Some (t, n)) m'"
  using assms(3,4)
proof (induction repeats arbitrary: m)
  case Nil
  then show ?case by simp
next
  case (Cons now repeats)
  from repeated_press [OF assms(1,2) Cons.prems, of now] obtain m1 d where
    step: "key_step m (press key now) = (m1, [(transition key True now, d)])"
      "emitted (transition key True now, d) = [n]" "pressed_down config gestures key m1"
      "counted g (Some (t, n)) m1"
    by blast
  from Cons.IH [OF step(3,4)] step(1,2) show ?case by (auto simp: run.simps)
qed

lemma tap_run:
  assumes "plain_key config key g" and "g \<in> gm_bound gestures"
    and "calm config gestures key m" and "counted g prev m"
    and "n = hd (repeat_counts (dc_multi_press_timeout config) prev [t])"
  shows "\<exists>m' es. run key_step m (tap_calls key (t, repeats, released)) = (m', es)
    \<and> emissions es = replicate (Suc (length repeats)) n
    \<and> calm config gestures key m' \<and> counted g (Some (t, n)) m'"
proof -
  obtain m1 d where one: "key_step m (press key t) = (m1, [(transition key True t, d)])"
      "emitted (transition key True t, d) = [n]" "pressed_down config gestures key m1"
      "counted g (Some (t, n)) m1"
    using first_press [OF assms] by blast
  obtain m2 es2 where two: "run key_step m1 (map (press key) repeats) = (m2, es2)"
      "emissions es2 = replicate (length repeats) n" "pressed_down config gestures key m2"
      "counted g (Some (t, n)) m2"
    using repeated_presses [OF assms(1,2) one(3,4)] by blast
  obtain m3 d3 where three: "key_step m2 (release key released) = (m3, [(transition key False released, d3)])"
      "emitted (transition key False released, d3) = []" "calm config gestures key m3"
      "counted g (Some (t, n)) m3"
    using counted_release [OF two(3,4)] by blast
  have "run key_step m1 (map (press key) repeats @ [release key released]) =
      (m3, es2 @ [(transition key False released, d3)])"
    using two(1) three(1) run_append [of key_step m1 "map (press key) repeats" "[release key released]"]
    by (simp add: prod_eq_iff)
  then have "run key_step m (tap_calls key (t, repeats, released)) =
      (m3, (transition key True t, d) # es2 @ [(transition key False released, d3)])"
    using one(1) by (simp add: run.simps)
  then show ?thesis using one(2) two(2) three by auto
qed

lemma taps_run:
  assumes "plain_key config key g" and "g \<in> gm_bound gestures"
    and "calm config gestures key m" and "counted g prev m"
  shows "emissions (snd (run key_step m (concat (map (tap_calls key) taps)))) =
    concat (map2 (\<lambda>(_, repeats, _) n. replicate (Suc (length repeats)) n) taps
      (repeat_counts (dc_multi_press_timeout config) prev (map fst taps)))"
  using assms(3,4)
proof (induction taps arbitrary: m prev)
  case Nil
  then show ?case by simp
next
  case (Cons tap taps)
  obtain t repeats released where tap: "tap = (t, repeats, released)" by (cases tap)
  let ?n = "hd (repeat_counts (dc_multi_press_timeout config) prev [t])"
  obtain m' es where r: "run key_step m (tap_calls key (t, repeats, released)) = (m', es)"
      "emissions es = replicate (Suc (length repeats)) ?n"
      "calm config gestures key m'" "counted g (Some (t, ?n)) m'"
    using tap_run [OF assms(1,2) Cons.prems refl] by blast
  from Cons.IH [OF r(3,4)] r(1,2) tap show ?case
    by (simp add: run_append Let_def del: tap_calls.simps)
qed


definition report_key :: key_code where
  "report_key = (0x26, False)"

definition report_map :: gesture_map where
  "report_map = GestureMap_new [GestureId ''kb:numpad8'']"

lemma report_key_plain: "plain_key config_default report_key (GestureId ''kb:numpad8'')"
proof -
  have "name_from_vk 0x26 False = Some ''numpad8''"
    "gesture_parse ''kb:numpad8'' = Inr (GestureId ''kb:numpad8'')"
    by code_simp+
  then show ?thesis
    by (simp add: plain_key_def report_key_def is_verbatim_modifier_def is_normal_modifier_def
        generic_modifier_name_def)
qed

definition report_taps :: "tap list" where
  "report_taps =
     [(1000, [400000, 430000], 450000), (480000, [], 490000), (600000, [], 610000),
      (1200000, [], 1210000)]"


section \<open>The double tap\<close>

text \<open>A modifier key whose own gestures, as the modifier and by its name, are not bound.\<close>

definition free_modifier :: "decision_config \<Rightarrow> gesture_map \<Rightarrow> key_code \<Rightarrow> bool" where
  "free_modifier config gestures key \<longleftrightarrow>
     is_verbatim_modifier config key \<and> \<not> dc_share_modifier config \<and> \<not> is_normal_modifier (fst key)
     \<and> GestureId ''kb:verbatim'' \<notin> gm_bound gestures
     \<and> (case name_from_vk (fst key) (snd key) of
          None \<Rightarrow> True
        | Some name \<Rightarrow> (case gesture_parse (''kb:'' @ name) of Inr g \<Rightarrow> g \<notin> gm_bound gestures | _ \<Rightarrow> True))"

lemma verbatim_gesture: "gesture_parse ''kb:verbatim'' = Inr (GestureId ''kb:verbatim'')"
  by code_simp

text \<open>The modifier pressed with no other modifier down: swallowed, and alone.\<close>

lemma modifier_press:
  assumes "free_modifier (dm_config m) (dm_map m) key" and "dm_held_modifiers m = bt_empty"
    and "\<not> hands_press_to_os (dm_lone_modifier m) key now (dc_multi_press_timeout (dm_config m))"
  shows "on_press (ki_event (transition key True now)) now False m =
    (set_swallowed key (m\<lparr>dm_lone_modifier := HeldAlone key,
       dm_held_modifiers := bt_put key () bt_empty\<rparr>), decision_swallow)"
  using assms
  by (simp add: on_press_def role_of_def after_press_def press_named_def press_unbound_def
      free_modifier_def build_gesture_def bt_keys_def map_filter_def modifier_part_def
      VERBATIM_MODIFIER_NAME_def verbatim_gesture Let_def)

text \<open>The modifier's key handed to the operating system: passed.\<close>

lemma handed_press:
  assumes "free_modifier (dm_config m) (dm_map m) key" and "dm_held_modifiers m = bt_empty"
    and "hands_press_to_os (dm_lone_modifier m) key now (dc_multi_press_timeout (dm_config m))"
  shows "\<exists>d. on_press (ki_event (transition key True now)) now False m =
      (m\<lparr>dm_lone_modifier := PassingThrough, dm_last_gesture := None\<rparr>, d)
    \<and> de_verdict d = Pass \<and> de_emitted d = None \<and> \<not> de_shared_modifier d"
proof (cases "name_from_vk (fst key) (snd key)")
  case None
  then show ?thesis
    using assms by (simp add: on_press_def role_of_def after_press_def Let_def decision_defs)
next
  case (Some name)
  let ?m = "m\<lparr>dm_lone_modifier := PassingThrough\<rparr>"
  have "build_gesture key name ?m = (case gesture_parse (''kb:'' @ name) of Inl _ \<Rightarrow> None | Inr g \<Rightarrow> Some g)"
    using assms(2) by (simp add: build_gesture_def bt_keys_def map_filter_def)
  then show ?thesis
    using assms Some
    by (auto simp: on_press_def role_of_def after_press_def press_named_def press_unbound_def
        free_modifier_def Let_def decision_defs split: sum.splits option.splits)
qed

text \<open>With the key up, no modifier down and the lone tap at \<open>l\<close>.\<close>

definition key_up :: "decision_config \<Rightarrow> gesture_map \<Rightarrow> key_code \<Rightarrow> lone_modifier \<Rightarrow> decision_machine \<Rightarrow> bool" where
  "key_up config gestures key l m \<longleftrightarrow>
     dm_config m = config \<and> dm_map m = gestures \<and> dm_lone_modifier m = l
     \<and> dm_held_modifiers m = bt_empty \<and> bt_get (dm_keys_down m) key = None"

abbreviation tap_of :: "key_code \<Rightarrow> u64 \<Rightarrow> u64 \<Rightarrow> key_call list" where
  "tap_of key t t' \<equiv> [press key t, release key t']"

abbreviation verdicts :: "(key_input \<times> decision) list \<Rightarrow> verdict list" where
  "verdicts es \<equiv> map (de_verdict \<circ> snd) es"

abbreviation toggles :: "(key_input \<times> decision) list \<Rightarrow> toggle_key option list" where
  "toggles es \<equiv> map (de_toggle \<circ> snd) es"

lemma release_toggle: "on_key (transition key False now) m = (m', d) \<Longrightarrow> de_toggle d = None"
  by (auto simp: on_key_def Let_def split: prod.splits)

lemma tap_as_modifier:
  assumes "free_modifier config gestures key" and "key_up config gestures key l m"
    and "\<not> hands_press_to_os l key t (dc_multi_press_timeout config)"
  shows "\<exists>m' es. run key_step m (tap_of key t t') = (m', es)
    \<and> verdicts es = [Swallow, Swallow] \<and> toggles es = [None, None] \<and> emissions es = []
    \<and> key_up config gestures key (TapPending key t') m'"
proof -
  let ?m = "m\<lparr>dm_lone_modifier := HeldAlone key, dm_held_modifiers := bt_put key () bt_empty\<rparr>"
  let ?m1 = "set_swallowed key ?m"
  have "on_press (ki_event (transition key True t)) t False m = (?m1, decision_swallow)"
    using assms by (intro modifier_press) (simp_all add: key_up_def)
  from on_key_press [OF this] obtain d where d: "on_key (transition key True t) m =
      (?m1\<lparr>dm_keys_down := bt_put key (down_entry key ?m1) (dm_keys_down ?m1)\<rparr>, d)"
      "de_emitted d = None" "de_verdict d = Swallow" "de_toggle d = None"
    by (auto simp: decision_defs)
  let ?m2 = "?m1\<lparr>dm_keys_down := bt_put key (down_entry key ?m1) (dm_keys_down ?m1)\<rparr>"
  have down: "bt_get (dm_keys_down ?m2) key \<noteq> None" "key \<notin> reached_keys ?m2"
    using assms(2)
    by (simp_all add: reached_keys_def set_swallowed_def down_entry_def key_up_def key_down_default_def)
  let ?m3 = "?m2\<lparr>dm_lone_modifier := after_release (dm_lone_modifier ?m2) key t',
    dm_held_modifiers := bt_remove key (dm_held_modifiers ?m2),
    dm_keys_down := bt_remove key (dm_keys_down ?m2)\<rparr>"
  obtain d' where d': "on_key (transition key False t') ?m2 = (?m3, d')" "de_emitted d' = None"
      "de_verdict d' = Swallow"
    using on_key_release [of key t' ?m2] down by auto
  have "key_up config gestures key (TapPending key t') ?m3"
    using assms(2) by (simp add: key_up_def set_swallowed_def)
  then show ?thesis
    using d d' release_toggle [OF d'(1)] by (simp add: run.simps emitted_def)
qed

lemma tap_handed:
  assumes "free_modifier config gestures key" and "key_up config gestures key l m"
    and "hands_press_to_os l key t (dc_multi_press_timeout config)"
  shows "\<exists>m' es. run key_step m (tap_of key t t') = (m', es)
    \<and> verdicts es = [Pass, Pass] \<and> toggles es = [toggle_from_vk (fst key), None] \<and> emissions es = []
    \<and> key_up config gestures key Idle m'"
proof -
  let ?m1 = "m\<lparr>dm_lone_modifier := PassingThrough, dm_last_gesture := None\<rparr>"
  obtain d0 where "on_press (ki_event (transition key True t)) t False m = (?m1, d0)"
      "de_verdict d0 = Pass" "de_emitted d0 = None" "\<not> de_shared_modifier d0"
    using handed_press [of m key t] assms by (auto simp: key_up_def)
  from on_key_press [OF this(1)] this(2-4) obtain d where
    d: "on_key (transition key True t) m = (set_reached key True ?m1, d)"
      "de_emitted d = None" "de_verdict d = Pass" "de_toggle d = toggle_from_vk (fst key)"
    by auto
  let ?m2 = "set_reached key True ?m1"
  have down: "key \<in> reached_keys ?m2" by (simp add: reached_keys_def set_reached_def)
  let ?m3 = "?m2\<lparr>dm_lone_modifier := after_release (dm_lone_modifier ?m2) key t',
    dm_held_modifiers := bt_remove key (dm_held_modifiers ?m2),
    dm_keys_down := bt_remove key (dm_keys_down ?m2)\<rparr>"
  obtain d' where d': "on_key (transition key False t') ?m2 = (?m3, d')" "de_emitted d' = None"
      "de_verdict d' = Pass"
    using on_key_release [of key t' ?m2] down by auto
  have "key_up config gestures key Idle ?m3"
    using assms(2) by (simp add: key_up_def set_reached_def)
  then show ?thesis
    using d d' release_toggle [OF d'(1)] by (simp add: run.simps emitted_def)
qed

lemma run_parts:
  "run step s xs = (s', es) \<Longrightarrow> run step s' ys = (s'', es') \<Longrightarrow> run step s (xs @ ys) = (s'', es @ es')"
  using run_append [of step s xs ys] by (simp add: prod_eq_iff)

text \<open>
  C32. A double tap gives the modifier key back, once: a Verbatim modifier tapped alone is
  swallowed; tapped again before the timeout, its press and release reach the operating system, and
  a lock key's new state is announced; the third tap, however soon, is the modifier's again.
\<close>

theorem double_tap_passes:
  assumes "free_modifier config gestures key"
    and "since t2 t3 < dc_multi_press_timeout config"
    and "run key_step (DecisionMachine_new config gestures)
      (tap_of key t1 t2 @ tap_of key t3 t4 @ tap_of key t5 t6) = (m, es)"
  shows "verdicts es = [Swallow, Swallow, Pass, Pass, Swallow, Swallow]
    \<and> toggles es = [None, None, toggle_from_vk (fst key), None, None, None] \<and> emissions es = []"
proof -
  have "key_up config gestures key Idle (DecisionMachine_new config gestures)"
    by (simp add: key_up_def DecisionMachine_new_def)
  from tap_as_modifier [OF assms(1) this, of t1 t2] obtain m1 es1 where
    one: "run key_step (DecisionMachine_new config gestures) (tap_of key t1 t2) = (m1, es1)"
      "verdicts es1 = [Swallow, Swallow]" "toggles es1 = [None, None]" "emissions es1 = []"
      "key_up config gestures key (TapPending key t2) m1"
    by auto
  from tap_handed [OF assms(1) one(5), of t3 t4] assms(2) obtain m2 es2 where
    two: "run key_step m1 (tap_of key t3 t4) = (m2, es2)" "verdicts es2 = [Pass, Pass]"
      "toggles es2 = [toggle_from_vk (fst key), None]" "emissions es2 = []"
      "key_up config gestures key Idle m2"
    by auto
  from tap_as_modifier [OF assms(1) two(5), of t5 t6] obtain m3 es3 where
    three: "run key_step m2 (tap_of key t5 t6) = (m3, es3)" "verdicts es3 = [Swallow, Swallow]"
      "toggles es3 = [None, None]" "emissions es3 = []"
    by auto
  have "es = es1 @ es2 @ es3"
    using run_parts [OF one(1) run_parts [OF two(1) three(1)]] assms(3) by simp
  then show ?thesis using one two three by simp
qed

lemma caps_lock_free: "free_modifier config_default report_map (0x14, False)"
proof -
  have "name_from_vk 0x14 False = Some ''capslock''"
    "gesture_parse ''kb:capslock'' = Inr (GestureId ''kb:capslock'')"
    by code_simp+
  then show ?thesis
    by (simp add: free_modifier_def is_verbatim_modifier_def is_normal_modifier_def config_default_def
        generic_modifier_name_def report_map_def GestureMap_new_def)
qed

theorem double_tap_passes_witness:
  "toggles (snd (run key_step (DecisionMachine_new config_default report_map)
     (tap_of (0x14, False) 0 50000 @ tap_of (0x14, False) 100000 150000
      @ tap_of (0x14, False) 200000 250000))) = [None, None, Some CapsLock, None, None, None]"
proof -
  have "since 50000 100000 < dc_multi_press_timeout config_default"
    by (simp add: since_def from_micros_def sat_sub_def config_default_def
        DEFAULT_MULTI_PRESS_TIMEOUT_def from_millis_def)
  note double_tap_passes [OF caps_lock_free this surjective_pairing, of 0 150000 200000 250000]
  then show ?thesis by (simp only: fst_conv toggle_from_vk_def simp_thms if_True)
qed

section \<open>A caret key held back\<close>

text \<open>Down arrow held for its caret, a letter deferred behind it, and both passed on.\<close>

definition caret_map :: gesture_map where
  "caret_map = with_held [GestureId ''kb:downarrow''] (GestureMap_new [])"

definition caret_input :: "key_code \<Rightarrow> bool \<Rightarrow> key_call" where
  "caret_input key pressed =
     KeyTransition (transition key pressed 0\<lparr>ki_permit := HoldAndDefer\<rparr>)"

definition caret_keys :: "key_call list" where
  "caret_keys =
     [caret_input (0x28, True) True, caret_input (0x28, True) False,
      caret_input (0x41, False) True, PassedOn 1, caret_input (0x41, False) False]"

lemma caret_names:
  "name_from_vk 0x28 True = Some ''downarrow''" "name_from_vk 0x41 False = Some ''a''"
  "gesture_parse ''kb:downarrow'' = Inr (GestureId ''kb:downarrow'')"
  "gesture_parse ''kb:a'' = Inr (GestureId ''kb:a'')"
  by code_simp+

lemmas caret_defs =
  caret_input_def transition_def on_key_def on_press_def on_release_def press_named_def
  press_unbound_def role_of_def after_press_def build_gesture_def place_key_def pass_or_defer_def
  is_held_def set_reached_def queue_transition_def add_mask_def passed_on_def key_of_def
  is_verbatim_modifier_def is_normal_modifier_def generic_modifier_name_def toggle_from_vk_def
  down_entry_def key_down_default_def decision_defs DecisionMachine_new_def config_default_def
  caret_map_def with_held_def GestureMap_new_def bt_keys_def map_filter_def Let_def caret_names

lemma caret_keys_ok:
  "run_ok key_step key_ok (DecisionMachine_new config_default caret_map) caret_keys"
  by (simp add: caret_keys_def caret_defs)


lemma caret_line:
  "map wt_place (dm_line (fst (run key_step (DecisionMachine_new config_default caret_map)
     caret_keys))) = [2, 3]"
  by (simp add: caret_keys_def caret_defs)

theorem places_name_one_witness:
  "dm_line (passed_on 3 (fst (run key_step (DecisionMachine_new config_default caret_map)
     caret_keys))) = []"
proof -
  let ?m = "fst (run key_step (DecisionMachine_new config_default caret_map) caret_keys)"
  obtain v w where l: "dm_line ?m = [v] @ w # []" and w: "wt_place w = 3"
    using caret_line by (auto simp: map_eq_Cons_conv)
  have "length (dm_line ?m) < 2 ^ 32" unfolding l by simp
  from places_name_one [OF refl this, of "[v]" w "[]"] l w show ?thesis by simp
qed

theorem decision_shape_witness:
  "de_speech (snd (on_key (transition (0x41, False) True 0\<lparr>ki_source := Own\<rparr>)
     (DecisionMachine_new config_default caret_map))) = None"
  using decision_shape [of "transition (0x41, False) True 0\<lparr>ki_source := Own\<rparr>"
      "DecisionMachine_new config_default caret_map"]
  by (simp add: Let_def split_beta)

end
