(* ===== verification/Indices.thy ===== *)
theory Indices
  imports Prelude
begin

text \<open>
  Indices and scores as the alignment of terminal rows computes with them: a \<open>usize\<close> as a natural
  number and an \<open>isize\<close> or \<open>i64\<close> as an integer, with the saturation of each operation written out.
  Where the bounds of the theorems keep a value inside its width, the operations are the plain ones.
\<close>

definition usize_max :: nat where
  "usize_max = 2 ^ 64 - 1"

definition us_add :: "nat \<Rightarrow> nat \<Rightarrow> nat" where
  "us_add a b = min (a + b) usize_max"

definition us_mul :: "nat \<Rightarrow> nat \<Rightarrow> nat" where
  "us_mul a b = min (a * b) usize_max"

text \<open>The signed operations, at 64 bits for both \<open>isize\<close> and \<open>i64\<close>.\<close>

definition sat64 :: "int \<Rightarrow> int" where
  "sat64 a = max (- (2 ^ 63)) (min a (2 ^ 63 - 1))"

definition i64_add :: "int \<Rightarrow> int \<Rightarrow> int" where
  "i64_add a b = sat64 (a + b)"

definition i64_sub :: "int \<Rightarrow> int \<Rightarrow> int" where
  "i64_sub a b = sat64 (a - b)"

definition isize_of :: "nat \<Rightarrow> int" where
  "isize_of value = (if int value < 2 ^ 63 then int value else 2 ^ 63 - 1)"

lemma us_add_exact: "a + b < 2 ^ 64 \<Longrightarrow> us_add a b = a + b"
  by (simp add: us_add_def usize_max_def)

lemma us_mul_exact: "a * b < 2 ^ 64 \<Longrightarrow> us_mul a b = a * b"
  by (simp add: us_mul_def usize_max_def)

lemma sat64_exact: "- (2 ^ 63) \<le> a \<Longrightarrow> a < 2 ^ 63 \<Longrightarrow> sat64 a = a"
  by (simp add: sat64_def)

text \<open>A cell of a table kept row by row is in one place.\<close>

lemma row_major_unique:
  fixes a b x y :: nat
  assumes "b < w" and "y < w"
  shows "a * w + b = x * w + y \<longleftrightarrow> a = x \<and> b = y"
proof
  assume eq: "a * w + b = x * w + y"
  have "(a * w + b) div w = a" "(x * w + y) div w = x"
    using assms by simp_all
  with eq show "a = x \<and> b = y" by simp
qed simp

section \<open>Places in a queue\<close>

text \<open>\<open>rposition(..).map_or(0, |answer| answer + 1)\<close>: the place after the last element that satisfies it.\<close>

fun after_last :: "('a \<Rightarrow> bool) \<Rightarrow> 'a list \<Rightarrow> nat" where
  "after_last p [] = 0"
| "after_last p (x # xs) =
     (if after_last p xs \<noteq> 0 then Suc (after_last p xs) else if p x then 1 else 0)"

lemma after_last_zero: "after_last p xs = 0 \<longleftrightarrow> (\<forall>x \<in> set xs. \<not> p x)"
  by (induction xs) auto

lemma after_last_split:
  "p x \<Longrightarrow> after_last p (xs @ x # ys) = Suc (length xs) + after_last p ys"
  by (induction xs) auto

lemma after_last_drop: "\<forall>x \<in> set (drop (after_last p xs) xs). \<not> p x"
  by (induction xs) (auto simp: after_last_zero)

lemma after_last_le: "after_last p xs \<le> length xs"
  by (induction xs) auto

end
