(* ===== verification/Row_Likeness.thy ===== *)
theory Row_Likeness
  imports BTree Indices "HOL-Library.Sublist"
begin

unbundle bit_operations_syntax

text \<open>
  How much two terminal rows have in common, \<open>Likeness\<close> of
  \<^verbatim>\<open>verbatim-text/src/terminal_rows/align.rs\<close>: the length of their longest common subsequence, by the
  bit-parallel method, a few word operations for each character of one row over masks of the
  positions of each character in the other. The theorems show that the words, their carries and
  the masks compute the length the documentation promises.

  A character is its Unicode scalar value, and a row's text the list of its characters.
\<close>

type_synonym uchar = u32

record likeness =
  lk_chars :: "uchar list"
  lk_words :: nat
  lk_masks :: "u64 list"
  lk_ascii :: "16 word list"
  lk_other :: "(uchar, 16 word) btree"

section \<open>The masks of a row\<close>

text \<open>The number of \<open>c\<close>'s mask, if the row holds it.\<close>

definition lk_slot :: "likeness \<Rightarrow> uchar \<Rightarrow> nat option" where
  "lk_slot l c =
     (let number = (case (if unat c < length (lk_ascii l) then Some (lk_ascii l ! unat c)
                          else bt_get (lk_other l) c) of
                      None \<Rightarrow> 0
                    | Some number \<Rightarrow> number)
      in if number = 0 then None else Some (unat number - 1))"

definition mask_number :: "nat \<Rightarrow> 16 word" where
  "mask_number slot = (if us_add slot 1 < 2 ^ 16 then word_of_nat (us_add slot 1) else - 1)"

text \<open>The closure of \<open>of\<close> that gives a character its masks.\<close>

definition add_slot :: "uchar \<Rightarrow> likeness \<Rightarrow> likeness \<times> nat" where
  "add_slot c l =
     (let slot = length (lk_masks l) div lk_words l;
          l = l\<lparr>lk_masks := lk_masks l @ replicate (lk_words l) 0\<rparr>;
          number = mask_number slot
      in (if unat c < length (lk_ascii l) then l\<lparr>lk_ascii := (lk_ascii l)[unat c := number]\<rparr>
          else l\<lparr>lk_other := bt_put c number (lk_other l)\<rparr>,
          slot))"

text \<open>The loop of \<open>of\<close>: the character \<open>c\<close> at position \<open>pos\<close>.\<close>

definition mark_char :: "likeness \<Rightarrow> nat \<times> uchar \<Rightarrow> likeness" where
  "mark_char l at_c =
     (let (pos, c) = at_c;
          (l, slot) = (case lk_slot l c of Some slot \<Rightarrow> (l, slot) | None \<Rightarrow> add_slot c l);
          word = us_add (us_mul slot (lk_words l)) (pos div 64)
      in if word < length (lk_masks l)
         then l\<lparr>lk_masks := (lk_masks l)[word := lk_masks l ! word OR push_bit (pos mod 64) 1]\<rparr>
         else l)"

definition likeness_empty :: "nat \<Rightarrow> likeness" where
  "likeness_empty words =
     \<lparr>lk_chars = [], lk_words = words, lk_masks = [], lk_ascii = replicate 128 0, lk_other = bt_empty\<rparr>"

definition Likeness_of :: "uchar list \<Rightarrow> likeness" where
  "Likeness_of chars =
     (let words = max ((length chars + 63) div 64) 1
      in (foldl mark_char (likeness_empty words) (enumerate 0 chars))\<lparr>lk_chars := chars\<rparr>)"

section \<open>The common characters\<close>

definition overflowing_add :: "u64 \<Rightarrow> u64 \<Rightarrow> u64 \<times> bool" where
  "overflowing_add a b = (a + b, 2 ^ 64 \<le> unat a + unat b)"

text \<open>The inner loop: the words of \<open>v\<close> with the words of a mask, and the carry between them.\<close>

fun step_words :: "u64 \<Rightarrow> u64 list \<Rightarrow> u64 list \<Rightarrow> u64 list" where
  "step_words carry (word # v) (bits # masks) =
     (let kept = word AND bits;
          rest = word AND NOT bits;
          (sum, first) = overflowing_add word kept;
          (sum, second) = overflowing_add sum carry
      in (sum OR rest) # step_words (of_bool (first \<or> second)) v masks)"
| "step_words carry v [] = v"
| "step_words carry [] masks = []"

text \<open>The outer loop, for one character of the other row.\<close>

definition common_step :: "likeness \<Rightarrow> u64 list \<Rightarrow> uchar \<Rightarrow> u64 list" where
  "common_step l v c =
     (case lk_slot l c of
        None \<Rightarrow> v
      | Some slot \<Rightarrow>
          let start = us_mul slot (lk_words l); stop = us_add start (lk_words l)
          in if stop \<le> length (lk_masks l)
             then step_words 0 v (take (stop - start) (drop start (lk_masks l)))
             else v)"

definition count_ones :: "u64 \<Rightarrow> u32" where
  "count_ones w = word_of_nat (length (filter (bit w) [0..<64]))"

text \<open>The zeros of one word inside a row of \<open>n\<close> characters.\<close>

definition inside_word :: "nat \<Rightarrow> nat \<Rightarrow> u64" where
  "inside_word n word =
     (let len = min (n - us_mul word 64) 64
      in if len = 64 then - 1 else sat_sub (push_bit len 1) 1)"

definition count_zeros :: "nat \<Rightarrow> u64 list \<Rightarrow> u32" where
  "count_zeros n v =
     foldl (\<lambda>zeros (word, bits). sat_add zeros (count_ones (NOT bits AND inside_word n word)))
       0 (enumerate 0 v)"

definition common :: "likeness \<Rightarrow> uchar list \<Rightarrow> nat" where
  "common l other =
     unat (count_zeros (length (lk_chars l))
       (foldl (common_step l) (replicate (lk_words l) (- 1)) other))"

text \<open>Two rows are alike when neither is blank and they share half of the longer.\<close>

definition alike :: "likeness \<Rightarrow> likeness \<Rightarrow> bool" where
  "alike l other =
     (let a = lk_chars l; b = lk_chars other
      in if a = [] \<or> b = [] then False
         else
           let (short, long) = (if length a \<le> length b then (a, b) else (b, a))
           in if us_mul (length short) 2 < length long then False
              else length long \<le> us_mul (common l b) 2)"

section \<open>Longest common subsequences\<close>

text \<open>\<open>n\<close> is the length of the longest common subsequence of \<open>xs\<close> and \<open>ys\<close>.\<close>

definition longest_common :: "nat \<Rightarrow> 'a list \<Rightarrow> 'a list \<Rightarrow> bool" where
  "longest_common n xs ys \<longleftrightarrow>
     (\<exists>zs. subseq zs xs \<and> subseq zs ys \<and> length zs = n)
     \<and> (\<forall>zs. subseq zs xs \<and> subseq zs ys \<longrightarrow> length zs \<le> n)"

lemma subseq_snoc:
  "subseq zs (xs @ [x]) \<longleftrightarrow> subseq zs xs \<or> (\<exists>us. zs = us @ [x] \<and> subseq us xs)"
proof
  assume "subseq zs (xs @ [x])"
  then obtain us vs where "zs = us @ vs" "subseq us xs" "subseq vs [x]"
    by (auto simp: subseq_append_iff)
  then show "subseq zs xs \<or> (\<exists>us. zs = us @ [x] \<and> subseq us xs)"
    by (cases vs) (auto split: if_splits)
qed (auto simp: subseq_append_iff)

lemma subseq_butlast:
  assumes "subseq us (xs @ [x])"
  shows "subseq (butlast us) xs"
proof (cases us rule: rev_cases)
  case (snoc vs v)
  then show ?thesis
    using assms by (auto simp: subseq_snoc intro: subseq_order.trans [OF subseq_rev_drop_many])
qed simp

lemma longest_common_Nil [simp]: "longest_common 0 [] ys" "longest_common 0 xs []"
  by (auto simp: longest_common_def)

lemma longest_common_snoc_same:
  assumes "longest_common n xs ys"
  shows "longest_common (Suc n) (xs @ [x]) (ys @ [x])"
proof -
  obtain zs where zs: "subseq zs xs" "subseq zs ys" "length zs = n"
    using assms by (auto simp: longest_common_def)
  have bound: "length us \<le> n" if "subseq us xs" "subseq us ys" for us
    using assms that by (auto simp: longest_common_def)
  have "length us \<le> Suc n" if "subseq us (xs @ [x])" "subseq us (ys @ [x])" for us
  proof -
    have "length (butlast us) \<le> n"
      using that by (intro bound subseq_butlast)
    then show ?thesis
      by simp
  qed
  moreover have "subseq (zs @ [x]) (xs @ [x]) \<and> subseq (zs @ [x]) (ys @ [x])"
    using zs by simp
  ultimately show ?thesis
    unfolding longest_common_def using zs(3) by (metis length_append_singleton)
qed

lemma longest_common_snoc_other:
  assumes "x \<noteq> y" and "longest_common m (xs @ [x]) ys" and "longest_common n xs (ys @ [y])"
  shows "longest_common (max m n) (xs @ [x]) (ys @ [y])"
proof -
  obtain zs zs' where m: "subseq zs (xs @ [x])" "subseq zs ys" "length zs = m"
    and n: "subseq zs' xs" "subseq zs' (ys @ [y])" "length zs' = n"
    using assms(2,3) unfolding longest_common_def by blast
  have "length us \<le> max m n" if "subseq us (xs @ [x])" "subseq us (ys @ [y])" for us
  proof -
    have "subseq us xs \<or> subseq us ys"
      using that assms(1) by (auto simp: subseq_snoc)
    then have "length us \<le> m \<or> length us \<le> n"
      using assms(2,3) that unfolding longest_common_def by blast
    then show ?thesis
      by linarith
  qed
  moreover have "subseq zs (ys @ [y])" "subseq zs' (xs @ [x])"
    using m n by (simp_all add: subseq_rev_drop_many)
  ultimately show ?thesis
    unfolding longest_common_def using m n by (metis max_def)
qed

text \<open>
  The rows of the usual table: \<open>lcs_row a r c\<close> is the row for one more character \<open>c\<close> of the other
  text after the row \<open>r\<close>, and \<open>r i\<close> is about the first \<open>i\<close> characters of \<open>a\<close>.
\<close>

fun lcs_row :: "'a list \<Rightarrow> (nat \<Rightarrow> nat) \<Rightarrow> 'a \<Rightarrow> nat \<Rightarrow> nat" where
  "lcs_row a r c 0 = 0"
| "lcs_row a r c (Suc i) = (if a ! i = c then Suc (r i) else max (lcs_row a r c i) (r (Suc i)))"

definition lcs_rows :: "'a list \<Rightarrow> 'a list \<Rightarrow> nat \<Rightarrow> nat" where
  "lcs_rows a b = foldl (lcs_row a) (\<lambda>_. 0) b"

lemma lcs_row_longest:
  assumes "\<And>i. i \<le> length a \<Longrightarrow> longest_common (r i) (take i a) b"
  shows "i \<le> length a \<Longrightarrow> longest_common (lcs_row a r c i) (take i a) (b @ [c])"
proof (induction i)
  case (Suc i)
  have a: "take (Suc i) a = take i a @ [a ! i]"
    using Suc.prems by (simp add: take_Suc_conv_app_nth)
  have "longest_common (r i) (take i a) b" "longest_common (r (Suc i)) (take i a @ [a ! i]) b"
    using assms [of i] assms [of "Suc i"] Suc.prems a by auto
  moreover have "longest_common (lcs_row a r c i) (take i a) (b @ [c])"
    using Suc by simp
  ultimately show ?case
    unfolding a
    using longest_common_snoc_same longest_common_snoc_other [of "a ! i" c]
    by (auto simp: max.commute)
qed simp

lemma lcs_rows_longest: "i \<le> length a \<Longrightarrow> longest_common (lcs_rows a b i) (take i a) b"
proof (induction b arbitrary: i rule: rev_induct)
  case (snoc c b)
  then show ?case
    using lcs_row_longest [of a "lcs_rows a b" b] by (simp add: lcs_rows_def)
qed (simp add: lcs_rows_def)

text \<open>A row starts at 0 and rises by at most one.\<close>

definition gentle :: "(nat \<Rightarrow> nat) \<Rightarrow> bool" where
  "gentle r \<longleftrightarrow> r 0 = 0 \<and> (\<forall>i. r i \<le> r (Suc i) \<and> r (Suc i) \<le> Suc (r i))"

lemma lcs_row_near:
  assumes "gentle r"
  shows "r i \<le> lcs_row a r c i \<and> lcs_row a r c i \<le> Suc (r i)"
proof (induction i)
  case (Suc i)
  have "r i \<le> r (Suc i)" "r (Suc i) \<le> Suc (r i)"
    using assms by (simp_all add: gentle_def)
  with Suc show ?case
    by (auto simp: max_def)
qed (use assms in \<open>simp add: gentle_def\<close>)

lemma lcs_row_gentle:
  assumes "gentle r"
  shows "gentle (lcs_row a r c)"
  unfolding gentle_def
proof (intro conjI allI)
  fix i
  have "r i \<le> r (Suc i)" "r (Suc i) \<le> Suc (r i)"
    using assms by (simp_all add: gentle_def)
  then show "lcs_row a r c i \<le> lcs_row a r c (Suc i)" "lcs_row a r c (Suc i) \<le> Suc (lcs_row a r c i)"
    using lcs_row_near [OF assms, of i a c] by (auto simp: max_def)
qed simp

section \<open>The carries of an addition\<close>

text \<open>
  The carry into position \<open>i\<close> of \<open>V + (V AND M)\<close>, \<open>c\<close> being the carry into position 0, and the bit
  the step leaves at a position.
\<close>

fun ripple :: "bool \<Rightarrow> (nat \<Rightarrow> bool) \<Rightarrow> (nat \<Rightarrow> bool) \<Rightarrow> nat \<Rightarrow> bool" where
  "ripple c V M 0 = c"
| "ripple c V M (Suc i) = (V i \<and> (M i \<or> ripple c V M i))"

definition stepped :: "bool \<Rightarrow> (nat \<Rightarrow> bool) \<Rightarrow> (nat \<Rightarrow> bool) \<Rightarrow> nat \<Rightarrow> bool" where
  "stepped c V M i = (if V i \<and> \<not> M i then True else ripple c V M i)"

lemma ripple_add:
  "ripple c V M (k + i) = ripple (ripple c V M k) (\<lambda>i. V (k + i)) (\<lambda>i. M (k + i)) i"
  by (induction i) simp_all

lemma ripple_cong:
  "(\<And>j. j < i \<Longrightarrow> V j = V' j \<and> M j = M' j) \<Longrightarrow> ripple c V M i = ripple c V' M' i"
  by (induction i) simp_all

text \<open>
  The heart of the method: where a bit of \<open>V\<close> says that the row does not rise, the carry says that
  the next row has risen above this one, and the stepped bits are those of the next row.
\<close>

lemma ripple_rises:
  assumes "gentle r" and "i \<le> n"
    and "\<And>j. j < n \<Longrightarrow> V j \<longleftrightarrow> r (Suc j) = r j"
    and "\<And>j. j < n \<Longrightarrow> M j \<longleftrightarrow> a ! j = c"
  shows "lcs_row a r c i = r i + of_bool (ripple False V M i)"
  using assms(2)
proof (induction i)
  case 0
  then show ?case using assms(1) by (simp add: gentle_def)
next
  case (Suc i)
  have "r i \<le> r (Suc i)" "r (Suc i) \<le> Suc (r i)"
    using assms(1) by (simp_all add: gentle_def)
  moreover have "V i \<longleftrightarrow> r (Suc i) = r i" "M i \<longleftrightarrow> a ! i = c"
    using assms(3,4) [of i] Suc.prems by simp_all
  ultimately show ?case
    using Suc by (auto simp: max_def)
qed

lemma stepped_is_next_row:
  assumes "gentle r" and "i < n"
    and "\<And>j. j < n \<Longrightarrow> V j \<longleftrightarrow> r (Suc j) = r j"
    and "\<And>j. j < n \<Longrightarrow> M j \<longleftrightarrow> a ! j = c"
  shows "stepped False V M i \<longleftrightarrow> lcs_row a r c (Suc i) = lcs_row a r c i"
proof -
  have rises: "lcs_row a r c j = r j + of_bool (ripple False V M j)" if "j \<le> n" for j
    using ripple_rises [OF assms(1) that assms(3,4)] .
  have "r i \<le> r (Suc i)" "r (Suc i) \<le> Suc (r i)"
    using assms(1) by (simp_all add: gentle_def)
  moreover have "V i \<longleftrightarrow> r (Suc i) = r i"
    using assms(3) [of i] assms(2) by simp
  ultimately show ?thesis
    using rises [of i] rises [of "Suc i"] assms(2)
    by (auto simp: stepped_def simp del: lcs_row.simps)
qed

text \<open>The carries of a sum, as what the upper parts of the summands lack of the upper part of it.\<close>

lemma half_sum:
  fixes x y :: nat
  shows "(x + y + of_bool c) div 2
    = x div 2 + y div 2 + of_bool (odd x \<and> odd y \<or> c \<and> (odd x \<or> odd y))"
  by (cases "odd x"; cases "odd y"; cases c) (auto elim!: oddE evenE)

lemma drop_sum:
  fixes x y :: nat
  assumes "\<And>i. bit y i \<longleftrightarrow> bit x i \<and> M i"
  shows "drop_bit k (x + y + of_bool c) = drop_bit k x + drop_bit k y + of_bool (ripple c (bit x) M k)"
proof (induction k)
  case (Suc k)
  have "drop_bit (Suc k) z = drop_bit k z div 2" for z :: nat
    by (metis drop_bit_Suc drop_bit_half)
  moreover have "odd (drop_bit k x) = bit x k" "odd (drop_bit k y) = (bit x k \<and> M k)"
    using assms by (simp_all add: bit_iff_odd_drop_bit)
  ultimately show ?case
    using Suc by (auto simp: half_sum intro!: arg_cong [of _ _ of_bool])
qed simp

lemma bit_sum:
  fixes x y :: nat
  assumes "\<And>i. bit y i \<longleftrightarrow> bit x i \<and> M i"
  shows "bit (x + y + of_bool c) k \<longleftrightarrow> ((bit x k \<and> \<not> M k) \<noteq> ripple c (bit x) M k)"
proof -
  have "odd (drop_bit k x) = bit x k" "odd (drop_bit k y) = (bit x k \<and> M k)"
    using assms by (simp_all add: bit_iff_odd_drop_bit)
  then show ?thesis
    by (simp add: bit_iff_odd_drop_bit [of "x + y + of_bool c"] drop_sum [OF assms]) auto
qed

section \<open>The words\<close>

text \<open>Bit \<open>i\<close> of a list of words.\<close>

definition vbit :: "u64 list \<Rightarrow> nat \<Rightarrow> bool" where
  "vbit v i = bit (v ! (i div 64)) (i mod 64)"

lemma vbit_Cons: "vbit (w # v) i = (if i < 64 then bit w i else vbit v (i - 64))"
proof (cases "i < 64")
  case False
  then obtain j where "i = 64 + j"
    by (auto simp: not_less le_iff_add)
  moreover have "(64 + j) div 64 = Suc (j div 64)"
    by simp
  ultimately show ?thesis
    by (simp only: vbit_def) simp
qed (simp add: vbit_def)

lemma vbit_high: "vbit (w # v) (64 + j) = vbit v j"
  by (simp add: vbit_Cons)

lemma bit_unat: "bit (unat w) i \<longleftrightarrow> bit w i" for w :: u64
  by (auto simp: bit_unsigned_iff dest: bit_imp_possible_bit)

lemma unat_kept: "bit (unat (w AND m)) i \<longleftrightarrow> bit (unat w) i \<and> bit m i" for w m :: u64
  by (auto simp: bit_unat bit_and_iff)

lemma bit_word_of_nat: "k < 64 \<Longrightarrow> bit (word_of_nat n :: u64) k = bit n k"
  by transfer (simp add: bit_take_bit_iff bit_of_nat_iff_bit)

lemma word_sum_bit:
  fixes w m :: u64
  assumes "k < 64"
  shows "bit (w + (w AND m) + of_bool c) k
    \<longleftrightarrow> ((bit w k \<and> \<not> bit m k) \<noteq> ripple c (bit w) (bit m) k)"
proof -
  have "w + (w AND m) + of_bool c = word_of_nat (unat w + unat (w AND m) + of_bool c)"
    by simp
  then have "bit (w + (w AND m) + of_bool c) k = bit (unat w + unat (w AND m) + of_bool c) k"
    using assms by (simp only: bit_word_of_nat)
  moreover have "bit (unat w) = bit w"
    by (intro ext) (simp add: bit_unat)
  ultimately show ?thesis
    using bit_sum [of "unat (w AND m)" "unat w" "bit m" c k] unat_kept [of w m] by simp
qed

lemma word_carry:
  fixes w m :: u64
  shows "2 ^ 64 \<le> unat w + unat (w AND m) \<or> 2 ^ 64 \<le> unat (w + (w AND m)) + unat (of_bool c :: u64)
    \<longleftrightarrow> ripple c (bit w) (bit m) 64"
proof -
  let ?x = "unat w" and ?y = "unat (w AND m)"
  have "?x < 2 ^ 64" "?y < 2 ^ 64"
    using unsigned_less [of w] unsigned_less [of "w AND m"] by simp_all
  moreover have "bit (unat w) = bit w"
    by (intro ext) (simp add: bit_unat)
  moreover have "unat (of_bool c :: u64) = of_bool c"
    by simp
  moreover have "unat (w + (w AND m)) = (?x + ?y) mod 2 ^ 64"
    by (simp add: unat_word_ariths)
  moreover have "drop_bit 64 (?x + ?y + of_bool c)
      = drop_bit 64 ?x + drop_bit 64 ?y + of_bool (ripple c (bit ?x) (bit m) 64)"
    by (rule drop_sum) (rule unat_kept)
  ultimately show ?thesis
    by (cases c; cases "ripple c (bit w) (bit m) 64") (auto simp: drop_bit_eq_div le_mod_geq mod_if)
qed

lemma step_words_length: "length v = length masks \<Longrightarrow> length (step_words c v masks) = length v"
  by (induction c v masks rule: step_words.induct) (simp_all add: overflowing_add_def Let_def)

lemma step_words_Cons:
  "step_words (of_bool c) (w # v) (m # masks)
    = (w + (w AND m) + of_bool c OR w AND NOT m)
      # step_words (of_bool (ripple c (bit w) (bit m) 64)) v masks"
  by (simp only: step_words.simps overflowing_add_def Let_def split_conv word_carry)

lemma stepped_word:
  fixes w m :: u64
  assumes "k < 64"
  shows "bit (w + (w AND m) + of_bool c OR w AND NOT m) k = stepped c (bit w) (bit m) k"
  using word_sum_bit [OF assms, of w m c] assms
  by (auto simp: bit_or_iff bit_and_iff bit_not_iff stepped_def)

lemma step_words_bits:
  assumes "length v = length masks" and "i < 64 * length v"
  shows "vbit (step_words (of_bool c) v masks) i = stepped c (vbit v) (vbit masks) i"
  using assms
proof (induction v masks arbitrary: c i rule: list_induct2)
  case (Cons w v m masks)
  have low: "ripple c (vbit (w # v)) (vbit (m # masks)) k = ripple c (bit w) (bit m) k" if "k \<le> 64" for k
    using that by (intro ripple_cong) (simp add: vbit_Cons)
  show ?case
  proof (cases "i < 64")
    case True
    then show ?thesis
      using low [of i] unfolding step_words_Cons
      by (simp only: stepped_def vbit_Cons [of _ _ i] if_True stepped_word less_imp_le)
  next
    case False
    then obtain j where j: "i = 64 + j"
      by (auto simp: not_less le_iff_add)
    have "ripple c (vbit (w # v)) (vbit (m # masks)) (64 + j)
        = ripple (ripple c (bit w) (bit m) 64) (vbit v) (vbit masks) j"
      unfolding ripple_add vbit_high low [OF order_refl] ..
    then show ?thesis
      using Cons.IH [of j "ripple c (bit w) (bit m) 64"] Cons.prems unfolding step_words_Cons j
      by (simp only: vbit_high stepped_def) simp
  qed
qed simp

section \<open>The zeros left\<close>

lemma unat_count_ones: "unat (count_ones w) = card {b. b < 64 \<and> bit w b}"
proof -
  have "length (filter (bit w) [0..<64]) = card {b. b < 64 \<and> bit w b}"
    by (subst distinct_card [symmetric]) (auto intro: arg_cong [of _ _ card])
  moreover have "length (filter (bit w) [0..<64]) \<le> 64"
    using length_filter_le [of "bit w" "[0..<64]"] by simp
  ultimately show ?thesis
    by (simp add: count_ones_def unat_of_nat)
qed

lemma bit_inside_word:
  assumes "b < 64" and "k * 64 < 2 ^ 64"
  shows "bit (inside_word n k) b \<longleftrightarrow> k * 64 + b < n"
proof (cases "n - k * 64 < 64")
  case True
  have "sat_sub (push_bit (n - k * 64) 1) 1 = (mask (n - k * 64) :: u64)"
  proof -
    have "(1 :: u64) \<le> push_bit (n - k * 64) 1"
      using True by (simp add: push_bit_eq_mult word_le_nat_alt Suc_le_eq unat_gt_0 exp_eq_zero_iff)
    then show ?thesis
      by (simp add: sat_sub_def mask_eq_exp_minus_1 push_bit_eq_mult)
  qed
  then show ?thesis
    using True assms by (auto simp: inside_word_def us_mul_exact bit_mask_iff)
next
  case False
  then show ?thesis
    using assms by (auto simp: inside_word_def us_mul_exact)
qed

text \<open>The positions inside a row of \<open>n\<close> where the words from the \<open>k\<close>th on have a zero.\<close>

definition zeros_from :: "nat \<Rightarrow> nat \<Rightarrow> u64 list \<Rightarrow> nat set" where
  "zeros_from n k v = {i. i < 64 * length v \<and> k * 64 + i < n \<and> \<not> vbit v i}"

lemma zeros_from_Cons:
  assumes "k * 64 < 2 ^ 64"
  shows "card (zeros_from n k (w # v))
    = unat (count_ones (NOT w AND inside_word n k)) + card (zeros_from n (Suc k) v)"
proof -
  let ?low = "{b. b < 64 \<and> bit (NOT w AND inside_word n k) b}"
  have low: "bit (NOT w AND inside_word n k) b \<longleftrightarrow> \<not> bit w b \<and> k * 64 + b < n" if "b < 64" for b
    using that bit_inside_word [OF that assms] by (simp add: bit_and_iff bit_not_iff)
  have "zeros_from n k (w # v) = ?low \<union> (+) 64 ` zeros_from n (Suc k) v" (is "?l = ?r")
  proof (rule set_eqI)
    fix i
    show "i \<in> ?l \<longleftrightarrow> i \<in> ?r"
    proof (cases "i < 64")
      case True
      then show ?thesis using low [OF True] by (auto simp: zeros_from_def vbit_Cons)
    next
      case False
      then obtain j where "i = 64 + j" by (auto simp: not_less le_iff_add)
      then show ?thesis by (auto simp: zeros_from_def vbit_Cons image_iff)
    qed
  qed
  moreover have "finite (zeros_from n (Suc k) v)"
    by (simp add: zeros_from_def)
  moreover have "?low \<inter> (+) 64 ` zeros_from n (Suc k) v = {}"
    by auto
  ultimately show ?thesis
    by (simp add: card_Un_disjoint card_image unat_count_ones)
qed

lemma count_zeros_from:
  assumes "(k + length v) * 64 < 2 ^ 64" and "unat z + card (zeros_from n k v) < 2 ^ 32"
  shows "unat (foldl (\<lambda>zeros (word, bits). sat_add zeros (count_ones (NOT bits AND inside_word n word)))
      z (enumerate k v)) = unat z + card (zeros_from n k v)"
  using assms
proof (induction v arbitrary: k z)
  case (Cons w v)
  have split: "card (zeros_from n k (w # v))
      = unat (count_ones (NOT w AND inside_word n k)) + card (zeros_from n (Suc k) v)"
    using Cons.prems by (intro zeros_from_Cons) simp
  then have "unat (sat_add z (count_ones (NOT w AND inside_word n k)))
      = unat z + unat (count_ones (NOT w AND inside_word n k))"
    using Cons.prems by (simp add: unat_sat_add)
  then show ?case
    using Cons split by simp
qed (simp add: zeros_from_def)

lemma gentle_rise: "gentle r \<Longrightarrow> card {i. i < n \<and> r (Suc i) \<noteq> r i} = r n"
proof (induction n)
  case (Suc n)
  have "{i. i < Suc n \<and> r (Suc i) \<noteq> r i}
      = {i. i < n \<and> r (Suc i) \<noteq> r i} \<union> (if r (Suc n) \<noteq> r n then {n} else {})"
    by (auto simp: less_Suc_eq)
  moreover have "r n \<le> r (Suc n)" "r (Suc n) \<le> Suc (r n)"
    using Suc.prems by (simp_all add: gentle_def)
  ultimately show ?case
    using Suc by auto
qed (simp add: gentle_def)

text \<open>Words that stand for a row of the table count to the end of that row.\<close>

lemma count_zeros_row:
  assumes "gentle r" and "n \<le> 64 * length v" and "n < 2 ^ 32" and "length v < 2 ^ 32"
    and "\<And>i. i < n \<Longrightarrow> vbit v i \<longleftrightarrow> r (Suc i) = r i"
  shows "unat (count_zeros n v) = r n"
proof -
  have "zeros_from n 0 v = {i. i < n \<and> r (Suc i) \<noteq> r i}"
    using assms(2,5) by (auto simp: zeros_from_def)
  then have "card (zeros_from n 0 v) = r n"
    using gentle_rise [OF assms(1)] by simp
  moreover have "r n \<le> n"
    using gentle_rise [OF assms(1), of n] card_mono [of "{..<n}" "{i. i < n \<and> r (Suc i) \<noteq> r i}"]
    by auto
  ultimately show ?thesis
    using count_zeros_from [of 0 v 0 n] assms(3,4) by (simp add: count_zeros_def)
qed

section \<open>The masks\<close>

definition mask_bit :: "likeness \<Rightarrow> nat \<Rightarrow> nat \<Rightarrow> bool" where
  "mask_bit l slot i = bit (lk_masks l ! (slot * lk_words l + i div 64)) (i mod 64)"

text \<open>
  With the first \<open>k\<close> characters marked there are \<open>S\<close> masks, one for each character seen, and each
  has the bits of its character's positions.
\<close>

definition slots_ok :: "nat \<Rightarrow> likeness \<Rightarrow> bool" where
  "slots_ok S l \<longleftrightarrow>
     length (lk_ascii l) = 128 \<and> length (lk_masks l) = S * lk_words l
     \<and> (\<forall>c s. lk_slot l c = Some s \<longrightarrow> s < S)
     \<and> (\<forall>c d s. lk_slot l c = Some s \<and> lk_slot l d = Some s \<longrightarrow> c = d)"

definition marks_ok :: "uchar list \<Rightarrow> nat \<Rightarrow> likeness \<Rightarrow> bool" where
  "marks_ok chars k l \<longleftrightarrow>
     (\<forall>i < k. lk_slot l (chars ! i) \<noteq> None)
     \<and> (\<forall>c s i. lk_slot l c = Some s \<and> i < 64 * lk_words l
          \<longrightarrow> (mask_bit l s i \<longleftrightarrow> i < k \<and> chars ! i = c))"

lemma lk_slot_masks [simp]: "lk_slot (l\<lparr>lk_masks := m\<rparr>) c = lk_slot l c"
  by (simp add: lk_slot_def)

lemma add_slot_words [simp]: "lk_words (fst (add_slot c l)) = lk_words l"
  by (simp add: add_slot_def Let_def)

lemma add_slot_masks:
  "lk_masks (fst (add_slot c l)) = lk_masks l @ replicate (lk_words l) 0"
  by (simp add: add_slot_def Let_def)

lemma add_slot_slot:
  assumes "slots_ok S l" and "0 < lk_words l" and "Suc S < 2 ^ 16"
  shows "snd (add_slot c l) = S"
    and "lk_slot (fst (add_slot c l)) d = (if d = c then Some S else lk_slot l d)"
proof -
  have S: "length (lk_masks l) div lk_words l = S"
    using assms by (simp add: slots_ok_def)
  then show "snd (add_slot c l) = S"
    by (simp add: add_slot_def Let_def)
  have number: "mask_number S = word_of_nat (Suc S)"
    using assms(3) by (simp add: mask_number_def us_add_exact)
  moreover have "unat (word_of_nat (Suc S) :: 16 word) = Suc S"
    using assms(3) by (simp add: unat_of_nat del: of_nat_Suc)
  moreover from this have "(word_of_nat (Suc S) :: 16 word) \<noteq> 0"
    by (metis nat.distinct(1) unat_0)
  moreover have "unat c = unat d \<longleftrightarrow> d = c"
    by (auto simp: word_unat_eq_iff)
  ultimately show "lk_slot (fst (add_slot c l)) d = (if d = c then Some S else lk_slot l d)"
    using S by (cases "unat c < length (lk_ascii l)")
      (simp_all add: add_slot_def lk_slot_def Let_def nth_list_update number del: of_nat_Suc)
qed

lemma add_slot_ascii [simp]: "length (lk_ascii (fst (add_slot c l))) = length (lk_ascii l)"
  by (simp add: add_slot_def Let_def)

lemma add_slot_ok:
  assumes "slots_ok S l" and "marks_ok chars k l" and "0 < lk_words l" and "Suc S < 2 ^ 16"
    and "lk_slot l c = None"
  shows "slots_ok (Suc S) (fst (add_slot c l))" and "marks_ok chars k (fst (add_slot c l))"
proof -
  note slot = add_slot_slot [OF assms(1,3,4)]
  have less: "t < S" if "lk_slot l d = Some t" for d t
    using assms(1) that by (auto simp: slots_ok_def)
  show "slots_ok (Suc S) (fst (add_slot c l))"
    using assms(1,5) unfolding slots_ok_def slot(2) add_slot_masks
    by (auto simp: slots_ok_def less_Suc_eq split: if_splits)
  have len: "length (lk_masks l) = S * lk_words l"
    using assms(1) by (simp add: slots_ok_def)
  have old: "mask_bit (fst (add_slot c l)) t i = mask_bit l t i"
    if "t < S" "i < 64 * lk_words l" for t i
  proof -
    have "i div 64 < lk_words l"
      using that(2) by (simp add: div_less_iff_less_mult mult.commute)
    then have "t * lk_words l + i div 64 < Suc t * lk_words l"
      by simp
    also have "\<dots> \<le> S * lk_words l"
      using that(1) by (intro mult_le_mono1) simp
    finally show ?thesis
      using len by (simp add: mask_bit_def add_slot_masks nth_append)
  qed
  have new: "\<not> mask_bit (fst (add_slot c l)) S i" if "i < 64 * lk_words l" for i
    using that len
    by (simp add: mask_bit_def add_slot_masks nth_append div_less_iff_less_mult mult.commute)
  have "chars ! i \<noteq> c" if "i < k" for i
    using assms(2,5) that by (auto simp: marks_ok_def)
  then show "marks_ok chars k (fst (add_slot c l))"
    using assms(2) less old new unfolding marks_ok_def slot(2)
    by (auto split: if_splits)
qed

text \<open>Setting the bit of position \<open>k\<close> in the mask of the character there.\<close>

definition set_mask :: "nat \<Rightarrow> nat \<Rightarrow> likeness \<Rightarrow> likeness" where
  "set_mask slot k l =
     (let word = slot * lk_words l + k div 64
      in l\<lparr>lk_masks := (lk_masks l)[word := lk_masks l ! word OR push_bit (k mod 64) 1]\<rparr>)"

lemma set_mask_bit:
  assumes "slots_ok S l" and "s < S" and "k < 64 * lk_words l" and "i < 64 * lk_words l"
  shows "mask_bit (set_mask s k l) t i \<longleftrightarrow> mask_bit l t i \<or> t = s \<and> i = k"
proof -
  have div: "i div 64 < lk_words l" "k div 64 < lk_words l"
    using assms(3,4) by (simp_all add: div_less_iff_less_mult mult.commute)
  then have "s * lk_words l + k div 64 < Suc s * lk_words l"
    by simp
  also have "\<dots> \<le> S * lk_words l"
    using assms(2) by (intro mult_le_mono1) simp
  finally have inside: "s * lk_words l + k div 64 < length (lk_masks l)"
    using assms(1) by (simp add: slots_ok_def)
  have "i = k \<longleftrightarrow> i div 64 = k div 64 \<and> i mod 64 = k mod 64"
    by (metis div_mult_mod_eq)
  moreover have "bit (push_bit (k mod 64) 1 :: u64) (i mod 64) \<longleftrightarrow> i mod 64 = k mod 64"
    by (auto simp: push_bit_eq_mult bit_exp_iff)
  ultimately show ?thesis
    using inside row_major_unique [OF div(2) div(1), of s t]
    by (auto simp: mask_bit_def set_mask_def Let_def nth_list_update bit_or_iff)
qed

lemma set_mask_ok:
  assumes "slots_ok S l" and "marks_ok chars k l" and "lk_slot l (chars ! k) = Some s"
    and "k < 64 * lk_words l"
  shows "slots_ok S (set_mask s k l)" and "marks_ok chars (Suc k) (set_mask s k l)"
proof -
  have slot: "lk_slot (set_mask s k l) d = lk_slot l d" for d
    by (simp add: set_mask_def Let_def)
  have words: "lk_words (set_mask s k l) = lk_words l"
    by (simp add: set_mask_def Let_def)
  show "slots_ok S (set_mask s k l)"
    using assms(1) unfolding slots_ok_def slot words by (simp add: set_mask_def Let_def)
  have s: "s < S" and unique: "lk_slot l d = Some s \<Longrightarrow> d = chars ! k" for d
    using assms(1,3) by (auto simp: slots_ok_def)
  note bits = set_mask_bit [OF assms(1) s assms(4)]
  have seen: "lk_slot l (chars ! i) \<noteq> None" if "i < Suc k" for i
    using assms(2,3) that by (cases "i = k") (simp_all add: marks_ok_def)
  have "mask_bit (set_mask s k l) t i \<longleftrightarrow> i < Suc k \<and> chars ! i = c"
    if "lk_slot l c = Some t" "i < 64 * lk_words l" for c t i
  proof -
    have "mask_bit l t i \<longleftrightarrow> i < k \<and> chars ! i = c"
      using assms(2) that unfolding marks_ok_def by blast
    moreover have "t = s \<longleftrightarrow> c = chars ! k"
      using assms(3) that(1) unique [of c] by auto
    ultimately show ?thesis
      using bits [OF that(2), of t] by (auto simp: less_Suc_eq)
  qed
  with seen show "marks_ok chars (Suc k) (set_mask s k l)"
    unfolding marks_ok_def slot words by blast
qed

lemma mark_char_ok:
  assumes "slots_ok S l" and "marks_ok chars k l" and "S \<le> k" and "Suc k < 2 ^ 16"
    and "k < 64 * lk_words l" and "lk_words l < 2 ^ 16"
  shows "\<exists>S' \<le> Suc k. slots_ok S' (mark_char l (k, chars ! k))
      \<and> marks_ok chars (Suc k) (mark_char l (k, chars ! k))
      \<and> lk_words (mark_char l (k, chars ! k)) = lk_words l"
proof -
  let ?c = "chars ! k"
  define l' s where "l' = (if lk_slot l ?c = None then fst (add_slot ?c l) else l)"
    and "s = (case lk_slot l ?c of None \<Rightarrow> S | Some s \<Rightarrow> s)"
  define S' where "S' = (if lk_slot l ?c = None then Suc S else S)"
  have W: "0 < lk_words l"
    using assms(5) by (cases "lk_words l") simp_all
  have S: "Suc S < 2 ^ 16"
    using assms(3,4) by linarith
  have ok: "slots_ok S' l'" "marks_ok chars k l'" "lk_slot l' ?c = Some s" "lk_words l' = lk_words l"
    using assms(1,2) add_slot_ok [OF assms(1,2) W S] add_slot_slot [OF assms(1) W S]
    by (auto simp: l'_def s_def S'_def)
  then have s: "s < S'" and len: "length (lk_masks l') = S' * lk_words l"
    by (auto simp: slots_ok_def)
  have "k div 64 < lk_words l"
    using assms(5) by (simp add: div_less_iff_less_mult mult.commute)
  then have "s * lk_words l + k div 64 < Suc s * lk_words l"
    by simp
  also have "\<dots> \<le> S' * lk_words l"
    using s by (intro mult_le_mono1) simp
  finally have inside: "s * lk_words l + k div 64 < S' * lk_words l" .
  moreover have "S' * lk_words l \<le> 2 ^ 16 * 2 ^ 16"
    using assms(3,4,6) by (intro mult_le_mono) (auto simp: S'_def)
  ultimately have "us_add (us_mul s (lk_words l)) (k div 64) = s * lk_words l + k div 64"
    by (simp add: us_add_exact us_mul_exact)
  moreover have "(case lk_slot l ?c of Some slot \<Rightarrow> (l, slot) | None \<Rightarrow> add_slot ?c l) = (l', s)"
    using add_slot_slot(1) [OF assms(1) W S, of ?c]
    by (auto simp: l'_def s_def prod_eq_iff split: option.splits)
  ultimately have "mark_char l (k, ?c) = set_mask s k l'"
    using inside len ok(4) by (simp add: mark_char_def set_mask_def Let_def)
  moreover have "S' \<le> Suc k"
    using assms(3) by (simp add: S'_def)
  moreover have "lk_words (set_mask s k l') = lk_words l"
    using ok(4) by (simp add: set_mask_def Let_def)
  ultimately show ?thesis
    using set_mask_ok [OF ok(1-3)] assms(5) ok(4) by auto
qed

lemma marked_prefix:
  assumes "length chars \<le> 64 * words" and "words < 2 ^ 16" and "k \<le> length chars" and "k < 2 ^ 16 - 1"
  shows "\<exists>S \<le> k. slots_ok S (foldl mark_char (likeness_empty words) (enumerate 0 (take k chars)))
      \<and> marks_ok chars k (foldl mark_char (likeness_empty words) (enumerate 0 (take k chars)))
      \<and> lk_words (foldl mark_char (likeness_empty words) (enumerate 0 (take k chars))) = words"
  using assms(3,4)
proof (induction k)
  case 0
  have "lk_slot (likeness_empty words) c = None" for c
    by (simp add: lk_slot_def likeness_empty_def Let_def)
  then show ?case
    by (simp add: slots_ok_def marks_ok_def) (simp add: likeness_empty_def)
next
  case (Suc k)
  define l where "l = foldl mark_char (likeness_empty words) (enumerate 0 (take k chars))"
  have "foldl mark_char (likeness_empty words) (enumerate 0 (take (Suc k) chars))
      = mark_char l (k, chars ! k)"
    using Suc.prems by (simp add: take_Suc_conv_app_nth enumerate_append_eq l_def min_def)
  moreover obtain S where "S \<le> k" "slots_ok S l" "marks_ok chars k l" "lk_words l = words"
    using Suc unfolding l_def by auto
  ultimately show ?case
    using mark_char_ok [of S l chars k] Suc.prems assms(1,2) by simp
qed

definition words_for :: "uchar list \<Rightarrow> nat" where
  "words_for chars = max ((length chars + 63) div 64) 1"

lemma words_for_enough: "length chars \<le> 64 * words_for chars"
  by (simp add: words_for_def)

lemma Likeness_of_ok:
  assumes "length chars < 2 ^ 16 - 1"
  obtains S where "S < 2 ^ 16" "slots_ok S (Likeness_of chars)"
    "marks_ok chars (length chars) (Likeness_of chars)"
    "lk_words (Likeness_of chars) = words_for chars" "words_for chars < 2 ^ 16"
    "lk_chars (Likeness_of chars) = chars"
proof -
  let ?l = "foldl mark_char (likeness_empty (words_for chars)) (enumerate 0 chars)"
  have words: "words_for chars < 2 ^ 16"
    using assms by (simp add: words_for_def)
  have l: "Likeness_of chars = ?l\<lparr>lk_chars := chars\<rparr>"
    by (simp add: Likeness_of_def words_for_def Let_def)
  have slot: "lk_slot (Likeness_of chars) c = lk_slot ?l c" for c
    by (simp add: l lk_slot_def)
  obtain S where S: "S \<le> length chars" "slots_ok S ?l" "marks_ok chars (length chars) ?l"
    "lk_words ?l = words_for chars"
    using marked_prefix [OF words_for_enough words order_refl assms] by auto
  show thesis
  proof (rule that [of S])
    show "slots_ok S (Likeness_of chars)"
      using S(2) unfolding slots_ok_def slot by (simp add: l)
    show "marks_ok chars (length chars) (Likeness_of chars)"
      using S(3) unfolding marks_ok_def slot by (simp add: l mask_bit_def)
  qed (use S words assms in \<open>simp_all add: l\<close>)
qed

section \<open>The common characters are a longest common subsequence\<close>

lemma common_step_row:
  assumes "length chars < 2 ^ 16 - 1" and "gentle r" and "length v = words_for chars"
    and "\<And>i. i < length chars \<Longrightarrow> vbit v i \<longleftrightarrow> r (Suc i) = r i"
  shows "length (common_step (Likeness_of chars) v c) = words_for chars
    \<and> (\<forall>i < length chars. vbit (common_step (Likeness_of chars) v c) i
         \<longleftrightarrow> lcs_row chars r c (Suc i) = lcs_row chars r c i)"
proof -
  let ?l = "Likeness_of chars" and ?W = "words_for chars"
  obtain S where S: "S < 2 ^ 16" "slots_ok S ?l" "marks_ok chars (length chars) ?l"
    "lk_words ?l = ?W" "?W < 2 ^ 16"
    using Likeness_of_ok [OF assms(1)] by blast
  show ?thesis
  proof (cases "lk_slot ?l c")
    case None
    then have "chars ! i \<noteq> c" if "i < length chars" for i
      using S(3) that by (auto simp: marks_ok_def)
    then have "lcs_row chars r c i = r i" if "i \<le> length chars" for i
      using that
    proof (induction i)
      case (Suc i)
      then show ?case using assms(2) by (simp add: gentle_def max_def)
    qed (use assms(2) in \<open>simp add: gentle_def\<close>)
    then show ?thesis
      using None assms(3,4) by (simp add: common_step_def del: lcs_row.simps)
  next
    case (Some s)
    let ?m = "take ?W (drop (s * ?W) (lk_masks ?l))"
    have s: "s < S" and len: "length (lk_masks ?l) = S * ?W"
      using S(2,4) Some by (auto simp: slots_ok_def)
    have "Suc s * ?W \<le> S * ?W"
      using s by (intro mult_le_mono1) simp
    moreover have "S * ?W \<le> 2 ^ 16 * 2 ^ 16"
      using S(1,5) by (intro mult_le_mono) auto
    ultimately have step: "common_step ?l v c = step_words 0 v ?m" and m: "length ?m = ?W"
      using Some len S(4) by (simp_all add: common_step_def us_add_exact us_mul_exact Let_def)
    have bits: "vbit ?m i \<longleftrightarrow> chars ! i = c" if "i < length chars" for i
    proof -
      have i: "i < 64 * ?W"
        using that words_for_enough [of chars] by linarith
      then have "i div 64 < ?W"
        by (simp add: div_less_iff_less_mult mult.commute)
      then have "vbit ?m i = mask_bit ?l s i"
        using len \<open>Suc s * ?W \<le> S * ?W\<close>
        by (simp add: vbit_def mask_bit_def S(4) nth_drop [OF order_trans [OF le_add2]])
      then show ?thesis
        using S(3,4) Some i that by (auto simp: marks_ok_def)
    qed
    have "vbit (step_words 0 v ?m) i \<longleftrightarrow> lcs_row chars r c (Suc i) = lcs_row chars r c i"
      if "i < length chars" for i
    proof -
      have "i < 64 * length v"
        using that words_for_enough [of chars] assms(3) by linarith
      then have "vbit (step_words 0 v ?m) i = stepped False (vbit v) (vbit ?m) i"
        using step_words_bits [of v ?m i False] m assms(3) by simp
      then show ?thesis
        using stepped_is_next_row [OF assms(2) that assms(4) bits] by simp
    qed
    then show ?thesis
      using step m step_words_length [of v ?m 0] assms(3) by simp
  qed
qed

lemma common_rows:
  assumes "length chars < 2 ^ 16 - 1"
  shows "gentle (lcs_rows chars other)
    \<and> length (foldl (common_step (Likeness_of chars)) (replicate (words_for chars) (- 1)) other)
      = words_for chars
    \<and> (\<forall>i < length chars.
         vbit (foldl (common_step (Likeness_of chars)) (replicate (words_for chars) (- 1)) other) i
         \<longleftrightarrow> lcs_rows chars other (Suc i) = lcs_rows chars other i)"
proof (induction other rule: rev_induct)
  case Nil
  have "vbit (replicate (words_for chars) (- 1)) i" if "i < length chars" for i
    using that words_for_enough [of chars] by (simp add: vbit_def div_less_iff_less_mult mult.commute)
  then show ?case
    by (simp add: lcs_rows_def gentle_def)
next
  case (snoc c other)
  then show ?case
    using common_step_row [OF assms, of "lcs_rows chars other"] lcs_row_gentle [of "lcs_rows chars other" chars c]
    by (simp add: lcs_rows_def del: lcs_row.simps)
qed

lemma common_longest:
  assumes "length chars < 2 ^ 16 - 1"
  shows "longest_common (common (Likeness_of chars) other) chars other"
proof -
  let ?v = "foldl (common_step (Likeness_of chars)) (replicate (words_for chars) (- 1)) other"
  obtain S where "lk_words (Likeness_of chars) = words_for chars" "words_for chars < 2 ^ 16"
    "lk_chars (Likeness_of chars) = chars"
    using Likeness_of_ok [OF assms] by blast
  then have "common (Likeness_of chars) other = lcs_rows chars other (length chars)"
    using common_rows [OF assms, of other] words_for_enough [of chars] assms
    by (simp add: common_def count_zeros_row)
  then show ?thesis
    using lcs_rows_longest [of "length chars" chars other] by simp
qed

lemma longest_common_le: "longest_common n xs ys \<Longrightarrow> n \<le> length xs \<and> n \<le> length ys"
  by (auto simp: longest_common_def dest: list_emb_length)

text \<open>
  C4. The bit-parallel count is the length of a longest common subsequence: of the two rows'
  common subsequences one is that long, and none is longer, for every row of fewer than 65,535
  characters, whatever characters and however many words the row takes.
\<close>

theorem common_is_longest:
  assumes "length chars < 2 ^ 16 - 1"
  shows "(\<exists>zs. subseq zs chars \<and> subseq zs other \<and> length zs = common (Likeness_of chars) other)
    \<and> (\<forall>zs. subseq zs chars \<and> subseq zs other \<longrightarrow> length zs \<le> common (Likeness_of chars) other)"
  using common_longest [OF assms, of other] by (simp add: longest_common_def)

text \<open>A row of 65 characters takes two words, and the carry passes from the first to the second.\<close>

definition long_row :: "uchar list" where
  "long_row = replicate 64 97 @ [233]"

theorem common_is_longest_witness:
  "length long_row < 2 ^ 16 - 1 \<and> (\<exists>zs. subseq zs long_row \<and> subseq zs [97, 233, 97]
     \<and> length zs = common (Likeness_of long_row) [97, 233, 97])"
proof -
  have "length long_row < 2 ^ 16 - 1"
    by (simp add: long_row_def)
  then show ?thesis
    using common_is_longest [of long_row "[97, 233, 97]"] by blast
qed

lemma alike_half:
  assumes "length a < 2 ^ 16 - 1" and "length b < 2 ^ 16 - 1"
  shows "alike (Likeness_of a) (Likeness_of b) \<longleftrightarrow>
    a \<noteq> [] \<and> b \<noteq> []
    \<and> (\<exists>zs. subseq zs a \<and> subseq zs b \<and> max (length a) (length b) \<le> 2 * length zs)"
proof -
  let ?n = "common (Likeness_of a) b"
  have chars: "lk_chars (Likeness_of c) = c" for c
    by (simp add: Likeness_of_def Let_def)
  have n: "longest_common ?n a b"
    by (rule common_longest [OF assms(1)])
  then obtain zs where zs: "subseq zs a" "subseq zs b" "length zs = ?n"
    and bound: "\<And>zs. subseq zs a \<Longrightarrow> subseq zs b \<Longrightarrow> length zs \<le> ?n"
    unfolding longest_common_def by blast
  have half: "(\<exists>zs. subseq zs a \<and> subseq zs b \<and> max (length a) (length b) \<le> 2 * length zs)
      \<longleftrightarrow> max (length a) (length b) \<le> 2 * ?n"
  proof
    assume "max (length a) (length b) \<le> 2 * ?n"
    with zs show "\<exists>zs. subseq zs a \<and> subseq zs b \<and> max (length a) (length b) \<le> 2 * length zs"
      by (intro exI [of _ zs]) simp
  qed (auto dest!: bound simp del: max.bounded_iff)
  have "us_mul ?n 2 = 2 * ?n" "us_mul (length a) 2 = 2 * length a" "us_mul (length b) 2 = 2 * length b"
    using longest_common_le [OF n] assms by (simp_all add: us_mul_exact)
  then show ?thesis
    using longest_common_le [OF n] unfolding half alike_def chars Let_def by (auto simp: max_def)
qed

text \<open>
  Two rows are alike exactly when neither is blank and they share, in order, at least half the
  characters of the longer: the test by length that saves the count never changes the answer.
\<close>

theorem alike_shares_half:
  assumes "length a < 2 ^ 16 - 1" and "length b < 2 ^ 16 - 1"
  shows "alike (Likeness_of a) (Likeness_of b) \<longleftrightarrow>
    a \<noteq> [] \<and> b \<noteq> []
    \<and> (\<exists>zs. subseq zs a \<and> subseq zs b \<and> max (length a) (length b) \<le> 2 * length zs)"
  using assms by (rule alike_half)

theorem alike_shares_half_witness:
  "length [97, 98, 99 :: uchar] < 2 ^ 16 - 1 \<and> length [98, 120, 99, 121 :: uchar] < 2 ^ 16 - 1
    \<and> alike (Likeness_of [97, 98, 99]) (Likeness_of [98, 120, 99, 121])"
proof -
  let ?a = "[97, 98, 99 :: uchar]" and ?b = "[98, 120, 99, 121 :: uchar]"
  have len: "length ?a < 2 ^ 16 - 1" "length ?b < 2 ^ 16 - 1"
    by simp_all
  have "subseq [98, 99] ?a \<and> subseq [98, 99] ?b \<and> max (length ?a) (length ?b) \<le> 2 * length [98, 99 :: uchar]"
    by simp
  then have "alike (Likeness_of ?a) (Likeness_of ?b)"
    unfolding alike_shares_half [OF len] by (intro conjI exI [of _ "[98, 99]"]) simp_all
  with len show ?thesis
    by blast
qed

end
