(* ===== verification/Row_Keeping.thy ===== *)
theory Row_Keeping
  imports Indices
begin

text \<open>
  Which rows of a terminal two reads have in common, \<open>keep\<close> of
  \<^verbatim>\<open>verbatim-text/src/terminal_rows/align.rs\<close>: one pass over every old row by every new row, with
  running maxima on each shift and above and to the left, and a walk back over the pairs found. The
  theorem shows that what it returns is the alignment its documentation promises: the most rows
  kept, then the fewest blocks, then the fewest rows moved.

  A row's number and a position are natural numbers and a score an integer, with the source's
  saturation (\<open>Indices\<close>). \<open>NONE\<close> of the source is the number \<open>NO_PAIR\<close>.
\<close>

section \<open>The tables\<close>

definition KEPT :: int where
  "KEPT = 2 ^ 42"

definition BLOCK :: int where
  "BLOCK = 2 ^ 21"

definition NO_PAIR :: nat where
  "NO_PAIR = 2 ^ 32 - 1"

record kept_match =
  km_old :: nat
  km_new :: nat
  km_prev :: nat

type_synonym cell = "int \<times> nat"

abbreviation no_cell :: cell where
  "no_cell \<equiv> (0, NO_PAIR)"

definition cell_at :: "cell list \<Rightarrow> nat \<Rightarrow> cell" where
  "cell_at cells i = (if i < length cells then cells ! i else no_cell)"

record keep_tables =
  kt_same :: "cell list"
  kt_above :: "cell list"
  kt_here :: "cell list"
  kt_found :: "kept_match list"
  kt_left :: cell

text \<open>The score of a kept pair and the pair before it, from the cell above and to the left of it and
  the best on its shift.\<close>

definition kept_score :: "int \<Rightarrow> cell \<Rightarrow> cell \<Rightarrow> cell" where
  "kept_score moved diagonal run =
     (let score = i64_sub (i64_sub (i64_add (fst diagonal) KEPT) BLOCK) moved;
          continued = i64_sub (i64_add (fst run) KEPT) moved
      in if snd run \<noteq> NO_PAIR \<and> score < continued then (continued, snd run)
         else (score, snd diagonal))"

text \<open>The branch of a cell whose rows match: the tables, and the best of the cell.\<close>

definition keep_pair ::
  "int \<Rightarrow> int \<Rightarrow> nat \<Rightarrow> nat \<Rightarrow> nat \<Rightarrow> cell \<Rightarrow> keep_tables \<Rightarrow> keep_tables \<times> cell" where
  "keep_pair fixed low old_index j new_index best t =
     (let shift = i64_sub (isize_of new_index) (isize_of old_index);
          moved = of_bool (shift \<noteq> fixed);
          diagonal = (case j of 0 \<Rightarrow> no_cell | Suc d \<Rightarrow> cell_at (kt_above t) d);
          slot = nat (i64_sub shift low);
          (score, prev) = kept_score moved diagonal (cell_at (kt_same t) slot);
          pair_id = (if length (kt_found t) < 2 ^ 32 then length (kt_found t) else NO_PAIR);
          found = kt_found t @ [\<lparr>km_old = old_index, km_new = new_index, km_prev = prev\<rparr>];
          same = (if slot < length (kt_same t) \<and> fst (kt_same t ! slot) < score
                  then (kt_same t)[slot := (score, pair_id)] else kt_same t)
      in (t\<lparr>kt_found := found, kt_same := same\<rparr>,
          if fst best < score then (score, pair_id) else best))"

text \<open>The body of the inner loop, for the old row at position \<open>i\<close>.\<close>

definition keep_cell ::
  "(nat \<Rightarrow> nat \<Rightarrow> bool) \<Rightarrow> int \<Rightarrow> int \<Rightarrow> nat \<Rightarrow> nat \<Rightarrow> keep_tables \<Rightarrow> nat \<times> nat \<Rightarrow> keep_tables" where
  "keep_cell matches fixed low i old_index t j_new =
     (let (j, new_index) = j_new;
          best = cell_at (kt_above t) j;
          best = (if fst best < fst (kt_left t) then kt_left t else best);
          (t, best) = (if matches i j then keep_pair fixed low old_index j new_index best t
                       else (t, best))
      in t\<lparr>kt_here := (kt_here t)[j := best], kt_left := best\<rparr>)"

text \<open>The body of the outer loop, with the swap of the two rows of cells.\<close>

definition keep_row ::
  "(nat \<Rightarrow> nat \<Rightarrow> bool) \<Rightarrow> int \<Rightarrow> int \<Rightarrow> nat list \<Rightarrow> keep_tables \<Rightarrow> nat \<times> nat \<Rightarrow> keep_tables" where
  "keep_row matches fixed low new t i_old =
     (let (i, old_index) = i_old;
          t = foldl (keep_cell matches fixed low i old_index) (t\<lparr>kt_left := no_cell\<rparr>) (enumerate 0 new)
      in t\<lparr>kt_above := kt_here t, kt_here := kt_above t\<rparr>)"

text \<open>The walk back, None if it should not end. It pushes the last pair first.\<close>

partial_function (option) walk_back :: "kept_match list \<Rightarrow> nat \<Rightarrow> (nat \<times> nat) list option" where
  "walk_back found pos =
     (if pos = NO_PAIR then Some []
      else if pos < length found then
        Option.bind (walk_back found (km_prev (found ! pos)))
          (\<lambda>pairs. Some ((km_old (found ! pos), km_new (found ! pos)) # pairs))
      else Some [])"

definition tables_new :: "nat \<Rightarrow> nat \<Rightarrow> keep_tables" where
  "tables_new span m =
     \<lparr>kt_same = replicate span no_cell, kt_above = replicate m no_cell,
      kt_here = replicate m no_cell, kt_found = [], kt_left = no_cell\<rparr>"

definition lowest_shift :: "nat list \<Rightarrow> nat list \<Rightarrow> int" where
  "lowest_shift old new = i64_sub (isize_of (hd new)) (isize_of (last old))"

definition shift_span :: "nat list \<Rightarrow> nat list \<Rightarrow> nat" where
  "shift_span old new =
     nat (i64_add (i64_sub (i64_sub (isize_of (last new)) (isize_of (hd old))) (lowest_shift old new)) 1)"

definition keep ::
  "nat list \<Rightarrow> nat list \<Rightarrow> (nat \<Rightarrow> nat \<Rightarrow> bool) \<Rightarrow> int \<Rightarrow> (nat \<times> nat) list option" where
  "keep old new matches fixed =
     (if old = [] \<or> new = [] then Some []
      else
        let low = lowest_shift old new;
            t = foldl (keep_row matches fixed low new) (tables_new (shift_span old new) (length new))
                  (enumerate 0 old);
            pos = (if kt_above t = [] then NO_PAIR else snd (last (kt_above t)))
        in map_option rev (walk_back (kt_found t) pos))"

section \<open>Alignments\<close>

text \<open>
  An alignment is a list of pairs of an old and a new row, later pairs further down in both. Its
  blocks are the runs of pairs with one shift.
\<close>

definition shift_of :: "nat \<times> nat \<Rightarrow> int" where
  "shift_of p = int (snd p) - int (fst p)"

definition alignment :: "(nat \<times> nat) set \<Rightarrow> (nat \<times> nat) list \<Rightarrow> bool" where
  "alignment R ps \<longleftrightarrow> set ps \<subseteq> R \<and> sorted_wrt (\<lambda>p q. fst p < fst q \<and> snd p < snd q) ps"

definition blocks :: "(nat \<times> nat) list \<Rightarrow> nat" where
  "blocks ps = length (remdups_adj (map shift_of ps))"

definition moved_rows :: "int \<Rightarrow> (nat \<times> nat) list \<Rightarrow> nat" where
  "moved_rows fixed ps = length (filter (\<lambda>p. shift_of p \<noteq> fixed) ps)"

text \<open>The pairs that match among the first \<open>n\<close> old rows and the first \<open>m\<close> new ones.\<close>

definition region :: "nat list \<Rightarrow> nat list \<Rightarrow> (nat \<Rightarrow> nat \<Rightarrow> bool) \<Rightarrow> nat \<Rightarrow> nat \<Rightarrow> (nat \<times> nat) set" where
  "region old new matches n m = {(old ! i, new ! j) | i j. i < n \<and> j < m \<and> matches i j}"

text \<open>The tables build alignments from their last pair, so the proofs do.\<close>

definition ralign :: "(nat \<times> nat) set \<Rightarrow> (nat \<times> nat) list \<Rightarrow> bool" where
  "ralign R ps \<longleftrightarrow> alignment R (rev ps)"

fun score :: "int \<Rightarrow> (nat \<times> nat) list \<Rightarrow> int" where
  "score fixed [] = 0"
| "score fixed (p # ps) =
     score fixed ps + KEPT - of_bool (shift_of p \<noteq> fixed)
       - (if ps \<noteq> [] \<and> shift_of (hd ps) = shift_of p then 0 else BLOCK)"

lemma alignment_distinct: "alignment R ps \<Longrightarrow> distinct ps"
  by (induction ps) (auto simp: alignment_def)

lemma ralign_Nil [simp]: "ralign R []"
  by (simp add: ralign_def alignment_def)

lemma ralign_Cons:
  "ralign R (p # ps) \<longleftrightarrow>
     p \<in> R \<and> ralign R ps \<and> (\<forall>q \<in> set ps. fst q < fst p \<and> snd q < snd p)"
  by (auto simp: ralign_def alignment_def sorted_wrt_append)

lemma ralign_mono: "ralign R ps \<Longrightarrow> R \<subseteq> R' \<Longrightarrow> ralign R' ps"
  by (auto simp: ralign_def alignment_def)

lemma regionI: "i < n \<Longrightarrow> j < m \<Longrightarrow> matches i j \<Longrightarrow> (old ! i, new ! j) \<in> region old new matches n m"
  by (auto simp: region_def)

lemma region_mono: "n \<le> n' \<Longrightarrow> m \<le> m' \<Longrightarrow> region old new matches n m \<subseteq> region old new matches n' m'"
  unfolding region_def by fastforce

lemma region_empty [simp]: "region old new matches 0 m = {}" "region old new matches n 0 = {}"
  by (auto simp: region_def)

lemma ralign_empty: "ralign {} ps \<longleftrightarrow> ps = []"
  by (cases ps) (simp_all add: ralign_Cons)

text \<open>What a score says: rows kept count most, then blocks, then rows moved.\<close>

lemma score_counts:
  "score fixed ps = KEPT * int (length ps) - BLOCK * int (blocks ps) - int (moved_rows fixed ps)"
proof (induction ps)
  case (Cons p ps)
  have "blocks (p # ps) = blocks ps + (if ps \<noteq> [] \<and> shift_of (hd ps) = shift_of p then 0 else 1)"
    by (cases ps) (simp_all add: blocks_def)
  moreover have "blocks [] = 0"
    by (simp add: blocks_def)
  ultimately show ?case
    using Cons by (auto simp: moved_rows_def algebra_simps)
qed (simp add: blocks_def moved_rows_def)

lemma blocks_le: "blocks ps \<le> length ps"
  using remdups_adj_length [of "map shift_of ps"] by (simp add: blocks_def)

lemma moved_rows_le: "moved_rows fixed ps \<le> length ps"
  by (simp add: moved_rows_def)

lemma score_bounds:
  "int (length ps) \<le> score fixed ps" "score fixed ps \<le> KEPT * int (length ps)"
proof -
  have "int (blocks ps) \<le> int (length ps)" "int (moved_rows fixed ps) \<le> int (length ps)"
    using blocks_le [of ps] moved_rows_le [of fixed ps] by simp_all
  then show "int (length ps) \<le> score fixed ps" "score fixed ps \<le> KEPT * int (length ps)"
    unfolding score_counts KEPT_def BLOCK_def by simp_all
qed

lemma score_order:
  assumes "score fixed qs \<le> score fixed ps" and "length ps < 2 ^ 21" and "length qs < 2 ^ 21"
  shows "length qs < length ps
    \<or> length qs = length ps
      \<and> (blocks ps < blocks qs \<or> blocks ps = blocks qs \<and> moved_rows fixed ps \<le> moved_rows fixed qs)"
proof -
  have "length ps \<le> 2 ^ 21 - 1" "length qs \<le> 2 ^ 21 - 1"
    using assms(2,3) by simp_all
  then have bounds: "int (blocks ps) \<le> 2 ^ 21 - 1" "int (moved_rows fixed ps) \<le> 2 ^ 21 - 1"
    "int (blocks qs) \<le> 2 ^ 21 - 1" "int (moved_rows fixed qs) \<le> 2 ^ 21 - 1"
    using blocks_le [of ps] blocks_le [of qs] moved_rows_le [of fixed ps] moved_rows_le [of fixed qs]
    by simp_all
  have le: "KEPT * int (length qs) - BLOCK * int (blocks qs) - int (moved_rows fixed qs)
      \<le> KEPT * int (length ps) - BLOCK * int (blocks ps) - int (moved_rows fixed ps)"
    using assms(1) by (simp add: score_counts)
  have "\<not> length ps < length qs"
    using le bounds by (simp add: KEPT_def BLOCK_def)
  moreover have "blocks ps \<le> blocks qs" if "length qs = length ps"
    using le bounds that by (simp add: KEPT_def BLOCK_def)
  moreover have "moved_rows fixed ps \<le> moved_rows fixed qs"
    if "length qs = length ps" "blocks qs = blocks ps"
    using le that by simp
  ultimately show ?thesis
    by (auto simp: le_less not_less)
qed

section \<open>Pairs found and the alignments they end\<close>

text \<open>The alignment that the links from a pair give, last pair first.\<close>

inductive traced :: "kept_match list \<Rightarrow> nat \<Rightarrow> (nat \<times> nat) list \<Rightarrow> bool" for found where
  traced_none: "traced found NO_PAIR []"
| traced_pair: "pos \<noteq> NO_PAIR \<Longrightarrow> pos < length found \<Longrightarrow> traced found (km_prev (found ! pos)) ps
    \<Longrightarrow> traced found pos ((km_old (found ! pos), km_new (found ! pos)) # ps)"

inductive_simps traced_NO_PAIR [simp]: "traced found NO_PAIR ps"

lemma traced_walk: "traced found pos ps \<Longrightarrow> walk_back found pos = Some ps"
proof (induction rule: traced.induct)
  case traced_none
  show ?case by (subst walk_back.simps) simp
next
  case (traced_pair pos ps)
  then show ?case by (subst walk_back.simps) simp
qed

lemma traced_append: "traced found pos ps \<Longrightarrow> traced (found @ ms) pos ps"
proof (induction rule: traced.induct)
  case (traced_pair pos ps)
  then show ?case
    using traced.traced_pair [of pos "found @ ms" ps] by (simp add: nth_append)
qed (rule traced_none)

text \<open>A cell has the best alignment of a region, and its last pair.\<close>

definition best_in :: "kept_match list \<Rightarrow> int \<Rightarrow> (nat \<times> nat) set \<Rightarrow> cell \<Rightarrow> bool" where
  "best_in found fixed R c \<longleftrightarrow>
     (\<exists>ps. traced found (snd c) ps \<and> ralign R ps \<and> score fixed ps = fst c)
     \<and> (\<forall>qs. ralign R qs \<longrightarrow> score fixed qs \<le> fst c)"

text \<open>A cell has the best alignment that ends in a pair of \<open>D\<close> on the shift \<open>h\<close>, if there is one.\<close>

definition run_in ::
  "kept_match list \<Rightarrow> int \<Rightarrow> (nat \<times> nat) set \<Rightarrow> (nat \<times> nat) set \<Rightarrow> int \<Rightarrow> cell \<Rightarrow> bool" where
  "run_in found fixed R D h c \<longleftrightarrow>
     (snd c = NO_PAIR \<and> fst c = 0
      \<or> snd c \<noteq> NO_PAIR
        \<and> (\<exists>p ps. traced found (snd c) (p # ps) \<and> ralign R (p # ps) \<and> p \<in> D \<and> shift_of p = h
                 \<and> score fixed (p # ps) = fst c))
     \<and> (\<forall>q qs. ralign R (q # qs) \<and> q \<in> D \<and> shift_of q = h
          \<longrightarrow> snd c \<noteq> NO_PAIR \<and> score fixed (q # qs) \<le> fst c)"

lemma run_inD:
  "run_in found fixed R D h c \<Longrightarrow> ralign R (q # qs) \<Longrightarrow> q \<in> D \<Longrightarrow> shift_of q = h
    \<Longrightarrow> snd c \<noteq> NO_PAIR \<and> score fixed (q # qs) \<le> fst c"
  unfolding run_in_def by blast

lemma run_inE:
  assumes "run_in found fixed R D h c"
  obtains (none) "snd c = NO_PAIR" "fst c = 0"
  | (some) p ps where "snd c \<noteq> NO_PAIR" "traced found (snd c) (p # ps)" "ralign R (p # ps)" "p \<in> D"
      "shift_of p = h" "score fixed (p # ps) = fst c"
  using assms unfolding run_in_def by blast

lemma best_in_append: "best_in found fixed R c \<Longrightarrow> best_in (found @ ms) fixed R c"
  unfolding best_in_def by (blast intro: traced_append)

lemma run_in_append: "run_in found fixed R D h c \<Longrightarrow> run_in (found @ ms) fixed R D h c"
  unfolding run_in_def by (blast intro: traced_append)

lemma best_in_none: "best_in found fixed {} no_cell"
  by (auto simp: best_in_def ralign_empty)

lemma run_in_none: "run_in found fixed R {} h no_cell"
  by (simp add: run_in_def)

section \<open>Regions of sorted rows\<close>

text \<open>What \<open>keep\<close> asks of the rows: their numbers rise, and the tables are within their widths.\<close>

definition rows_ok :: "nat list \<Rightarrow> nat list \<Rightarrow> bool" where
  "rows_ok old new \<longleftrightarrow>
     sorted_wrt (<) old \<and> sorted_wrt (<) new
     \<and> list_all (\<lambda>row. row < 2 ^ 62) (old @ new) \<and> length old * length new < 2 ^ 32 - 1"

lemma sorted_nth_less_iff:
  fixes xs :: "nat list"
  assumes "sorted_wrt (<) xs" and "i < length xs" and "j < length xs"
  shows "xs ! i < xs ! j \<longleftrightarrow> i < j"
proof (cases i j rule: linorder_cases)
  case less
  then show ?thesis using assms by (simp add: sorted_wrt_iff_nth_less)
next
  case greater
  then have "xs ! j < xs ! i" using assms by (simp add: sorted_wrt_iff_nth_less)
  with greater show ?thesis by simp
qed simp

lemma sorted_nth_eq_iff:
  fixes xs :: "nat list"
  assumes "sorted_wrt (<) xs" and "i < length xs" and "j < length xs"
  shows "xs ! i = xs ! j \<longleftrightarrow> i = j"
  using sorted_nth_less_iff [OF assms] sorted_nth_less_iff [OF assms(1,3,2)]
  by (metis linorder_neq_iff)

lemma ralign_before:
  assumes "sorted_wrt (<) old" and "sorted_wrt (<) new"
    and "n \<le> length old" and "m \<le> length new" and "a < n" and "b < m"
  shows "ralign (region old new matches n m) ((old ! a, new ! b) # ps) \<longleftrightarrow>
    (old ! a, new ! b) \<in> region old new matches n m \<and> ralign (region old new matches a b) ps"
proof -
  let ?R = "region old new matches"
  have "q \<in> ?R a b \<longleftrightarrow> q \<in> ?R n m \<and> fst q < old ! a \<and> snd q < new ! b" for q
    using assms sorted_nth_less_iff [OF assms(1)] sorted_nth_less_iff [OF assms(2)]
    unfolding region_def by (auto 4 4)
  then have "set ps \<subseteq> ?R a b \<longleftrightarrow> set ps \<subseteq> ?R n m \<and> (\<forall>q \<in> set ps. fst q < old ! a \<and> snd q < new ! b)"
    by blast
  then show ?thesis
    unfolding ralign_Cons by (simp add: ralign_def alignment_def) blast
qed

lemma region_pair:
  assumes "sorted_wrt (<) old" and "sorted_wrt (<) new" and "i < length old" and "j < length new"
    and "n \<le> length old" and "m \<le> length new"
  shows "(old ! i, new ! j) \<in> region old new matches n m \<longleftrightarrow> i < n \<and> j < m \<and> matches i j"
  using assms by (auto simp: region_def sorted_nth_eq_iff)

text \<open>An alignment of a region is one of the region above, or to the left, or ends in the last pair.\<close>

lemma ralign_split:
  assumes "sorted_wrt (<) old" and "sorted_wrt (<) new" and "i < length old" and "j < length new"
    and "ralign (region old new matches (Suc i) (Suc j)) ps"
  shows "ralign (region old new matches i (Suc j)) ps \<or> ralign (region old new matches (Suc i) j) ps
    \<or> (\<exists>qs. ps = (old ! i, new ! j) # qs \<and> matches i j)"
proof (cases ps)
  case (Cons p qs)
  let ?R = "region old new matches"
  obtain a b where p: "p = (old ! a, new ! b)" "a \<le> i" "b \<le> j" "matches a b"
    using assms(5) Cons by (auto simp: ralign_Cons region_def less_Suc_eq_le)
  then have ends: "ralign (?R (Suc a) (Suc b)) ps"
    using assms ralign_before [of old new "Suc i" "Suc j" a b] ralign_before [of old new "Suc a" "Suc b" a b]
    by (simp add: Cons region_pair)
  show ?thesis
  proof (cases "a = i \<and> b = j")
    case False
    then have "?R (Suc a) (Suc b) \<subseteq> ?R i (Suc j) \<or> ?R (Suc a) (Suc b) \<subseteq> ?R (Suc i) j"
      using p(2,3) region_mono [of "Suc a" i "Suc b" "Suc j"] region_mono [of "Suc a" "Suc i" "Suc b" j]
      by (cases "a = i") auto
    with ends show ?thesis
      by (blast intro: ralign_mono)
  qed (use p Cons in auto)
qed simp

lemma ralign_length:
  assumes "ralign (region old new matches n m) ps"
  shows "length ps \<le> n \<and> length ps \<le> m"
proof -
  have sorted: "sorted_wrt (\<lambda>p q. fst p < fst q \<and> snd p < snd q) (rev ps)"
    and R: "set ps \<subseteq> region old new matches n m"
    using assms by (simp_all add: ralign_def alignment_def)
  have "distinct (map fst (rev ps))" "distinct (map snd (rev ps))"
    using sorted by (auto simp: distinct_conv_nth sorted_wrt_iff_nth_less linorder_neq_iff)
  then have "length ps = card (fst ` set ps)" "length ps = card (snd ` set ps)"
    using distinct_card [of "map fst (rev ps)"] distinct_card [of "map snd (rev ps)"] by simp_all
  moreover have "fst ` set ps \<subseteq> (!) old ` {..<n}" "snd ` set ps \<subseteq> (!) new ` {..<m}"
    using R by (auto simp: region_def)
  then have "card (fst ` set ps) \<le> n" "card (snd ` set ps) \<le> m"
    using surj_card_le [of "{..<n}" "fst ` set ps"] surj_card_le [of "{..<m}" "snd ` set ps"] by auto
  ultimately show ?thesis by simp
qed

section \<open>The score of a pair\<close>

text \<open>Inside the bounds the scores are far from the ends of their width.\<close>

lemma kept_score_exact:
  assumes "0 \<le> fst diagonal" "fst diagonal \<le> 2 ^ 60" "0 \<le> fst run" "fst run \<le> 2 ^ 60" "moved \<in> {0, 1}"
  shows "kept_score moved diagonal run =
    (if snd run \<noteq> NO_PAIR \<and> fst diagonal - BLOCK < fst run then (fst run + KEPT - moved, snd run)
     else (fst diagonal + KEPT - BLOCK - moved, snd diagonal))"
proof -
  have "0 \<le> moved" "moved \<le> 1"
    using assms(5) by auto
  then have "i64_sub (i64_sub (i64_add (fst diagonal) KEPT) BLOCK) moved = fst diagonal + KEPT - BLOCK - moved"
    "i64_sub (i64_add (fst run) KEPT) moved = fst run + KEPT - moved"
    using assms(1-4) by (simp_all add: i64_add_def i64_sub_def sat64_exact KEPT_def BLOCK_def)
  then show ?thesis
    by (simp add: kept_score_def Let_def)
qed

lemma short_alignment:
  assumes "rows_ok old new"
    and "ralign (region old new matches (length old) (length new)) ps"
  shows "length ps < 2 ^ 16"
proof (rule ccontr)
  assume "\<not> length ps < 2 ^ 16"
  then have "2 ^ 16 \<le> length old" "2 ^ 16 \<le> length new"
    using ralign_length [OF assms(2)] by simp_all
  then have "2 ^ 16 * 2 ^ 16 \<le> length old * length new"
    by (rule mult_le_mono)
  then show False
    using assms(1) by (simp add: rows_ok_def)
qed

lemma score_small:
  assumes "rows_ok old new"
    and "ralign (region old new matches (length old) (length new)) ps"
  shows "0 \<le> score fixed ps" and "score fixed ps \<le> 2 ^ 60"
proof -
  have "int (length ps) < 2 ^ 16"
    using short_alignment [OF assms] by simp
  then show "0 \<le> score fixed ps" "score fixed ps \<le> 2 ^ 60"
    using score_bounds [where ps = ps and fixed = fixed] by (simp_all add: KEPT_def)
qed

lemma before_pair:
  assumes "rows_ok old new" and "i < length old" and "j < length new"
    and "q \<in> region old new matches i (length new) \<union> region old new matches (Suc i) j"
    and "shift_of q = shift_of (old ! i, new ! j)"
  shows "q \<in> region old new matches i j"
proof -
  have sorted: "sorted_wrt (<) old" "sorted_wrt (<) new"
    using assms(1) by (simp_all add: rows_ok_def)
  obtain a b where q: "q = (old ! a, new ! b)" "matches a b"
    and ab: "a < i \<and> b < length new \<or> a \<le> i \<and> b < j"
    using assms(4) by (auto simp: region_def)
  then have len: "a < length old" "b < length new"
    using assms(2,3) by auto
  have same: "int (new ! b) - int (old ! a) = int (new ! j) - int (old ! i)"
    using assms(5) q(1) by (simp add: shift_of_def)
  have "a \<noteq> i"
  proof
    assume "a = i"
    then have "new ! b = new ! j" using same by simp
    then have "b = j" using sorted_nth_eq_iff [OF sorted(2) len(2) assms(3)] by simp
    with ab \<open>a = i\<close> show False by simp
  qed
  with ab have "a < i" by auto
  then have "old ! a < old ! i"
    using sorted_nth_less_iff [OF sorted(1) len(1) assms(2)] by simp
  then have "new ! b < new ! j" using same by linarith
  then have "b < j"
    using sorted_nth_less_iff [OF sorted(2) len(2) assms(3)] by simp
  with q \<open>a < i\<close> show ?thesis
    by (auto simp: region_def)
qed

lemma run_before:
  assumes ok: "rows_ok old new" and i: "i < length old" and j: "j < length new"
    and run: "run_in found fixed (region old new matches (length old) (length new))
      (region old new matches i (length new) \<union> region old new matches (Suc i) j)
      (shift_of (old ! i, new ! j)) run"
  obtains rs where "traced found (snd run) rs" "ralign (region old new matches i j) rs"
    "score fixed rs = fst run" "rs = [] \<longleftrightarrow> snd run = NO_PAIR"
    "rs \<noteq> [] \<Longrightarrow> shift_of (hd rs) = shift_of (old ! i, new ! j)"
  using run
proof (cases rule: run_inE)
  case none
  then show ?thesis by (intro that [of "[]"]) (simp_all add: traced_none)
next
  case q: (some q qs)
  then obtain a b where ab: "q = (old ! a, new ! b)" "a < i" "b < j" "matches a b"
    using before_pair [OF ok i j q(4)] by (auto simp: region_def)
  then have "ralign (region old new matches i j) (q # qs)"
    using q(3) ok i j ralign_before [of old new "length old" "length new" a b]
      ralign_before [of old new i j a b]
    by (simp add: rows_ok_def region_pair)
  with q show ?thesis by (intro that [of "q # qs"]) simp_all
qed

text \<open>
  The score of a matching pair is that of the best alignment that ends in it, and the link leads to
  the rest of that alignment.
\<close>

lemma kept_score_best:
  fixes i j :: nat
  defines "p \<equiv> \<lambda>old new. (old ! i :: nat, new ! j :: nat)"
  assumes ok: "rows_ok old new" and i: "i < length old" and j: "j < length new" and "matches i j"
    and diagonal: "best_in found fixed (region old new matches i j) diagonal"
    and run: "run_in found fixed (region old new matches (length old) (length new))
      (region old new matches i (length new) \<union> region old new matches (Suc i) j)
      (shift_of (p old new)) run"
    and k: "kept_score (of_bool (shift_of (p old new) \<noteq> fixed)) diagonal run = (s, prev)"
  shows "\<exists>ps. traced found prev ps \<and> ralign (region old new matches i j) ps
      \<and> score fixed (p old new # ps) = s"
    and "ralign (region old new matches i j) qs \<Longrightarrow> score fixed (p old new # qs) \<le> s"
proof -
  let ?R = "region old new matches" and ?n = "length old" and ?m = "length new" and ?p = "p old new"
  let ?D = "?R i ?m \<union> ?R (Suc i) j"
  have sub: "?R i j \<subseteq> ?R ?n ?m" and D: "?R i j \<subseteq> ?D"
    using i j by (auto intro: region_mono [THEN subsetD, rotated -1])
  obtain ds where ds: "traced found (snd diagonal) ds" "ralign (?R i j) ds" "score fixed ds = fst diagonal"
    and best: "\<And>qs. ralign (?R i j) qs \<Longrightarrow> score fixed qs \<le> fst diagonal"
    using diagonal by (auto simp: best_in_def)
  have runs: "snd run \<noteq> NO_PAIR \<and> score fixed (q # qs) \<le> fst run"
    if "ralign (?R i j) (q # qs)" "shift_of q = shift_of ?p" for q qs
  proof -
    have "q \<in> ?D" using that(1) D by (auto simp: ralign_Cons)
    then show ?thesis using run_inD [OF run ralign_mono [OF that(1) sub]] that(2) by simp
  qed
  obtain rs where rs: "traced found (snd run) rs" "ralign (?R i j) rs" "score fixed rs = fst run"
    "rs = [] \<longleftrightarrow> snd run = NO_PAIR" "rs \<noteq> [] \<Longrightarrow> shift_of (hd rs) = shift_of ?p"
    using run_before [OF ok i j run [unfolded p_def]] unfolding p_def by blast
  have small: "0 \<le> score fixed qs \<and> score fixed qs \<le> 2 ^ 60" if "ralign (?R i j) qs" for qs
    using score_small [OF ok ralign_mono [OF that sub]] by simp
  have "0 \<le> fst diagonal" "fst diagonal \<le> 2 ^ 60" "0 \<le> fst run" "fst run \<le> 2 ^ 60"
    using small [OF ds(2)] ds(3) small [OF rs(2)] rs(3) by simp_all
  then have kept: "(s, prev) = (if snd run \<noteq> NO_PAIR \<and> fst diagonal - BLOCK < fst run
      then (fst run + KEPT - of_bool (shift_of ?p \<noteq> fixed), snd run)
      else (fst diagonal + KEPT - BLOCK - of_bool (shift_of ?p \<noteq> fixed), snd diagonal))"
    unfolding k [symmetric] by (intro kept_score_exact) auto
  have B: "0 < BLOCK" by (simp add: BLOCK_def)
  show "\<exists>ps. traced found prev ps \<and> ralign (?R i j) ps \<and> score fixed (?p # ps) = s"
  proof (cases "snd run \<noteq> NO_PAIR \<and> fst diagonal - BLOCK < fst run")
    case True
    then show ?thesis
      using kept rs by (intro exI [of _ rs]) simp
  next
    case False
    have "ds = [] \<or> shift_of (hd ds) \<noteq> shift_of ?p"
    proof (cases ds)
      case (Cons q qs)
      then show ?thesis using runs [of q qs] ds False B by auto
    qed simp
    then show ?thesis
      using kept False ds by (intro exI [of _ ds]) auto
  qed
  show "score fixed (?p # qs) \<le> s" if qs: "ralign (?R i j) qs"
  proof (cases "qs \<noteq> [] \<and> shift_of (hd qs) = shift_of ?p")
    case True
    then show ?thesis
      using runs [of "hd qs" "tl qs"] qs kept B by (auto split: if_splits)
  next
    case False
    then show ?thesis
      using best [OF qs] kept by (auto split: if_splits)
  qed
qed

section \<open>The tables as they are filled\<close>

text \<open>With \<open>i\<close> rows done and \<open>j\<close> cells of the next, each cell has the best of its region.\<close>

definition keep_inv ::
  "nat list \<Rightarrow> nat list \<Rightarrow> (nat \<Rightarrow> nat \<Rightarrow> bool) \<Rightarrow> int \<Rightarrow> nat \<Rightarrow> nat \<Rightarrow> keep_tables \<Rightarrow> bool" where
  "keep_inv old new matches fixed i j t \<longleftrightarrow>
     length (kt_same t) = shift_span old new \<and> length (kt_above t) = length new
     \<and> length (kt_here t) = length new \<and> length (kt_found t) \<le> i * length new + j
     \<and> (\<forall>b < length new. best_in (kt_found t) fixed (region old new matches i (Suc b)) (kt_above t ! b))
     \<and> (\<forall>b < j. best_in (kt_found t) fixed (region old new matches (Suc i) (Suc b)) (kt_here t ! b))
     \<and> best_in (kt_found t) fixed (region old new matches (Suc i) j) (kt_left t)
     \<and> (\<forall>slot < shift_span old new.
          run_in (kt_found t) fixed (region old new matches (length old) (length new))
            (region old new matches i (length new) \<union> region old new matches (Suc i) j)
            (lowest_shift old new + int slot) (kt_same t ! slot))"

text \<open>The greater of the cells above and to the left.\<close>

lemma best_of_two:
  assumes "sorted_wrt (<) old" and "sorted_wrt (<) new" and "i < length old" and "j < length new"
    and A: "best_in found fixed (region old new matches i (Suc j)) up"
    and L: "best_in found fixed (region old new matches (Suc i) j) left"
  defines "best \<equiv> if fst up < fst left then left else up"
  shows "\<exists>ps. traced found (snd best) ps \<and> ralign (region old new matches (Suc i) (Suc j)) ps
      \<and> score fixed ps = fst best"
    and "ralign (region old new matches (Suc i) (Suc j)) qs \<Longrightarrow>
      score fixed qs \<le> fst best \<or> (\<exists>ps. qs = (old ! i, new ! j) # ps \<and> matches i j)"
proof -
  let ?R = "region old new matches"
  have "?R i (Suc j) \<subseteq> ?R (Suc i) (Suc j)" "?R (Suc i) j \<subseteq> ?R (Suc i) (Suc j)"
    by (simp_all add: region_mono)
  then show "\<exists>ps. traced found (snd best) ps \<and> ralign (?R (Suc i) (Suc j)) ps \<and> score fixed ps = fst best"
    using A L unfolding best_def best_in_def by (auto intro: ralign_mono)
  assume "ralign (?R (Suc i) (Suc j)) qs"
  from ralign_split [OF assms(1-4) this]
  show "score fixed qs \<le> fst best \<or> (\<exists>ps. qs = (old ! i, new ! j) # ps \<and> matches i j)"
  proof (elim disjE)
    assume "ralign (?R i (Suc j)) qs"
    then have "score fixed qs \<le> fst up" using A by (simp add: best_in_def)
    then show ?thesis by (auto simp: best_def)
  next
    assume "ralign (?R (Suc i) j) qs"
    then have "score fixed qs \<le> fst left" using L by (simp add: best_in_def)
    then show ?thesis by (auto simp: best_def)
  qed auto
qed

lemma region_done:
  "region old new matches i m \<union> region old new matches (Suc i) (Suc j)
    = region old new matches i m \<union> region old new matches (Suc i) j
      \<union> (if matches i j then {(old ! i, new ! j)} else {})"
  if "j < m"
  using that by (auto simp: region_def less_Suc_eq)

lemma shift_exact:
  assumes "rows_ok old new" and "i < length old" and "j < length new"
  shows "i64_sub (isize_of (new ! j)) (isize_of (old ! i)) = shift_of (old ! i, new ! j)"
proof -
  have "old ! i < 2 ^ 62" "new ! j < 2 ^ 62"
    using assms by (auto simp: rows_ok_def list_all_iff)
  then have "int (old ! i) < 2 ^ 62" "int (new ! j) < 2 ^ 62"
    by simp_all
  then show ?thesis
    by (simp add: i64_sub_def isize_of_def sat64_exact shift_of_def)
qed

lemma sorted_ends:
  fixes xs :: "nat list"
  assumes "sorted_wrt (<) xs" and "i < length xs"
  shows "hd xs \<le> xs ! i" and "xs ! i \<le> last xs"
proof -
  have "xs \<noteq> []" using assms(2) by auto
  then have "hd xs = xs ! 0" "last xs = xs ! (length xs - 1)" "0 < length xs" "length xs - 1 < length xs"
    by (simp_all add: hd_conv_nth last_conv_nth)
  then show "hd xs \<le> xs ! i" "xs ! i \<le> last xs"
    using assms sorted_nth_less_iff [OF assms(1), of i 0] sorted_nth_less_iff [OF assms(1), of "length xs - 1" i]
    by (auto simp: not_less [symmetric])
qed

lemma slot_exact:
  assumes "rows_ok old new" and "i < length old" and "j < length new"
  defines "slot \<equiv> nat (i64_sub (shift_of (old ! i, new ! j)) (lowest_shift old new))"
  shows "slot < shift_span old new" and "lowest_shift old new + int slot = shift_of (old ! i, new ! j)"
proof -
  have sorted: "sorted_wrt (<) old" "sorted_wrt (<) new"
    using assms(1) by (simp_all add: rows_ok_def)
  note ends = sorted_ends [OF sorted(1) assms(2)] sorted_ends [OF sorted(2) assms(3)]
  have "old \<noteq> []" "new \<noteq> []" using assms(2,3) by auto
  then have "last old < 2 ^ 62" "last new < 2 ^ 62" "hd old < 2 ^ 62" "hd new < 2 ^ 62"
    using assms(1) by (auto simp: rows_ok_def list_all_iff)
  then have small: "int (last old) < 2 ^ 62" "int (last new) < 2 ^ 62" "int (hd old) < 2 ^ 62" "int (hd new) < 2 ^ 62"
    by simp_all
  have low: "lowest_shift old new = int (hd new) - int (last old)"
    using small by (simp add: lowest_shift_def i64_sub_def isize_of_def sat64_exact)
  have span: "int (shift_span old new) = int (last new) - int (hd old) - lowest_shift old new + 1"
    using small ends unfolding shift_span_def low
    by (simp add: i64_sub_def i64_add_def isize_of_def sat64_exact)
  have "int slot = shift_of (old ! i, new ! j) - lowest_shift old new"
    using small ends unfolding slot_def low
    by (simp add: i64_sub_def sat64_exact shift_of_def)
  with span ends show "slot < shift_span old new"
    "lowest_shift old new + int slot = shift_of (old ! i, new ! j)"
    by (simp_all add: shift_of_def)
qed

text \<open>The cell with a pair that matches, and the shift of that pair.\<close>

lemma best_with_pair:
  assumes "sorted_wrt (<) old" and "sorted_wrt (<) new" and i: "i < length old" and j: "j < length new"
    and "matches i j"
    and A: "best_in found fixed (region old new matches i (Suc j)) up"
    and L: "best_in found fixed (region old new matches (Suc i) j) left"
    and new: "\<exists>ps. traced (found @ ms) new_id ((old ! i, new ! j) # ps)
      \<and> ralign (region old new matches i j) ps \<and> score fixed ((old ! i, new ! j) # ps) = s"
    and most: "\<And>qs. ralign (region old new matches i j) qs \<Longrightarrow> score fixed ((old ! i, new ! j) # qs) \<le> s"
  defines "best \<equiv> if fst up < fst left then left else up"
  shows "best_in (found @ ms) fixed (region old new matches (Suc i) (Suc j))
    (if fst best < s then (s, new_id) else best)"
proof -
  let ?R = "region old new matches" and ?p = "(old ! i, new ! j)"
  have ends: "ralign (?R (Suc i) (Suc j)) (?p # qs) \<longleftrightarrow> ralign (?R i j) qs" for qs
    using assms(1,2,5) i j ralign_before [of old new "Suc i" "Suc j" i j] by (simp add: region_pair)
  note two = best_of_two [OF assms(1,2) i j A L, folded best_def]
  have upper: "score fixed qs \<le> max (fst best) s" if "ralign (?R (Suc i) (Suc j)) qs" for qs
    using two(2) [OF that] most that ends by (auto simp: le_max_iff_disj simp del: score.simps)
  show ?thesis
  proof (cases "fst best < s")
    case True
    with upper new ends show ?thesis
      unfolding best_in_def by (auto simp: max_def simp del: score.simps)
  next
    case False
    with upper two(1) show ?thesis
      unfolding best_in_def by (auto simp: max_def intro: traced_append)
  qed
qed

lemma run_with_pair:
  assumes run: "run_in found fixed R D h c" and "shift_of p = h"
    and new: "\<exists>ps. traced (found @ ms) new_id (p # ps) \<and> ralign R (p # ps) \<and> score fixed (p # ps) = s"
    and "new_id \<noteq> NO_PAIR"
    and most: "\<And>qs. ralign R (p # qs) \<Longrightarrow> score fixed (p # qs) \<le> s"
  shows "run_in (found @ ms) fixed R (insert p D) h (if fst c < s then (s, new_id) else c)"
proof -
  let ?c = "if fst c < s then (s, new_id) else c"
  obtain ps where ps: "traced (found @ ms) new_id (p # ps)" "ralign R (p # ps)" "score fixed (p # ps) = s"
    using new by blast
  have pos: "0 < s"
    using ps(3) score_bounds(1) [where fixed = fixed and ps = "p # ps"] by simp
  have ends: "snd ?c \<noteq> NO_PAIR \<and> (\<exists>q qs. traced (found @ ms) (snd ?c) (q # qs) \<and> ralign R (q # qs)
      \<and> q \<in> insert p D \<and> shift_of q = h \<and> score fixed (q # qs) = fst ?c)"
  proof (cases "fst c < s")
    case True
    with ps assms(2,4) show ?thesis by (simp del: score.simps split_paired_Ex) blast
  next
    case False
    from run show ?thesis
    proof (cases rule: run_inE)
      case none
      with False pos show ?thesis by simp
    next
      case (some q qs)
      with False traced_append [OF some(2), of ms] show ?thesis by (simp del: score.simps split_paired_Ex) blast
    qed
  qed
  have "score fixed (q # qs) \<le> fst ?c"
    if "ralign R (q # qs)" "q \<in> insert p D" "shift_of q = h" for q qs
  proof (cases "q = p")
    case True
    then show ?thesis
      using most [of qs] that(1) by (simp del: score.simps)
  next
    case False
    then show ?thesis
      using run_inD [OF run that(1) _ that(3)] that(2) by (auto simp del: score.simps)
  qed
  with ends show ?thesis
    unfolding run_in_def by blast
qed

lemma run_without:
  "run_in found fixed R D h c \<Longrightarrow> shift_of p \<noteq> h \<Longrightarrow> run_in (found @ ms) fixed R (insert p D) h c"
  using run_in_append [of found fixed R D h c ms] unfolding run_in_def by blast

text \<open>One cell.\<close>

lemma keep_pair_eq:
  assumes ok: "rows_ok old new" and i: "i < length old" and j: "j < length new"
    and inv: "keep_inv old new matches fixed i j t" and "length (kt_found t) < NO_PAIR"
  defines "slot \<equiv> nat (i64_sub (shift_of (old ! i, new ! j)) (lowest_shift old new))"
  assumes "kept_score (of_bool (shift_of (old ! i, new ! j) \<noteq> fixed))
      (case j of 0 \<Rightarrow> no_cell | Suc d \<Rightarrow> kt_above t ! d) (kt_same t ! slot) = (s, prev)"
  shows "keep_pair fixed (lowest_shift old new) (old ! i) j (new ! j) best t =
    (t\<lparr>kt_found := kt_found t @ [\<lparr>km_old = old ! i, km_new = new ! j, km_prev = prev\<rparr>],
       kt_same := (kt_same t)[slot := (if fst (kt_same t ! slot) < s then (s, length (kt_found t))
                                       else kt_same t ! slot)]\<rparr>,
     if fst best < s then (s, length (kt_found t)) else best)"
proof -
  have lens: "length (kt_same t) = shift_span old new" "length (kt_above t) = length new"
    using inv by (simp_all add: keep_inv_def)
  have slot: "slot < shift_span old new"
    using slot_exact(1) [OF ok i j] by (simp add: slot_def)
  have "(case j of 0 \<Rightarrow> no_cell | Suc d \<Rightarrow> cell_at (kt_above t) d)
      = (case j of 0 \<Rightarrow> no_cell | Suc d \<Rightarrow> kt_above t ! d)"
    using j lens by (simp add: cell_at_def split: nat.split)
  moreover have "cell_at (kt_same t) slot = kt_same t ! slot"
    using slot lens by (simp add: cell_at_def)
  moreover have "length (kt_found t) < 2 ^ 32"
    using assms(5) by (simp add: NO_PAIR_def)
  ultimately show ?thesis
    using assms(7) slot lens shift_exact [OF ok i j]
    by (simp add: keep_pair_def Let_def slot_def [symmetric])
qed

text \<open>The pair that a matching cell finds, after \<open>kept_score\<close> gave its score and link.\<close>

lemma pair_found:
  assumes ok: "rows_ok old new" and i: "i < length old" and j: "j < length new" and "matches i j"
    and inv: "keep_inv old new matches fixed i j t"
  defines "slot \<equiv> nat (i64_sub (shift_of (old ! i, new ! j)) (lowest_shift old new))"
  assumes k: "kept_score (of_bool (shift_of (old ! i, new ! j) \<noteq> fixed))
      (case j of 0 \<Rightarrow> no_cell | Suc d \<Rightarrow> kt_above t ! d) (kt_same t ! slot) = (s, prev)"
  shows "length (kt_found t) < NO_PAIR"
    and "run_in (kt_found t) fixed (region old new matches (length old) (length new))
      (region old new matches i (length new) \<union> region old new matches (Suc i) j)
      (shift_of (old ! i, new ! j)) (kt_same t ! slot)"
    and "\<exists>ps. traced (kt_found t @ [\<lparr>km_old = old ! i, km_new = new ! j, km_prev = prev\<rparr>])
        (length (kt_found t)) ((old ! i, new ! j) # ps)
      \<and> ralign (region old new matches i j) ps \<and> score fixed ((old ! i, new ! j) # ps) = s"
    and "ralign (region old new matches i j) qs \<Longrightarrow> score fixed ((old ! i, new ! j) # qs) \<le> s"
proof -
  let ?R = "region old new matches" and ?found = "kt_found t" and ?id = "length (kt_found t)"
  note inv' = inv [unfolded keep_inv_def]
  have "?id \<le> i * length new + j" using inv' by simp
  also have "\<dots> < Suc i * length new" using j by simp
  also have "\<dots> \<le> length old * length new" using i by (intro mult_le_mono1) simp
  finally show small: "?id < NO_PAIR"
    using ok by (simp add: rows_ok_def NO_PAIR_def)
  have "slot < shift_span old new" "lowest_shift old new + int slot = shift_of (old ! i, new ! j)"
    using slot_exact [OF ok i j] by (simp_all add: slot_def)
  then show run: "run_in ?found fixed (?R (length old) (length new)) (?R i (length new) \<union> ?R (Suc i) j)
      (shift_of (old ! i, new ! j)) (kt_same t ! slot)"
    using inv' by metis
  have "best_in ?found fixed (?R i j) (case j of 0 \<Rightarrow> no_cell | Suc d \<Rightarrow> kt_above t ! d)"
    using inv' j best_in_none by (auto split: nat.split)
  note best = kept_score_best [OF ok i j assms(4) this run k]
  show "ralign (?R i j) qs \<Longrightarrow> score fixed ((old ! i, new ! j) # qs) \<le> s"
    by (rule best(2))
  obtain ps where "traced ?found prev ps" "ralign (?R i j) ps" "score fixed ((old ! i, new ! j) # ps) = s"
    using best(1) by blast
  moreover have "traced (?found @ [\<lparr>km_old = old ! i, km_new = new ! j, km_prev = prev\<rparr>])
      ?id ((old ! i, new ! j) # ps)"
    using traced_pair [of ?id "?found @ [\<lparr>km_old = old ! i, km_new = new ! j, km_prev = prev\<rparr>]" ps]
      small traced_append [OF \<open>traced ?found prev ps\<close>] by simp
  ultimately show "\<exists>ps. traced (?found @ [\<lparr>km_old = old ! i, km_new = new ! j, km_prev = prev\<rparr>])
      ?id ((old ! i, new ! j) # ps) \<and> ralign (?R i j) ps \<and> score fixed ((old ! i, new ! j) # ps) = s"
    by blast
qed

lemma keep_cell_pair_inv:
  assumes ok: "rows_ok old new" and i: "i < length old" and j: "j < length new" and match: "matches i j"
    and inv: "keep_inv old new matches fixed i j t"
  shows "keep_inv old new matches fixed i (Suc j)
    (keep_cell matches fixed (lowest_shift old new) i (old ! i) t (j, new ! j))"
proof -
  let ?R = "region old new matches" and ?n = "length old" and ?m = "length new"
  let ?found = "kt_found t" and ?low = "lowest_shift old new" and ?p = "(old ! i, new ! j)"
  let ?best = "if fst (kt_above t ! j) < fst (kt_left t) then kt_left t else kt_above t ! j"
  let ?slot = "nat (i64_sub (shift_of ?p) ?low)" and ?id = "length ?found"
  have sorted: "sorted_wrt (<) old" "sorted_wrt (<) new"
    using ok by (simp_all add: rows_ok_def)
  note inv' = inv [unfolded keep_inv_def]
  obtain s prev where k: "kept_score (of_bool (shift_of ?p \<noteq> fixed))
      (case j of 0 \<Rightarrow> no_cell | Suc d \<Rightarrow> kt_above t ! d) (kt_same t ! ?slot) = (s, prev)"
    by fastforce
  note small = pair_found(1) [OF ok i j match inv k] and run = pair_found(2) [OF ok i j match inv k]
    and new = pair_found(3) [OF ok i j match inv k] and most = pair_found(4) [OF ok i j match inv k]
  let ?ms = "[\<lparr>km_old = old ! i, km_new = new ! j, km_prev = prev\<rparr>]"
  have ends: "ralign (?R ?n ?m) (?p # qs) \<longleftrightarrow> ralign (?R i j) qs" for qs
    using sorted i j match ralign_before [OF sorted _ _ i j] by (simp add: region_pair)
  have cell: "best_in (?found @ ?ms) fixed (?R (Suc i) (Suc j)) (if fst ?best < s then (s, ?id) else ?best)"
    using inv' j best_with_pair [OF sorted i j match _ _ new most] by simp
  have D: "?R i ?m \<union> ?R (Suc i) (Suc j) = insert ?p (?R i ?m \<union> ?R (Suc i) j)"
    using region_done [OF j, of old new matches i] match by simp
  have same: "run_in (?found @ ?ms) fixed (?R ?n ?m) (insert ?p (?R i ?m \<union> ?R (Suc i) j)) (?low + int slot)
      ((kt_same t)[?slot := (if fst (kt_same t ! ?slot) < s then (s, ?id) else kt_same t ! ?slot)] ! slot)"
    if "slot < shift_span old new" for slot
  proof (cases "slot = ?slot")
    case True
    then show ?thesis
      using run_with_pair [OF run refl _ _ most] new ends small inv' slot_exact [OF ok i j]
      by (simp add: less_imp_neq del: score.simps)
  next
    case False
    then have "shift_of ?p \<noteq> ?low + int slot"
      using slot_exact(2) [OF ok i j] by (metis add_left_cancel of_nat_eq_iff)
    then show ?thesis
      using run_without inv' that False by simp
  qed
  have "keep_cell matches fixed ?low i (old ! i) t (j, new ! j)
      = t\<lparr>kt_found := ?found @ ?ms,
         kt_same := (kt_same t)[?slot := (if fst (kt_same t ! ?slot) < s then (s, ?id) else kt_same t ! ?slot)],
         kt_here := (kt_here t)[j := (if fst ?best < s then (s, ?id) else ?best)],
         kt_left := (if fst ?best < s then (s, ?id) else ?best)\<rparr>"
    using match j inv' keep_pair_eq [OF ok i j inv small k] by (simp add: keep_cell_def cell_at_def Let_def)
  then show ?thesis
    using inv' j cell same best_in_append by (simp add: keep_inv_def nth_list_update less_Suc_eq D)
qed

lemma keep_cell_inv:
  assumes ok: "rows_ok old new" and i: "i < length old" and j: "j < length new"
    and inv: "keep_inv old new matches fixed i j t"
  shows "keep_inv old new matches fixed i (Suc j)
    (keep_cell matches fixed (lowest_shift old new) i (old ! i) t (j, new ! j))"
proof (cases "matches i j")
  case False
  let ?best = "if fst (kt_above t ! j) < fst (kt_left t) then kt_left t else kt_above t ! j"
  note inv' = inv [unfolded keep_inv_def]
  have "best_in (kt_found t) fixed (region old new matches (Suc i) (Suc j)) ?best"
    using best_of_two [OF _ _ i j, of "kt_found t" fixed matches "kt_above t ! j" "kt_left t"] ok inv' j False
    unfolding best_in_def rows_ok_def by blast
  moreover have "keep_cell matches fixed (lowest_shift old new) i (old ! i) t (j, new ! j)
      = t\<lparr>kt_here := (kt_here t)[j := ?best], kt_left := ?best\<rparr>"
    using False inv' j by (simp add: keep_cell_def cell_at_def Let_def)
  ultimately show ?thesis
    using inv' j False region_done [OF j, of old new matches i]
    by (simp add: keep_inv_def nth_list_update less_Suc_eq)
qed (use keep_cell_pair_inv [OF assms(1-3) _ inv] in simp)

text \<open>One row, and all of them.\<close>

lemma keep_cells_inv:
  assumes "rows_ok old new" and "i < length old" and "keep_inv old new matches fixed i 0 t"
    and "j \<le> length new"
  shows "keep_inv old new matches fixed i j
    (foldl (keep_cell matches fixed (lowest_shift old new) i (old ! i)) t (enumerate 0 (take j new)))"
  using assms(4)
proof (induction j)
  case (Suc j)
  then show ?case
    using keep_cell_inv [OF assms(1,2), of j]
    by (simp add: take_Suc_conv_app_nth enumerate_append_eq min_def)
qed (use assms(3) in simp)

lemma keep_row_inv:
  assumes "rows_ok old new" and "i < length old"
    and "keep_inv old new matches fixed i 0 (t\<lparr>kt_left := no_cell\<rparr>)"
  shows "keep_inv old new matches fixed (Suc i) 0
    (keep_row matches fixed (lowest_shift old new) new t (i, old ! i) \<lparr>kt_left := no_cell\<rparr>)"
proof -
  let ?t = "foldl (keep_cell matches fixed (lowest_shift old new) i (old ! i))
    (t\<lparr>kt_left := no_cell\<rparr>) (enumerate 0 new)"
  have "keep_inv old new matches fixed i (length new) ?t"
    using keep_cells_inv [OF assms order_refl] by simp
  moreover have "region old new matches i (length new) \<union> region old new matches (Suc i) (length new)
      = region old new matches (Suc i) (length new)"
    using region_mono [of i "Suc i" "length new" "length new" old new matches] by auto
  ultimately show ?thesis
    using best_in_none by (simp add: keep_inv_def keep_row_def Let_def add.commute)
qed

lemma keep_rows_inv:
  assumes "rows_ok old new" and "i \<le> length old"
  shows "keep_inv old new matches fixed i 0
    (foldl (keep_row matches fixed (lowest_shift old new) new)
       (tables_new (shift_span old new) (length new)) (enumerate 0 (take i old)) \<lparr>kt_left := no_cell\<rparr>)"
  using assms(2)
proof (induction i)
  case 0
  then show ?case
    using best_in_none run_in_none by (simp add: keep_inv_def tables_new_def)
next
  case (Suc i)
  then show ?case
    using keep_row_inv [OF assms(1), of i]
    by (simp add: take_Suc_conv_app_nth enumerate_append_eq min_def)
qed

lemma keep_best:
  assumes "rows_ok old new"
  shows "\<exists>ps. keep old new matches fixed = Some (rev ps)
    \<and> ralign (region old new matches (length old) (length new)) ps
    \<and> (\<forall>qs. ralign (region old new matches (length old) (length new)) qs \<longrightarrow> score fixed qs \<le> score fixed ps)"
proof (cases "old = [] \<or> new = []")
  case True
  then have "region old new matches (length old) (length new) = {}"
    by (auto simp: region_def)
  then show ?thesis
    using True by (auto simp: keep_def ralign_empty)
next
  case False
  let ?t = "foldl (keep_row matches fixed (lowest_shift old new) new)
    (tables_new (shift_span old new) (length new)) (enumerate 0 old)"
  have inv: "keep_inv old new matches fixed (length old) 0 (?t\<lparr>kt_left := no_cell\<rparr>)"
    using keep_rows_inv [OF assms order_refl] by simp
  have "best_in (kt_found ?t) fixed (region old new matches (length old) (Suc b)) (kt_above ?t ! b)"
    if "b < length new" for b
    using inv that by (simp add: keep_inv_def)
  from this [of "length new - 1"]
  have "best_in (kt_found ?t) fixed (region old new matches (length old) (length new))
      (kt_above ?t ! (length new - 1))"
    using False by simp
  moreover have len: "length (kt_above ?t) = length new"
    using inv by (simp add: keep_inv_def)
  then have "kt_above ?t \<noteq> []"
    using False by fastforce
  then have "kt_above ?t ! (length new - 1) = last (kt_above ?t)"
    using len by (simp add: last_conv_nth)
  ultimately obtain ps where "traced (kt_found ?t) (snd (last (kt_above ?t))) ps"
    "ralign (region old new matches (length old) (length new)) ps" "score fixed ps = fst (last (kt_above ?t))"
    "\<forall>qs. ralign (region old new matches (length old) (length new)) qs \<longrightarrow>
       score fixed qs \<le> fst (last (kt_above ?t))"
    by (auto simp: best_in_def)
  then show ?thesis
    using False \<open>kt_above ?t \<noteq> []\<close> traced_walk
    by (intro exI [of _ ps]) (simp add: keep_def Let_def)
qed

lemma counts_rev [simp]: "blocks (rev ps) = blocks ps" "moved_rows fixed (rev ps) = moved_rows fixed ps"
  by (simp_all add: blocks_def moved_rows_def rev_map [symmetric] remdups_adj_rev rev_filter [symmetric])

text \<open>The pairs of an old and a new row that match.\<close>

definition matching_rows :: "nat list \<Rightarrow> nat list \<Rightarrow> (nat \<Rightarrow> nat \<Rightarrow> bool) \<Rightarrow> (nat \<times> nat) set" where
  "matching_rows old new matches = region old new matches (length old) (length new)"

text \<open>
  C3. The alignment of two reads is the one its documentation promises, for any rows in rising
  order whose tables fit their widths: it ends, what it returns is an order-keeping list of rows that
  match, no other keeps more rows, none that keeps as many moves them in fewer blocks, and none of
  those has fewer rows off the shift that stands for not moving.
\<close>

theorem keep_optimal:
  assumes "rows_ok old new"
  shows "\<exists>ps. keep old new matches fixed = Some ps \<and> alignment (matching_rows old new matches) ps
    \<and> (\<forall>qs. alignment (matching_rows old new matches) qs \<longrightarrow>
         length qs < length ps
         \<or> length qs = length ps
           \<and> (blocks ps < blocks qs
              \<or> blocks ps = blocks qs \<and> moved_rows fixed ps \<le> moved_rows fixed qs))"
proof -
  let ?all = "matching_rows old new matches"
  obtain ps where ps: "keep old new matches fixed = Some (rev ps)" "ralign ?all ps"
    and best: "\<And>qs. ralign ?all qs \<Longrightarrow> score fixed qs \<le> score fixed ps"
    using keep_best [OF assms(1)] unfolding matching_rows_def by blast
  have short: "length qs < 2 ^ 21" if "ralign ?all qs" for qs
    using short_alignment [OF assms(1) that [unfolded matching_rows_def]] by simp
  have "length qs < length ps
      \<or> length qs = length ps
        \<and> (blocks ps < blocks qs \<or> blocks ps = blocks qs \<and> moved_rows fixed ps \<le> moved_rows fixed qs)"
    if "alignment ?all qs" for qs
  proof -
    have "ralign ?all (rev qs)"
      using that by (simp add: ralign_def)
    from score_order [OF best [OF this] short [OF ps(2)] short [OF this]] show ?thesis
      by simp
  qed
  with ps show ?thesis
    by (intro exI [of _ "rev ps"]) (simp add: ralign_def)
qed

text \<open>Two rows scrolled up by one and a new one below: kept, in one block.\<close>

theorem keep_optimal_witness:
  "rows_ok [0, 1, 2] [0, 1, 2] \<and> (\<exists>ps. keep [0, 1, 2] [0, 1, 2] (\<lambda>i j. i = Suc j) (- 1) = Some ps
     \<and> alignment (matching_rows [0, 1, 2] [0, 1, 2] (\<lambda>i j. i = Suc j)) ps \<and> length ps = 2)"
proof -
  have ok: "rows_ok [0, 1, 2] [0, 1, 2]"
    by (simp add: rows_ok_def)
  let ?all = "matching_rows [0, 1, 2] [0, 1, 2] (\<lambda>i j. i = Suc j)"
  obtain ps where ps: "keep [0, 1, 2] [0, 1, 2] (\<lambda>i j. i = Suc j) (- 1) = Some ps" "alignment ?all ps"
    and most: "\<And>qs. alignment ?all qs \<Longrightarrow> length qs \<le> length ps"
    using keep_optimal [OF ok, of "\<lambda>i j. i = Suc j" "- 1"] by (metis less_imp_le order_refl)
  have all: "?all \<subseteq> {(1, 0), (2, 1)}"
    by (auto simp: matching_rows_def region_def numeral_3_eq_3 less_Suc_eq)
  have "([0, 1, 2] ! 1, [0, 1, 2] ! 0) \<in> ?all" "([0, 1, 2] ! 2, [0, 1, 2] ! 1) \<in> ?all"
    unfolding matching_rows_def by (rule regionI; simp)+
  then have "alignment ?all [(1, 0), (2, 1)]"
    by (simp add: alignment_def)
  from most [OF this] have "2 \<le> length ps"
    by simp
  moreover have "distinct ps" "set ps \<subseteq> ?all"
    using ps(2) alignment_distinct by (auto simp: alignment_def)
  then have "length ps \<le> 2"
    using card_mono [OF _ order_trans [OF _ all], of "set ps"] by (simp add: distinct_card)
  ultimately show ?thesis
    using ok ps by auto
qed

end
