(* ===== verification/Row_Pairing.thy ===== *)
theory Row_Pairing
  imports Row_Likeness Row_Keeping
begin

text \<open>
  The pairing of the rows left between two kept rows as rewrites, \<open>pair\<close> of
  \<^verbatim>\<open>verbatim-text/src/terminal_rows/align.rs\<close>: a table of the best matching of every pair of ends,
  filled from the last rows up, and a walk through it from the first. The theorem shows that it
  pairs as many alike rows as can be paired in order, and of those as many as can be on the shift of
  the kept row beside them.
\<close>

section \<open>The table and the walk\<close>

text \<open>The cell of a table whose rows have \<open>q + 1\<close> cells.\<close>

definition cell_index :: "nat \<Rightarrow> nat \<Rightarrow> nat \<Rightarrow> nat" where
  "cell_index q a b = us_add (us_mul a (us_add q 1)) b"

definition value_at :: "nat \<Rightarrow> int list \<Rightarrow> nat \<Rightarrow> nat \<Rightarrow> int" where
  "value_at q best a b = (if cell_index q a b < length best then best ! cell_index q a b else 0)"

definition fill_cell ::
  "(nat \<Rightarrow> nat \<Rightarrow> int option) \<Rightarrow> nat \<Rightarrow> nat \<Rightarrow> nat \<Rightarrow> int list \<Rightarrow> int list" where
  "fill_cell weight q a b best =
     (let value = max (value_at q best (Suc a) b) (value_at q best a (Suc b));
          value = (case weight a b of
                     None \<Rightarrow> value
                   | Some w \<Rightarrow> max value (i64_add (value_at q best (Suc a) (Suc b)) w))
      in best[cell_index q a b := value])"

text \<open>The two loops, both from the end.\<close>

definition fill_table :: "(nat \<Rightarrow> nat \<Rightarrow> int option) \<Rightarrow> nat \<Rightarrow> nat \<Rightarrow> int list" where
  "fill_table weight p q =
     foldr (\<lambda>a best. foldr (\<lambda>b best. fill_cell weight q a b best) [0..<q] best) [0..<p]
       (replicate (us_mul (us_add p 1) (us_add q 1)) 0)"

function pair_walk ::
  "(nat \<Rightarrow> nat \<Rightarrow> int option) \<Rightarrow> nat list \<Rightarrow> nat list \<Rightarrow> int list \<Rightarrow> nat \<Rightarrow> nat \<Rightarrow> (nat \<times> nat) list" where
  "pair_walk weight old new best a b =
     (let q = length new; value = value_at q best a b in
      if a < length old \<and> b < length new then
        if (case weight a b of
              None \<Rightarrow> False
            | Some w \<Rightarrow> value = i64_add (value_at q best (Suc a) (Suc b)) w)
        then (old ! a, new ! b) # pair_walk weight old new best (Suc a) (Suc b)
        else if value = value_at q best (Suc a) b
        then pair_walk weight old new best (Suc a) b
        else pair_walk weight old new best a (Suc b)
      else [])"
  by pat_completeness auto
termination
  by (relation "measure (\<lambda>(weight, old, new, best, a, b). (length old - a) + (length new - b))") auto

declare pair_walk.simps [simp del]

text \<open>What keeping an old row as a new one adds, when they are alike.\<close>

definition alike_table :: "(nat \<times> likeness) list \<Rightarrow> (nat \<times> likeness) list \<Rightarrow> bool list" where
  "alike_table old new = concat (map (\<lambda>(_, o_row). map (\<lambda>(_, n_row). alike o_row n_row) new) old)"

definition pair_weight ::
  "(nat \<times> likeness) list \<Rightarrow> (nat \<times> likeness) list \<Rightarrow> int \<Rightarrow> nat \<Rightarrow> nat \<Rightarrow> int option" where
  "pair_weight old new prefer a b =
     (let table = alike_table old new; i = us_add (us_mul a (length new)) b
      in if a < length old \<and> b < length new \<and> i < length table \<and> table ! i
         then Some (i64_add KEPT
                (of_bool (i64_sub (isize_of (fst (new ! b))) (isize_of (fst (old ! a))) = prefer)))
         else None)"

definition pair :: "(nat \<times> likeness) list \<Rightarrow> (nat \<times> likeness) list \<Rightarrow> int \<Rightarrow> (nat \<times> nat) list" where
  "pair old new prefer =
     (if old = [] \<or> new = [] then []
      else
        let weight = pair_weight old new prefer;
            best = fill_table weight (length old) (length new)
        in pair_walk weight (map fst old) (map fst new) best 0 0)"

section \<open>The best matching of the rows from two ends\<close>

text \<open>The pairs that match among the old rows from \<open>a\<close> on and the new ones from \<open>b\<close> on.\<close>

definition from_region :: "nat list \<Rightarrow> nat list \<Rightarrow> (nat \<Rightarrow> nat \<Rightarrow> bool) \<Rightarrow> nat \<Rightarrow> nat \<Rightarrow> (nat \<times> nat) set" where
  "from_region old new matches a b =
     {(old ! i, new ! j) | i j. a \<le> i \<and> i < length old \<and> b \<le> j \<and> j < length new \<and> matches i j}"

definition on_shift :: "int \<Rightarrow> (nat \<times> nat) list \<Rightarrow> nat" where
  "on_shift prefer ps = length (filter (\<lambda>p. shift_of p = prefer) ps)"

definition worth :: "int \<Rightarrow> (nat \<times> nat) list \<Rightarrow> int" where
  "worth prefer ps = KEPT * int (length ps) + int (on_shift prefer ps)"

text \<open>\<open>v\<close> is the worth of the best alignment of \<open>R\<close>.\<close>

definition best_worth :: "int \<Rightarrow> (nat \<times> nat) set \<Rightarrow> int \<Rightarrow> bool" where
  "best_worth prefer R v \<longleftrightarrow>
     (\<exists>ps. alignment R ps \<and> worth prefer ps = v) \<and> (\<forall>qs. alignment R qs \<longrightarrow> worth prefer qs \<le> v)"

lemma worth_simps [simp]:
  "worth prefer [] = 0"
  "worth prefer (p # ps) = worth prefer ps + KEPT + of_bool (shift_of p = prefer)"
  by (simp_all add: worth_def on_shift_def algebra_simps)

lemma alignment_Nil [simp]: "alignment R []"
  by (simp add: alignment_def)

lemma alignment_Cons:
  "alignment R (p # ps) \<longleftrightarrow> p \<in> R \<and> alignment R ps \<and> (\<forall>q \<in> set ps. fst p < fst q \<and> snd p < snd q)"
  by (auto simp: alignment_def)

lemma alignment_mono: "alignment R ps \<Longrightarrow> R \<subseteq> R' \<Longrightarrow> alignment R' ps"
  by (auto simp: alignment_def)

lemma from_region_mono:
  "a \<le> a' \<Longrightarrow> b \<le> b' \<Longrightarrow> from_region old new matches a' b' \<subseteq> from_region old new matches a b"
  unfolding from_region_def by fastforce

lemma from_region_end:
  "length old \<le> a \<or> length new \<le> b \<Longrightarrow> from_region old new matches a b = {}"
  by (auto simp: from_region_def)

lemma from_region_pair:
  assumes "sorted_wrt (<) old" and "sorted_wrt (<) new" and "i < length old" and "j < length new"
  shows "(old ! i, new ! j) \<in> from_region old new matches a b \<longleftrightarrow> a \<le> i \<and> b \<le> j \<and> matches i j"
  using assms by (auto simp: from_region_def sorted_nth_eq_iff)

lemma alignment_after:
  assumes "sorted_wrt (<) old" and "sorted_wrt (<) new" and "i < length old" and "j < length new"
    and "a \<le> i" and "b \<le> j"
  shows "alignment (from_region old new matches a b) ((old ! i, new ! j) # ps) \<longleftrightarrow>
    matches i j \<and> alignment (from_region old new matches (Suc i) (Suc j)) ps"
proof -
  let ?F = "from_region old new matches"
  have "q \<in> ?F (Suc i) (Suc j) \<longleftrightarrow> q \<in> ?F a b \<and> old ! i < fst q \<and> new ! j < snd q" for q
  proof
    assume "q \<in> ?F a b \<and> old ! i < fst q \<and> new ! j < snd q"
    then obtain x y where "q = (old ! x, new ! y)" "x < length old" "y < length new" "matches x y"
      "i < x" "j < y"
      using assms by (auto simp: from_region_def sorted_nth_less_iff)
    then show "q \<in> ?F (Suc i) (Suc j)"
      by (auto simp: from_region_def Suc_le_eq)
  qed (use assms in \<open>auto 0 4 simp: from_region_def sorted_nth_less_iff Suc_le_eq intro: less_imp_le le_less_trans\<close>)
  then have "set ps \<subseteq> ?F (Suc i) (Suc j)
      \<longleftrightarrow> set ps \<subseteq> ?F a b \<and> (\<forall>q \<in> set ps. old ! i < fst q \<and> new ! j < snd q)"
    by blast
  then show ?thesis
    using assms unfolding alignment_Cons from_region_pair [OF assms(1-4)]
    by (simp add: alignment_def) blast
qed

text \<open>An alignment starts with the first two rows, or leaves out one of them.\<close>

lemma alignment_first:
  assumes "sorted_wrt (<) old" and "sorted_wrt (<) new" and "a < length old" and "b < length new"
    and "alignment (from_region old new matches a b) ps"
  shows "alignment (from_region old new matches (Suc a) b) ps
    \<or> alignment (from_region old new matches a (Suc b)) ps
    \<or> (\<exists>qs. ps = (old ! a, new ! b) # qs \<and> matches a b
          \<and> alignment (from_region old new matches (Suc a) (Suc b)) qs)"
proof (cases ps)
  case (Cons p qs)
  let ?F = "from_region old new matches"
  obtain i j where p: "p = (old ! i, new ! j)" "a \<le> i" "i < length old" "b \<le> j" "j < length new" "matches i j"
    using assms(5) Cons by (auto simp: alignment_Cons from_region_def)
  have after: "alignment (?F x y) ps \<longleftrightarrow> alignment (?F (Suc i) (Suc j)) qs" if "x \<le> i" "y \<le> j" for x y
    using alignment_after [OF assms(1,2) p(3,5) that] p(1,6) Cons by simp
  have rest: "alignment (?F (Suc i) (Suc j)) qs"
    using after [OF p(2,4)] assms(5) by simp
  consider "Suc a \<le> i" | "Suc b \<le> j" | "i = a" "j = b"
    using p(2,4) by linarith
  then show ?thesis
    using after [of "Suc a" b] after [of a "Suc b"] p Cons rest by cases auto
qed simp

lemma best_worth_end: "best_worth prefer {} 0"
  by (auto simp: best_worth_def alignment_def)

lemma best_worth_step:
  assumes "sorted_wrt (<) old" and "sorted_wrt (<) new" and a: "a < length old" and b: "b < length new"
    and below: "best_worth prefer (from_region old new matches (Suc a) b) below"
    and right: "best_worth prefer (from_region old new matches a (Suc b)) right"
    and both: "best_worth prefer (from_region old new matches (Suc a) (Suc b)) both"
  defines "w \<equiv> \<lambda>old new. KEPT + of_bool (shift_of (old ! a :: nat, new ! b :: nat) = prefer)"
  shows "best_worth prefer (from_region old new matches a b)
    (if matches a b then max (max below right) (both + w old new) else max below right)"
    (is "best_worth _ _ ?v")
proof -
  let ?F = "from_region old new matches" and ?p = "(old ! a, new ! b)"
  obtain ds where ds: "alignment (?F (Suc a) (Suc b)) ds" "worth prefer ds = both"
    using both by (auto simp: best_worth_def)
  have sub: "?F (Suc a) b \<subseteq> ?F a b" "?F a (Suc b) \<subseteq> ?F a b"
    by (simp_all add: from_region_mono)
  have upper: "worth prefer ps \<le> ?v" if "alignment (?F a b) ps" for ps
    using alignment_first [OF assms(1,2) a b that]
  proof (elim disjE exE conjE)
    fix qs
    assume qs: "ps = ?p # qs" "matches a b" "alignment (?F (Suc a) (Suc b)) qs"
    then have "worth prefer qs \<le> both" using both by (simp add: best_worth_def)
    with qs show ?thesis by (simp add: w_def)
  qed (use below right in \<open>auto simp: best_worth_def le_max_iff_disj\<close>)
  have "\<exists>ps. alignment (?F a b) ps \<and> worth prefer ps = below"
    "\<exists>ps. alignment (?F a b) ps \<and> worth prefer ps = right"
    using below right sub alignment_mono unfolding best_worth_def by blast+
  moreover have "alignment (?F a b) (?p # ds)" if "matches a b"
    using ds that alignment_after [OF assms(1,2) a b order_refl order_refl] by simp
  then have "\<exists>ps. alignment (?F a b) ps \<and> worth prefer ps = both + w old new" if "matches a b"
    using ds that by (intro exI [of _ "?p # ds"]) (simp add: w_def)
  ultimately have "\<exists>ps. alignment (?F a b) ps \<and> worth prefer ps = ?v"
    by (simp add: max_def)
  with upper show ?thesis
    by (simp add: best_worth_def)
qed

section \<open>The table filled\<close>

text \<open>What the walk and the table need of the rows and the weights.\<close>

definition pairs_ok :: "nat list \<Rightarrow> nat list \<Rightarrow> bool" where
  "pairs_ok old new \<longleftrightarrow>
     sorted_wrt (<) old \<and> sorted_wrt (<) new \<and> list_all (\<lambda>row. row < 2 ^ 62) (old @ new)
     \<and> length old < 2 ^ 20 \<and> length new < 2 ^ 20"

definition weighs :: "nat list \<Rightarrow> nat list \<Rightarrow> (nat \<Rightarrow> nat \<Rightarrow> bool) \<Rightarrow> int \<Rightarrow> (nat \<Rightarrow> nat \<Rightarrow> int option) \<Rightarrow> bool" where
  "weighs old new matches prefer weight \<longleftrightarrow>
     (\<forall>a < length old. \<forall>b < length new. weight a b =
        (if matches a b then Some (KEPT + of_bool (shift_of (old ! a, new ! b) = prefer)) else None))"

lemma from_region_all: "from_region old new matches 0 0 = matching_rows old new matches"
  by (auto simp: from_region_def matching_rows_def region_def)

lemma best_worth_bounds:
  assumes "pairs_ok old new" and "best_worth prefer (from_region old new matches a b) v"
  shows "0 \<le> v" and "v < 2 ^ 62 + 2 ^ 20"
proof -
  obtain ps where ps: "alignment (from_region old new matches a b) ps" "worth prefer ps = v"
    using assms(2) by (auto simp: best_worth_def)
  then have "alignment (matching_rows old new matches) ps"
    using alignment_mono from_region_mono [of 0 a 0 b] unfolding from_region_all [symmetric] by blast
  then have "length ps \<le> length old"
    using ralign_length [of old new matches "length old" "length new" "rev ps"]
    by (simp add: ralign_def matching_rows_def)
  then have "int (length ps) \<le> 2 ^ 20 - 1" "int (on_shift prefer ps) \<le> int (length ps)"
    using assms(1) by (simp_all add: pairs_ok_def on_shift_def)
  then show "0 \<le> v" "v < 2 ^ 62 + 2 ^ 20"
    using ps(2) unfolding worth_def KEPT_def by simp_all
qed

lemma cell_index_exact:
  assumes "pairs_ok old new" and "a \<le> length old" and "b \<le> length new"
  shows "cell_index (length new) a b = a * Suc (length new) + b"
    and "cell_index (length new) a b < Suc (length old) * Suc (length new)"
proof -
  have len: "length old < 2 ^ 20" "length new < 2 ^ 20"
    using assms(1) by (simp_all add: pairs_ok_def)
  have less: "a * Suc (length new) + b < Suc a * Suc (length new)"
    using assms(3) by simp
  also have "\<dots> \<le> Suc (length old) * Suc (length new)"
    using assms(2) by (intro mult_le_mono1) simp
  finally have inside: "a * Suc (length new) + b < Suc (length old) * Suc (length new)" .
  moreover have "Suc (length old) * Suc (length new) \<le> 2 ^ 20 * 2 ^ 20"
    using len by (intro mult_le_mono) simp_all
  ultimately have "a * Suc (length new) < 2 ^ 64" "a * Suc (length new) + b < 2 ^ 64"
    by simp_all
  then show "cell_index (length new) a b = a * Suc (length new) + b"
    using len by (simp add: cell_index_def us_add_exact us_mul_exact)
  with inside show "cell_index (length new) a b < Suc (length old) * Suc (length new)"
    by simp
qed

lemma cell_index_eq:
  assumes "pairs_ok old new" and "a \<le> length old" and "b \<le> length new" and "x \<le> length old" and "y \<le> length new"
  shows "cell_index (length new) a b = cell_index (length new) x y \<longleftrightarrow> a = x \<and> b = y"
proof
  assume "cell_index (length new) a b = cell_index (length new) x y"
  then have eq: "a * Suc (length new) + b = x * Suc (length new) + y"
    using cell_index_exact(1) [OF assms(1,2,3)] cell_index_exact(1) [OF assms(1,4,5)] by simp
  then show "a = x \<and> b = y"
    using row_major_unique [of b "Suc (length new)" y a x] assms(3,5) by simp
qed simp

lemma value_at_update:
  assumes "pairs_ok old new" and "length best = Suc (length old) * Suc (length new)"
    and "a \<le> length old" and "b \<le> length new" and "x \<le> length old" and "y \<le> length new"
  shows "value_at (length new) (best[cell_index (length new) a b := v]) x y
    = (if x = a \<and> y = b then v else value_at (length new) best x y)"
  using cell_index_exact(2) [OF assms(1,5,6)] cell_index_eq [OF assms(1,3-6)] assms(2)
  by (auto simp: value_at_def)

text \<open>With the rows below \<open>a\<close> done and the cells of \<open>a\<close> from \<open>b\<close> on, each cell done has its best.\<close>

definition filled ::
  "nat list \<Rightarrow> nat list \<Rightarrow> (nat \<Rightarrow> nat \<Rightarrow> bool) \<Rightarrow> int \<Rightarrow> nat \<Rightarrow> nat \<Rightarrow> int list \<Rightarrow> bool" where
  "filled old new matches prefer a b best \<longleftrightarrow>
     length best = Suc (length old) * Suc (length new)
     \<and> (\<forall>x y. x \<le> length old \<and> y \<le> length new \<and> (a < x \<or> x = a \<and> b \<le> y \<or> y = length new)
          \<longrightarrow> best_worth prefer (from_region old new matches x y) (value_at (length new) best x y))"

lemma filled_at:
  "filled old new matches prefer 0 0 best \<Longrightarrow> x \<le> length old \<Longrightarrow> y \<le> length new
    \<Longrightarrow> best_worth prefer (from_region old new matches x y) (value_at (length new) best x y)"
  by (auto simp: filled_def)

lemma fill_cell_filled:
  assumes ok: "pairs_ok old new" and weight: "weighs old new matches prefer weight"
    and a: "a < length old" and b: "b < length new"
    and fill: "filled old new matches prefer a (Suc b) best"
  shows "filled old new matches prefer a b (fill_cell weight (length new) a b best)"
proof -
  let ?F = "from_region old new matches" and ?v = "value_at (length new) best"
  have len: "length best = Suc (length old) * Suc (length new)"
    and cells: "\<And>x y. x \<le> length old \<Longrightarrow> y \<le> length new \<Longrightarrow> a < x \<or> x = a \<and> Suc b \<le> y \<or> y = length new
      \<Longrightarrow> best_worth prefer (?F x y) (?v x y)"
    using fill by (auto simp: filled_def)
  have below: "best_worth prefer (?F (Suc a) b) (?v (Suc a) b)"
    and right: "best_worth prefer (?F a (Suc b)) (?v a (Suc b))"
    and both: "best_worth prefer (?F (Suc a) (Suc b)) (?v (Suc a) (Suc b))"
    using a b by (auto intro!: cells)
  let ?w = "KEPT + of_bool (shift_of (old ! a, new ! b) = prefer)"
  let ?new = "if matches a b then max (max (?v (Suc a) b) (?v a (Suc b))) (?v (Suc a) (Suc b) + ?w)
    else max (?v (Suc a) b) (?v a (Suc b))"
  have "i64_add (?v (Suc a) (Suc b)) ?w = ?v (Suc a) (Suc b) + ?w"
    using best_worth_bounds [OF ok both] by (simp add: i64_add_def sat64_exact KEPT_def)
  then have best: "fill_cell weight (length new) a b best = best[cell_index (length new) a b := ?new]"
    using weight a b by (simp add: fill_cell_def weighs_def Let_def)
  have new: "best_worth prefer (?F a b) ?new"
    using best_worth_step [OF _ _ a b below right both] ok by (simp add: pairs_ok_def)
  note at = value_at_update [OF ok len less_imp_le [OF a] less_imp_le [OF b]]
  show ?thesis
    unfolding filled_def best
  proof (intro conjI allI impI)
    fix x y
    assume xy: "x \<le> length old \<and> y \<le> length new \<and> (a < x \<or> x = a \<and> b \<le> y \<or> y = length new)"
    show "best_worth prefer (?F x y) (value_at (length new) (best[cell_index (length new) a b := ?new]) x y)"
    proof (cases "x = a \<and> y = b")
      case True
      with new xy show ?thesis by (simp only: at simp_thms if_True)
    next
      case False
      with xy have "best_worth prefer (?F x y) (?v x y)" by (intro cells) auto
      with False xy show ?thesis by (simp only: at simp_thms if_False)
    qed
  qed (use len in simp)
qed

lemma fill_row_filled:
  assumes "pairs_ok old new" and "weighs old new matches prefer weight" and "a < length old"
    and "filled old new matches prefer a (length new) best" and "b \<le> length new"
  shows "filled old new matches prefer a b
    (foldr (\<lambda>b best. fill_cell weight (length new) a b best) [b..<length new] best)"
  using assms(5)
proof (induction rule: inc_induct)
  case (step b)
  then show ?case
    using fill_cell_filled [OF assms(1-3), of b] by (simp add: upt_conv_Cons)
qed (use assms(4) in simp)

lemma filled_next_row:
  "filled old new matches prefer (Suc a) 0 best \<Longrightarrow> filled old new matches prefer a (length new) best"
  unfolding filled_def by (metis Suc_leI le_antisym le_neq_implies_less zero_le)

lemma fill_table_filled:
  assumes ok: "pairs_ok old new" and weight: "weighs old new matches prefer weight"
  shows "filled old new matches prefer 0 0 (fill_table weight (length old) (length new))"
proof -
  let ?start = "replicate (us_mul (us_add (length old) 1) (us_add (length new) 1)) (0 :: int)"
  let ?row = "\<lambda>a best. foldr (\<lambda>b best. fill_cell weight (length new) a b best) [0..<length new] best"
  have len: "length old < 2 ^ 20" "length new < 2 ^ 20"
    using ok by (simp_all add: pairs_ok_def)
  then have "Suc (length old) * Suc (length new) \<le> 2 ^ 20 * 2 ^ 20"
    by (intro mult_le_mono) simp_all
  then have "us_mul (us_add (length old) 1) (us_add (length new) 1) = Suc (length old) * Suc (length new)"
    using len by (simp add: us_add_exact us_mul_exact del: mult_Suc mult_Suc_right)
  then have start: "filled old new matches prefer (length old) 0 ?start"
    using best_worth_end unfolding filled_def
    by (auto simp: from_region_end value_at_def simp del: mult_Suc mult_Suc_right)
  have "filled old new matches prefer a 0 (foldr ?row [a..<length old] ?start)" if "a \<le> length old" for a
    using that
  proof (induction rule: inc_induct)
    case (step a)
    then show ?case
      using fill_row_filled [OF ok weight _ filled_next_row, of a _ 0] by (simp add: upt_conv_Cons)
  qed (use start in simp)
  then show ?thesis
    by (simp add: fill_table_def)
qed

section \<open>The walk\<close>

lemma best_worth_unique: "best_worth prefer R v \<Longrightarrow> best_worth prefer R v' \<Longrightarrow> v = v'"
  unfolding best_worth_def by (metis order_antisym)

text \<open>A cell follows from the three it was made from.\<close>

lemma filled_cell:
  assumes "pairs_ok old new" and "filled old new matches prefer 0 0 best"
    and "a < length old" and "b < length new"
  shows "value_at (length new) best a b =
    (if matches a b
     then max (max (value_at (length new) best (Suc a) b) (value_at (length new) best a (Suc b)))
            (value_at (length new) best (Suc a) (Suc b) + KEPT
              + of_bool (shift_of (old ! a, new ! b) = prefer))
     else max (value_at (length new) best (Suc a) b) (value_at (length new) best a (Suc b)))"
proof -
  note cells = filled_at [OF assms(2)]
  have sorted: "sorted_wrt (<) old" "sorted_wrt (<) new"
    using assms(1) by (simp_all add: pairs_ok_def)
  have "best_worth prefer (from_region old new matches (Suc a) b) (value_at (length new) best (Suc a) b)"
    "best_worth prefer (from_region old new matches a (Suc b)) (value_at (length new) best a (Suc b))"
    "best_worth prefer (from_region old new matches (Suc a) (Suc b)) (value_at (length new) best (Suc a) (Suc b))"
    using assms(3,4) by (simp_all add: cells)
  note step = best_worth_step [OF sorted assms(3,4) this]
  have "best_worth prefer (from_region old new matches a b) (value_at (length new) best a b)"
    using assms(3,4) by (simp add: cells)
  then show ?thesis
    unfolding add.assoc by (rule best_worth_unique [OF _ step])
qed

lemma pair_walk_best:
  assumes ok: "pairs_ok old new" and weight: "weighs old new matches prefer weight"
    and fill: "filled old new matches prefer 0 0 best"
  shows "a \<le> length old \<Longrightarrow> b \<le> length new \<Longrightarrow>
    alignment (from_region old new matches a b) (pair_walk weight old new best a b)
    \<and> worth prefer (pair_walk weight old new best a b) = value_at (length new) best a b"
proof (induction "length old - a + (length new - b)" arbitrary: a b rule: less_induct)
  case less
  let ?F = "from_region old new matches" and ?v = "value_at (length new) best"
  let ?walk = "pair_walk weight old new best"
  note cells = filled_at [OF fill]
  show ?case
  proof (cases "a < length old \<and> b < length new")
    case False
    then have "?F a b = {}"
      by (auto simp: from_region_end)
    moreover have "?walk a b = []"
      using False by (subst pair_walk.simps) (simp only: Let_def if_False)
    ultimately show ?thesis
      using cells [OF less.prems] best_worth_end best_worth_unique by fastforce
  next
    case True
    then have a: "a < length old" and b: "b < length new" by simp_all
    let ?w = "KEPT + of_bool (shift_of (old ! a, new ! b) = prefer)"
    have exact: "i64_add (?v (Suc a) (Suc b)) ?w = ?v (Suc a) (Suc b) + ?w"
      using best_worth_bounds [OF ok cells [of "Suc a" "Suc b"]] a b
      by (simp add: i64_add_def sat64_exact KEPT_def)
    have IH: "alignment (?F x y) (?walk x y) \<and> worth prefer (?walk x y) = ?v x y"
      if "a \<le> x" "b \<le> y" "x + y > a + b" "x \<le> Suc a" "y \<le> Suc b" for x y
      using that a b by (intro less.hyps) auto
    have sub: "?F (Suc a) b \<subseteq> ?F a b" "?F a (Suc b) \<subseteq> ?F a b"
      by (simp_all add: from_region_mono)
    note cell = filled_cell [OF ok fill a b]
    have walk: "?walk a b =
      (if matches a b \<and> ?v a b = ?v (Suc a) (Suc b) + ?w then (old ! a, new ! b) # ?walk (Suc a) (Suc b)
       else if ?v a b = ?v (Suc a) b then ?walk (Suc a) b else ?walk a (Suc b))"
      using a b weight exact by (simp add: pair_walk.simps [of _ _ _ _ a b] weighs_def Let_def)
    show ?thesis
    proof (cases "matches a b \<and> ?v a b = ?v (Suc a) (Suc b) + ?w")
      case True
      then show ?thesis
        using walk IH [of "Suc a" "Suc b"] alignment_after [OF _ _ a b order_refl order_refl] ok
        by (simp add: pairs_ok_def)
    next
      case False
      then have other: "?v a b = ?v a (Suc b)" if "?v a b \<noteq> ?v (Suc a) b"
        using cell that by (auto simp: max_def split: if_splits)
      have "?walk a b = (if ?v a b = ?v (Suc a) b then ?walk (Suc a) b else ?walk a (Suc b))"
        using walk False by (simp only: if_False)
      then show ?thesis
        using other IH [of "Suc a" b] IH [of a "Suc b"] alignment_mono [OF _ sub(1)] alignment_mono [OF _ sub(2)]
        by (cases "?v a b = ?v (Suc a) b") simp_all
    qed
  qed
qed

section \<open>The pairs\<close>

lemma nth_concat_rows:
  "a < length xss \<Longrightarrow> b < q \<Longrightarrow> list_all (\<lambda>xs. length xs = q) xss \<Longrightarrow>
    a * q + b < length (concat xss) \<and> concat xss ! (a * q + b) = xss ! a ! b"
proof (induction xss arbitrary: a)
  case (Cons xs xss)
  then show ?case
    by (cases a) (simp_all add: nth_append add.assoc)
qed simp

lemma pair_weighs:
  assumes "pairs_ok (map fst old) (map fst new)"
  shows "weighs (map fst old) (map fst new) (\<lambda>a b. alike (snd (old ! a)) (snd (new ! b))) prefer
    (pair_weight old new prefer)"
  unfolding weighs_def
proof (intro allI impI)
  fix a b
  assume "a < length (map fst old)" "b < length (map fst new)"
  then have a: "a < length old" and b: "b < length new" by simp_all
  let ?rows = "map (\<lambda>(_, o_row). map (\<lambda>(_, n_row). alike o_row n_row) new) old"
  have "list_all (\<lambda>xs. length xs = length new) ?rows"
    by (auto simp: list_all_iff)
  from nth_concat_rows [OF _ b this, of a]
  have cell: "a * length new + b < length (alike_table old new)"
    "alike_table old new ! (a * length new + b) = alike (snd (old ! a)) (snd (new ! b))"
    using a b by (simp_all add: alike_table_def case_prod_unfold)
  have len: "length old < 2 ^ 20" "length new < 2 ^ 20"
    using assms by (simp_all add: pairs_ok_def)
  then have "a * length new \<le> 2 ^ 20 * 2 ^ 20"
    using a by (intro mult_le_mono) simp_all
  then have exact: "us_add (us_mul a (length new)) b = a * length new + b"
    using b len by (simp add: us_add_exact us_mul_exact)
  have "fst (old ! a) < 2 ^ 62" "fst (new ! b) < 2 ^ 62"
    using assms a b by (auto simp: pairs_ok_def list_all_iff)
  then have "int (fst (old ! a)) < 2 ^ 62" "int (fst (new ! b)) < 2 ^ 62"
    by simp_all
  then have "i64_sub (isize_of (fst (new ! b))) (isize_of (fst (old ! a))) = shift_of (fst (old ! a), fst (new ! b))"
    by (simp add: i64_sub_def isize_of_def sat64_exact shift_of_def)
  moreover have "i64_add KEPT (of_bool B) = KEPT + of_bool B" for B
    by (simp add: i64_add_def sat64_exact KEPT_def)
  ultimately show "pair_weight old new prefer a b =
      (if alike (snd (old ! a)) (snd (new ! b))
       then Some (KEPT + of_bool (shift_of (map fst old ! a, map fst new ! b) = prefer)) else None)"
    using a b cell exact by (simp add: pair_weight_def Let_def)
qed

lemma worth_order:
  assumes "worth prefer qs \<le> worth prefer ps" and "length ps < 2 ^ 20" and "length qs < 2 ^ 20"
  shows "length qs < length ps \<or> length qs = length ps \<and> on_shift prefer qs \<le> on_shift prefer ps"
proof -
  have "int (on_shift prefer ps) \<le> 2 ^ 20"
    using assms(2) by (simp add: on_shift_def) (meson le_less_trans length_filter_le less_imp_le)
  then show ?thesis
    using assms(1) by (auto simp: worth_def KEPT_def not_less le_less)
qed

text \<open>The pairs of an old and a new row that are alike.\<close>

definition alike_rows :: "(nat \<times> likeness) list \<Rightarrow> (nat \<times> likeness) list \<Rightarrow> (nat \<times> nat) set" where
  "alike_rows old new =
     matching_rows (map fst old) (map fst new) (\<lambda>a b. alike (snd (old ! a)) (snd (new ! b)))"

text \<open>
  C8. The rewrites found between kept rows are an order-keeping matching of alike rows; no other has
  more pairs, and none with as many has more of them on the preferred shift.
\<close>

theorem pair_optimal:
  assumes "pairs_ok (map fst old) (map fst new)"
  shows "alignment (alike_rows old new) (pair old new prefer)
    \<and> (\<forall>qs. alignment (alike_rows old new) qs \<longrightarrow>
         length qs < length (pair old new prefer)
         \<or> length qs = length (pair old new prefer)
           \<and> on_shift prefer qs \<le> on_shift prefer (pair old new prefer))"
proof -
  let ?old = "map fst old" and ?new = "map fst new"
  let ?matches = "\<lambda>a b. alike (snd (old ! a)) (snd (new ! b))"
  let ?best = "fill_table (pair_weight old new prefer) (length ?old) (length ?new)"
  note weight = pair_weighs [OF assms, of "prefer"]
  note fill = fill_table_filled [OF assms weight]
  have best: "alignment (alike_rows old new) (pair old new prefer)
      \<and> best_worth prefer (alike_rows old new) (worth prefer (pair old new prefer))"
  proof (cases "old = [] \<or> new = []")
    case True
    then have "alike_rows old new = {}"
      by (auto simp: alike_rows_def matching_rows_def region_def)
    then show ?thesis
      using True best_worth_end by (simp add: pair_def)
  next
    case False
    then have "pair old new prefer = pair_walk (pair_weight old new prefer) ?old ?new ?best 0 0"
      by (simp add: pair_def Let_def)
    then show ?thesis
      using pair_walk_best [OF assms weight fill, of 0 0] filled_at [OF fill, of 0 0]
      by (simp add: from_region_all alike_rows_def)
  qed
  have short: "length ps < 2 ^ 20" if "alignment (alike_rows old new) ps" for ps
    using ralign_length [of ?old ?new ?matches "length ?old" "length ?new" "rev ps"] that assms
    by (simp add: ralign_def alike_rows_def matching_rows_def pairs_ok_def)
  have "worth prefer qs \<le> worth prefer (pair old new prefer)" if "alignment (alike_rows old new) qs" for qs
    using best that by (simp add: best_worth_def)
  then show ?thesis
    using worth_order short best by blast
qed

text \<open>Two rows that each lost their last character: both are paired.\<close>

definition old_gap :: "(nat \<times> likeness) list" where
  "old_gap = [(4, Likeness_of [97, 98, 99]), (5, Likeness_of [120, 121, 122])]"

definition new_gap :: "(nat \<times> likeness) list" where
  "new_gap = [(4, Likeness_of [97, 98]), (5, Likeness_of [120, 121])]"

lemma gap_alike:
  "alike (Likeness_of [97, 98, 99]) (Likeness_of [97, 98])"
  "alike (Likeness_of [120, 121, 122]) (Likeness_of [120, 121])"
proof -
  have "\<exists>zs. subseq zs [97, 98, 99 :: uchar] \<and> subseq zs [97, 98] \<and> Suc (Suc (Suc 0)) \<le> 2 * length zs"
    by (intro exI [of _ "[97, 98]"]) simp
  then show "alike (Likeness_of [97, 98, 99]) (Likeness_of [97, 98])"
    by (subst alike_half) simp_all
  have "\<exists>zs. subseq zs [120, 121, 122 :: uchar] \<and> subseq zs [120, 121] \<and> Suc (Suc (Suc 0)) \<le> 2 * length zs"
    by (intro exI [of _ "[120, 121]"]) simp
  then show "alike (Likeness_of [120, 121, 122]) (Likeness_of [120, 121])"
    by (subst alike_half) simp_all
qed

theorem pair_optimal_witness:
  "pairs_ok (map fst old_gap) (map fst new_gap) \<and> 2 \<le> length (pair old_gap new_gap 0)"
proof -
  have ok: "pairs_ok (map fst old_gap) (map fst new_gap)"
    by (simp add: old_gap_def new_gap_def pairs_ok_def)
  have "(map fst old_gap ! 0, map fst new_gap ! 0) \<in> alike_rows old_gap new_gap"
    "(map fst old_gap ! 1, map fst new_gap ! 1) \<in> alike_rows old_gap new_gap"
    unfolding alike_rows_def matching_rows_def
    by (rule regionI; simp add: old_gap_def new_gap_def gap_alike)+
  then have "alignment (alike_rows old_gap new_gap) [(4, 4), (5, 5)]"
    by (simp add: alignment_def old_gap_def new_gap_def)
  with pair_optimal [OF ok, of 0] have "2 \<le> length (pair old_gap new_gap 0)"
    by fastforce
  with ok show ?thesis
    by simp
qed

end
