(* ===== verification/Frames.thy ===== *)
theory Frames
  imports Prelude Indices
begin

text \<open>
  How a message is framed on the pipes between verbatim.exe and its children, the framing half of
  \<^verbatim>\<open>verbatim-process/src/transport.rs\<close>: a text header giving the body's length, and the raw
  section's when there is one, then the body and the raw section. A writer fills the digits of a
  header in place (\<open>append_frame\<close>); a reader takes frames from a stream (\<open>read_frame\<close>) or from
  whatever bytes its reads brought so far (\<open>frame_bounds\<close>, \<open>whole_frames\<close>).

  The theorems show that the reader gives back what the writer framed, and that a frame that is
  recognised in some bytes is recognised as the same frame with any bytes after them.
\<close>

type_synonym u8 = "8 word"

text \<open>An I/O error: its kind, and for the kinds this code makes, which of its messages.\<close>

datatype io_error =
    InvalidInput
  | NotAHeader
  | TooLarge
  | HeaderTooLong
  | RawNotTaken
  | EndedInHeader
  | EndedInFrame
  | BrokenPipe
  | WriteZero
  | InvalidBody
  | OsError nat

type_synonym 'a io_result = "io_error + 'a"

definition bytes_of :: "string \<Rightarrow> u8 list" where
  "bytes_of s = map of_char s"

definition MAX_FRAME_BYTES :: nat where
  "MAX_FRAME_BYTES = 32 * 1024 * 1024"

definition HEADER_NAME :: "u8 list" where
  "HEADER_NAME = bytes_of ''Content-Length: ''"

definition RAW_NAME :: "u8 list" where
  "RAW_NAME = bytes_of ''Raw-Length: ''"

definition LINE_END :: "u8 list" where
  "LINE_END = [13, 10]"

definition HEADER_END :: "u8 list" where
  "HEADER_END = [13, 10, 13, 10]"

definition LENGTH_DIGITS :: nat where
  "LENGTH_DIGITS = 10"

definition MAX_HEADER_BYTES :: nat where
  "MAX_HEADER_BYTES = 64"

section \<open>A frame's parts\<close>

record parts =
  pt_body :: "u8 list"
  pt_raw :: "u8 list option"

definition Parts_body :: "u8 list \<Rightarrow> parts" where
  "Parts_body body = \<lparr>pt_body = body, pt_raw = None\<rparr>"

definition without_raw :: "parts \<Rightarrow> u8 list io_result" where
  "without_raw p = (case pt_raw p of None \<Rightarrow> Inr (pt_body p) | Some _ \<Rightarrow> Inl RawNotTaken)"

record owned_frame =
  of_buffer :: "u8 list"
  of_raw :: "nat option"

definition into_owned :: "parts \<Rightarrow> owned_frame" where
  "into_owned p =
     \<lparr>of_buffer = pt_body p @ (case pt_raw p of Some raw \<Rightarrow> raw | None \<Rightarrow> []),
      of_raw = map_option (\<lambda>_. length (pt_body p)) (pt_raw p)\<rparr>"

definition owned_parts :: "owned_frame \<Rightarrow> parts" where
  "owned_parts f =
     (case of_raw f of
        Some raw \<Rightarrow> \<lparr>pt_body = take raw (of_buffer f), pt_raw = Some (drop raw (of_buffer f))\<rparr>
      | None \<Rightarrow> Parts_body (of_buffer f))"

lemma owned_parts_into [simp]: "owned_parts (into_owned p) = p"
  by (cases p) (auto simp: owned_parts_def into_owned_def Parts_body_def split: option.split)

section \<open>Decimal lengths\<close>

text \<open>\<open>format!("{length:010}")\<close>: the decimal digits, with zeros in front of them to a width.\<close>

fun decimal :: "nat \<Rightarrow> u8 list" where
  "decimal n = (if n < 10 then [48 + of_nat n] else decimal (n div 10) @ [48 + of_nat (n mod 10)])"

declare decimal.simps [simp del]

definition zero_padded :: "nat \<Rightarrow> nat \<Rightarrow> u8 list" where
  "zero_padded width n = replicate (width - length (decimal n)) 48 @ decimal n"

definition is_ascii_digit :: "u8 \<Rightarrow> bool" where
  "is_ascii_digit b \<longleftrightarrow> 48 \<le> b \<and> b \<le> 57"

definition digits_value :: "u8 list \<Rightarrow> nat" where
  "digits_value ds = foldl (\<lambda>n d. n * 10 + (unat d - 48)) 0 ds"

text \<open>\<open>str::parse::<usize>\<close> on digits: nothing when the number does not fit.\<close>

definition parse_usize :: "u8 list \<Rightarrow> nat option" where
  "parse_usize ds = (if digits_value ds < 2 ^ 64 then Some (digits_value ds) else None)"

section \<open>Writing a frame\<close>

text \<open>\<open>put_body\<close> and \<open>put_raw\<close> append to the buffer or fail; a value of \<open>u8 list io_result\<close> says
  which, with what was appended.\<close>

definition fill :: "nat \<Rightarrow> nat \<Rightarrow> u8 list \<Rightarrow> u8 list" where
  "fill pos n buffer =
     take pos buffer @ zero_padded LENGTH_DIGITS n @ drop (pos + LENGTH_DIGITS) buffer"

definition append_frame ::
  "u8 list \<Rightarrow> u8 list io_result \<Rightarrow> u8 list io_result option \<Rightarrow> u8 list io_result" where
  "append_frame buffer put_body put_raw =
     (let buffer = buffer @ HEADER_NAME;
          digits = length buffer;
          buffer = buffer @ replicate LENGTH_DIGITS 48;
          (buffer, raw_digits) =
            (if put_raw \<noteq> None
             then let buffer = buffer @ LINE_END @ RAW_NAME; pos = length buffer
                  in (buffer @ replicate LENGTH_DIGITS 48, Some pos)
             else (buffer, None));
          buffer = buffer @ HEADER_END;
          body = length buffer
      in case put_body of Inl e \<Rightarrow> Inl e | Inr appended \<Rightarrow>
         let buffer = buffer @ appended;
             len = length buffer - body
         in case (case put_raw of None \<Rightarrow> Inr (buffer, 0)
                  | Some (Inl e) \<Rightarrow> Inl e
                  | Some (Inr appended) \<Rightarrow>
                      let raw = length buffer; buffer = buffer @ appended
                      in Inr (buffer, length buffer - raw)) of
              Inl e \<Rightarrow> Inl e
            | Inr (buffer, raw_length) \<Rightarrow>
                if MAX_FRAME_BYTES < len + raw_length then Inl InvalidInput
                else let buffer = fill digits len buffer
                     in Inr (case raw_digits of
                               Some pos \<Rightarrow> fill pos raw_length buffer
                             | None \<Rightarrow> buffer))"

text \<open>The buffer afterwards, cut back to what it was on an error, and the error.\<close>

definition put_frame ::
  "u8 list \<Rightarrow> u8 list io_result \<Rightarrow> u8 list \<times> io_error option" where
  "put_frame buffer put_body =
     (case append_frame buffer put_body None of
        Inl e \<Rightarrow> (buffer, Some e)
      | Inr framed \<Rightarrow> (framed, None))"

definition put_frame_with_raw ::
  "u8 list \<Rightarrow> u8 list io_result \<Rightarrow> u8 list io_result \<Rightarrow> u8 list \<times> io_error option" where
  "put_frame_with_raw buffer put_body put_raw =
     (case append_frame buffer put_body (Some put_raw) of
        Inl e \<Rightarrow> (buffer, Some e)
      | Inr framed \<Rightarrow> (framed, None))"

section \<open>Reading a header\<close>

record lengths =
  ln_body :: nat
  ln_raw :: "nat option"

definition whole :: "lengths \<Rightarrow> nat" where
  "whole l = ln_body l + (case ln_raw l of Some raw \<Rightarrow> raw | None \<Rightarrow> 0)"

definition strip_prefix :: "'a list \<Rightarrow> 'a list \<Rightarrow> 'a list option" where
  "strip_prefix p xs = (if take (length p) xs = p then Some (drop (length p) xs) else None)"

definition strip_suffix :: "'a list \<Rightarrow> 'a list \<Rightarrow> 'a list option" where
  "strip_suffix p xs =
     (if length p \<le> length xs \<and> drop (length xs - length p) xs = p
      then Some (take (length xs - length p) xs) else None)"

text \<open>\<open>windows(n).position(..)\<close>: where a pattern first occurs.\<close>

fun position :: "'a list \<Rightarrow> 'a list \<Rightarrow> nat option" where
  "position p [] = (if p = [] then Some 0 else None)"
| "position p (x # xs) =
     (if take (length p) (x # xs) = p then Some 0 else map_option Suc (position p xs))"

text \<open>The closure \<open>length\<close> of \<open>parse_header\<close>.\<close>

definition parse_length :: "u8 list \<Rightarrow> nat io_result" where
  "parse_length digits =
     (if digits = [] \<or> \<not> list_all is_ascii_digit digits then Inl NotAHeader
      else case parse_usize digits of
             None \<Rightarrow> Inl TooLarge
           | Some n \<Rightarrow> if n \<le> MAX_FRAME_BYTES then Inr n else Inl TooLarge)"

text \<open>The digits of the two lengths, from the lines of a header.\<close>

definition header_digits :: "u8 list \<Rightarrow> (u8 list \<times> u8 list option) io_result" where
  "header_digits header =
     (case Option.bind (strip_prefix HEADER_NAME header) (strip_suffix HEADER_END) of
        None \<Rightarrow> Inl NotAHeader
      | Some lines \<Rightarrow>
          case position LINE_END lines of
            None \<Rightarrow> Inr (lines, None)
          | Some pos \<Rightarrow>
              case strip_prefix RAW_NAME (drop (pos + length LINE_END) lines) of
                None \<Rightarrow> Inl NotAHeader
              | Some raw \<Rightarrow> Inr (take pos lines, Some raw))"

definition parse_header :: "u8 list \<Rightarrow> lengths io_result" where
  "parse_header header =
     (case header_digits header of Inl e \<Rightarrow> Inl e | Inr (body, raw) \<Rightarrow>
      case parse_length body of Inl e \<Rightarrow> Inl e | Inr body \<Rightarrow>
      case (case raw of None \<Rightarrow> Inr None | Some raw \<Rightarrow> map_sum id Some (parse_length raw)) of
        Inl e \<Rightarrow> Inl e
      | Inr raw \<Rightarrow>
          let l = \<lparr>ln_body = body, ln_raw = raw\<rparr>
          in if MAX_FRAME_BYTES < whole l then Inl TooLarge else Inr l)"

section \<open>Frames in the bytes read so far\<close>

definition frame_bounds :: "u8 list \<Rightarrow> (nat \<times> lengths) option io_result" where
  "frame_bounds bytes =
     (case position HEADER_END (take MAX_HEADER_BYTES bytes) of
        Some pos \<Rightarrow>
          let header = pos + length HEADER_END
          in map_sum id (\<lambda>l. Some (header, l)) (parse_header (take header bytes))
      | None \<Rightarrow> if MAX_HEADER_BYTES \<le> length bytes then Inl HeaderTooLong else Inr None)"

text \<open>The parts of the frame that bytes start with, once its bounds are known.\<close>

definition parts_at :: "u8 list \<Rightarrow> nat \<Rightarrow> lengths \<Rightarrow> parts" where
  "parts_at bytes header l =
     (let raw_start = header + ln_body l
      in \<lparr>pt_body = take (ln_body l) (drop header bytes),
          pt_raw = map_option (\<lambda>_. take (header + whole l - raw_start) (drop raw_start bytes)) (ln_raw l)\<rparr>)"

text \<open>
  \<open>whole_frames\<close>: the caller's closure is a function on its own state, which may refuse a frame;
  the result is that state, and the error or how many bytes were handed out. The loop's index is
  the number \<open>at\<close> of bytes that are gone from the front.
\<close>

lemma frame_bounds_header: "frame_bounds bytes = Inr (Some (header, l)) \<Longrightarrow> 4 \<le> header"
  by (auto simp: frame_bounds_def Let_def HEADER_END_def map_sum_def split: option.splits sum.splits if_splits)

function whole_frames ::
  "('s \<Rightarrow> parts \<Rightarrow> 's \<times> io_error option) \<Rightarrow> 's \<Rightarrow> nat \<Rightarrow> u8 list \<Rightarrow> 's \<times> nat io_result" where
  "whole_frames frame s pos bytes =
     (case frame_bounds (drop pos bytes) of
        Inl e \<Rightarrow> (s, Inl e)
      | Inr None \<Rightarrow> (s, Inr pos)
      | Inr (Some (header, l)) \<Rightarrow>
          let till = pos + header + whole l
          in if length bytes < till then (s, Inr pos)
             else case frame s (parts_at (drop pos bytes) header l) of
                    (s, Some e) \<Rightarrow> (s, Inl e)
                  | (s, None) \<Rightarrow> whole_frames frame s till bytes)"
  by pat_completeness auto
termination
  by (relation "measure (\<lambda>(frame, s, pos, bytes). length bytes - pos)")
    (auto dest!: frame_bounds_header)

declare whole_frames.simps [simp del]


section \<open>Frames of a stream\<close>

text \<open>
  A \<open>BufRead\<close> is what its successive calls of \<open>fill_buf\<close> would return, each an error or the bytes
  it has ready; no more of them, or an empty one, is the end of the stream.
\<close>

type_synonym buf_read = "u8 list io_result list"

definition consume :: "nat \<Rightarrow> buf_read \<Rightarrow> buf_read" where
  "consume taken r =
     (case r of
        Inr available # r \<Rightarrow>
          if length available \<le> taken then r else Inr (drop taken available) # r
      | _ \<Rightarrow> r)"

definition ends_with :: "'a list \<Rightarrow> 'a list \<Rightarrow> bool" where
  "ends_with xs p \<longleftrightarrow> length p \<le> length xs \<and> drop (length xs - length p) xs = p"

text \<open>The loop over the bytes in view: the header so far, how many bytes were taken, and whether
  the header ended.\<close>

fun take_header :: "u8 list \<Rightarrow> nat \<Rightarrow> u8 list \<Rightarrow> u8 list \<times> nat \<times> bool" where
  "take_header header taken [] = (header, taken, False)"
| "take_header header taken (byte # bytes) =
     (let header = header @ [byte]; taken = Suc taken
      in if ends_with header HEADER_END then (header, taken, True)
         else if MAX_HEADER_BYTES < length header then (header, taken, False)
         else take_header header taken bytes)"

fun read_header_from :: "u8 list \<Rightarrow> buf_read \<Rightarrow> buf_read \<times> lengths option io_result" where
  "read_header_from header [] =
     ([], if header = [] then Inr None else Inl EndedInHeader)"
| "read_header_from header (Inl e # r) = (r, Inl e)"
| "read_header_from header (Inr available # r) =
     (if available = []
      then (r, if header = [] then Inr None else Inl EndedInHeader)
      else
        let (header, taken, ended) = take_header header 0 available;
            rest = consume taken (Inr available # r)
        in if ended then (rest, map_sum id Some (parse_header header))
           else if MAX_HEADER_BYTES < length header then (rest, Inl HeaderTooLong)
           else read_header_from header r)"

definition read_header :: "buf_read \<Rightarrow> buf_read \<times> lengths option io_result" where
  "read_header r = read_header_from [] r"

text \<open>\<open>Read::read_exact\<close>.\<close>

fun read_exact :: "nat \<Rightarrow> buf_read \<Rightarrow> buf_read \<times> u8 list io_result" where
  "read_exact n [] = ([], if n = 0 then Inr [] else Inl EndedInFrame)"
| "read_exact n (Inl e # r) = (if n = 0 then (Inl e # r, Inr []) else (r, Inl e))"
| "read_exact n (Inr available # r) =
     (if n = 0 then (Inr available # r, Inr [])
      else if available = [] then (r, Inl EndedInFrame)
      else if n < length available then (Inr (drop n available) # r, Inr (take n available))
      else apsnd (map_sum id ((@) available)) (read_exact (n - length available) r))"

definition read_frame :: "buf_read \<Rightarrow> buf_read \<times> owned_frame option io_result" where
  "read_frame r =
     (case read_header r of
        (r, Inl e) \<Rightarrow> (r, Inl e)
      | (r, Inr None) \<Rightarrow> (r, Inr None)
      | (r, Inr (Some l)) \<Rightarrow>
          case read_exact (whole l) r of
            (r, Inl e) \<Rightarrow> (r, Inl e)
          | (r, Inr buffer) \<Rightarrow>
              (r, Inr (Some \<lparr>of_buffer = buffer, of_raw = map_option (\<lambda>_. ln_body l) (ln_raw l)\<rparr>)))"

section \<open>Where a pattern occurs\<close>

lemma position_bound:
  "position p xs = Some i \<Longrightarrow> i + length p \<le> length xs \<and> take (length p) (drop i xs) = p"
proof (induction p xs arbitrary: i rule: position.induct)
  case (2 p x xs)
  show ?case
  proof (cases "take (length p) (x # xs) = p")
    case True
    then have "length p \<le> length (x # xs)" by (metis length_take min.absorb_iff2 min.commute)
    then show ?thesis using 2(2) True by simp
  next
    case False
    then show ?thesis using 2 by auto
  qed
qed (auto split: if_splits)

lemma position_append: "position p xs = Some i \<Longrightarrow> position p (xs @ ys) = Some i"
proof (induction p xs arbitrary: i rule: position.induct)
  case (1 p)
  then show ?case by (cases ys) (auto split: if_splits)
next
  case (2 p x xs)
  show ?case
  proof (cases "take (length p) (x # xs) = p")
    case True
    then have "length p \<le> length (x # xs)" by (metis length_take min.absorb_iff2 min.commute)
    then have "take (length p) (x # xs @ ys) = take (length p) (x # xs)"
      by (metis append_Cons append_self_conv diff_is_0_eq take_append take_eq_Nil)
    then show ?thesis using 2(2) True by simp
  next
    case False
    moreover from this obtain j where j: "position p xs = Some j" "i = Suc j"
      using 2(2) by auto
    then have "j + length p \<le> length xs" using position_bound by blast
    then have "take (length p) (x # xs @ ys) = take (length p) (x # xs)"
      by (simp add: take_Cons')
    ultimately show ?thesis using 2(1) j by simp
  qed
qed

lemma position_skip:
  assumes "p \<noteq> []" and "hd p \<notin> set xs"
  shows "position p (xs @ ys) = map_option ((+) (length xs)) (position p ys)"
  using assms(2)
proof (induction xs)
  case Nil
  then show ?case by (simp add: option.map_id0 [unfolded id_def] )
next
  case (Cons x xs)
  then have "take (length p) (x # xs @ ys) \<noteq> p" using assms(1)
    by (cases p) auto
  then show ?case using Cons by (simp add: option.map_comp comp_def)
qed

lemma take_position: "position p (take n xs) = Some i \<Longrightarrow> position p (take n (xs @ ys)) = Some i"
  by (simp add: position_append)

section \<open>More bytes change nothing\<close>

lemma frame_bounds_in:
  assumes "frame_bounds bytes = Inr (Some (header, l))"
  shows "header \<le> length bytes"
  using assms
  by (auto simp: frame_bounds_def Let_def map_sum_def dest!: position_bound
      split: option.splits sum.splits if_splits)

lemma frame_bounds_append:
  assumes "frame_bounds bytes \<noteq> Inr None"
  shows "frame_bounds (bytes @ more_bytes) = frame_bounds bytes"
proof (cases "position HEADER_END (take MAX_HEADER_BYTES bytes)")
  case None
  then have "MAX_HEADER_BYTES \<le> length bytes" using assms by (auto simp: frame_bounds_def split: if_splits)
  then show ?thesis using None by (simp add: frame_bounds_def)
next
  case (Some i)
  have "i + length HEADER_END \<le> length bytes" using position_bound [OF Some] by simp
  then show ?thesis using Some take_position [OF Some] by (simp add: frame_bounds_def)
qed

lemma parts_at_append:
  "header + whole l \<le> length bytes \<Longrightarrow> parts_at (bytes @ more_bytes) header l = parts_at bytes header l"
  by (auto simp: parts_at_def Let_def whole_def split: option.splits)

lemma whole_frames_used:
  assumes "whole_frames frame s pos bytes = (s', Inr used)" and "pos \<le> length bytes"
  shows "pos \<le> used \<and> used \<le> length bytes"
  using assms
proof (induction frame s pos bytes rule: whole_frames.induct)
  case (1 frame s pos bytes)
  show ?case
    using 1(2,3)
    by (subst (asm) whole_frames.simps)
      (auto simp: Let_def split: sum.splits option.splits prod.splits if_splits dest!: 1(1))
qed

lemma whole_frames_append:
  assumes "pos \<le> length bytes"
  shows "whole_frames frame s pos (bytes @ more_bytes) =
    (case whole_frames frame s pos bytes of
       (s, Inl e) \<Rightarrow> (s, Inl e)
     | (s, Inr used) \<Rightarrow> whole_frames frame s used (bytes @ more_bytes))"
  using assms
proof (induction frame s pos bytes rule: whole_frames.induct)
  case (1 frame s pos bytes)
  show ?case
  proof (cases "frame_bounds (drop pos bytes)")
    case (Inl e)
    then show ?thesis
      using 1(2) frame_bounds_append [of "drop pos bytes" more_bytes]
      by (simp add: whole_frames.simps [of frame s pos])
  next
    case (Inr b)
    show ?thesis
    proof (cases b)
      case None
      then show ?thesis using Inr by (simp add: whole_frames.simps [of frame s pos bytes])
    next
      case (Some hl)
      obtain header l where hl: "hl = (header, l)" by (cases hl)
      have f: "frame_bounds (drop pos bytes @ more_bytes) = Inr (Some (header, l))"
        using 1(2) frame_bounds_append [of "drop pos bytes" more_bytes] Inr Some hl by simp
      show ?thesis
      proof (cases "length bytes < pos + header + whole l")
        case True
        then show ?thesis using Inr Some hl by (simp add: whole_frames.simps [of frame s pos bytes])
      next
        case False
        then have p: "parts_at (drop pos bytes @ more_bytes) header l = parts_at (drop pos bytes) header l"
          by (intro parts_at_append) simp
        obtain s' r where fr: "frame s (parts_at (drop pos bytes) header l) = (s', r)"
          by fastforce
        show ?thesis
          using 1(2) f p fr False Inr Some hl
            1(1) [OF Inr Some hl [symmetric] refl False fr [symmetric]]
          by (cases r) (simp_all add: whole_frames.simps [of frame s pos])
      qed
    qed
  qed
qed

lemma whole_frames_shift:
  assumes "k \<le> length bytes"
  shows "whole_frames frame s (k + pos) bytes =
    apsnd (map_sum id ((+) k)) (whole_frames frame s pos (drop k bytes))"
  using assms
proof (induction frame s pos "drop k bytes" rule: whole_frames.induct)
  case (1 frame s pos)
  have e: "drop pos (drop k bytes) = drop (k + pos) bytes" by (simp add: add.commute)
  show ?case
  proof (cases "frame_bounds (drop (k + pos) bytes)")
    case (Inl a)
    then show ?thesis
      by (simp add: whole_frames.simps [of frame s "k + pos"] whole_frames.simps [of frame s pos] e del: drop_drop)
  next
    case (Inr b)
    show ?thesis
    proof (cases b)
      case None
      then show ?thesis using Inr
        by (simp add: whole_frames.simps [of frame s "k + pos"] whole_frames.simps [of frame s pos] e del: drop_drop)
    next
      case (Some hl)
      obtain header l where hl: "hl = (header, l)" by (cases hl)
      obtain s' r where fr: "frame s (parts_at (drop (k + pos) bytes) header l) = (s', r)"
        by fastforce
      have l: "length (drop k bytes) < pos + header + whole l \<longleftrightarrow> length bytes < k + (pos + header + whole l)"
        using 1(2) by auto
      note ih = 1(1) [unfolded e, OF Inr Some hl [symmetric] refl _ fr [symmetric] _ 1(2)]
      show ?thesis
        using Inr Some hl fr l ih
        by (cases r; cases "length bytes < k + (pos + header + whole l)")
          (simp_all add: whole_frames.simps [of frame s "k + pos"] whole_frames.simps [of frame s pos] e
            add.assoc del: drop_drop length_drop)
    qed
  qed
qed

section \<open>The digits of a length\<close>

lemma unat_digit: "d < 10 \<Longrightarrow> unat (48 + of_nat d :: u8) = 48 + d"
proof -
  assume "d < 10"
  moreover have "unat (of_nat (48 + d) :: u8) = take_bit 8 (48 + d)" by (simp only: unsigned_of_nat) simp
  ultimately show ?thesis by (simp add: take_bit_nat_eq_self)
qed

lemma is_ascii_digit_iff: "is_ascii_digit b \<longleftrightarrow> 48 \<le> unat b \<and> unat b \<le> 57"
  by (simp add: is_ascii_digit_def word_le_nat_alt)

lemma is_ascii_digit_of: "d < 10 \<Longrightarrow> is_ascii_digit (48 + of_nat d)"
  by (simp add: is_ascii_digit_iff unat_digit)

lemma decimal_digits: "list_all is_ascii_digit (decimal n)"
  by (induction n rule: decimal.induct) (subst decimal.simps, auto simp: is_ascii_digit_of)

lemma digits_value_snoc: "digits_value (ds @ [d]) = digits_value ds * 10 + (unat d - 48)"
  by (simp add: digits_value_def)

lemma decimal_value: "digits_value (decimal n) = n"
proof (induction n rule: decimal.induct)
  case (1 n)
  show ?case
  proof (cases "n < 10")
    case True
    then show ?thesis by (subst decimal.simps) (simp add: digits_value_def unat_digit)
  next
    case False
    then show ?thesis using 1 by (subst decimal.simps) (simp add: digits_value_snoc unat_digit)
  qed
qed

lemma decimal_length: "n < 10 ^ Suc k \<Longrightarrow> length (decimal n) \<le> Suc k"
proof (induction k arbitrary: n)
  case 0
  then show ?case by (subst decimal.simps) simp
next
  case (Suc k)
  have "n div 10 < 10 ^ Suc k" using Suc.prems by (simp add: div_less_iff_less_mult)
  then show ?case using Suc.IH [of "n div 10"] by (subst decimal.simps) auto
qed

lemma digits_value_zeros: "digits_value (replicate k 48 @ ds) = digits_value ds"
  by (induction k) (simp_all add: digits_value_def)

lemma zero_padded_value [simp]: "digits_value (zero_padded width n) = n"
  by (simp add: zero_padded_def digits_value_zeros decimal_value)

lemma zero_padded_digits [simp]: "list_all is_ascii_digit (zero_padded width n)"
  using decimal_digits by (auto simp: zero_padded_def list_all_iff is_ascii_digit_iff)

lemma zero_padded_no_break: "13 \<notin> set (zero_padded width n)"
  using zero_padded_digits [of width n] by (auto simp: list_all_iff is_ascii_digit_iff)

lemma zero_padded_length: "n \<le> MAX_FRAME_BYTES \<Longrightarrow> length (zero_padded LENGTH_DIGITS n) = 10"
  using decimal_length [of n 9] by (simp add: zero_padded_def LENGTH_DIGITS_def MAX_FRAME_BYTES_def)

lemma zero_padded_nonempty: "n \<le> MAX_FRAME_BYTES \<Longrightarrow> zero_padded LENGTH_DIGITS n \<noteq> []"
  using zero_padded_length [of n] by auto

lemma parse_length_padded: "n \<le> MAX_FRAME_BYTES \<Longrightarrow> parse_length (zero_padded LENGTH_DIGITS n) = Inr n"
  using zero_padded_nonempty [of n]
  by (simp add: parse_length_def parse_usize_def MAX_FRAME_BYTES_def)

section \<open>What a frame is\<close>

text \<open>The bytes of the frame with given parts, and the parts that fit in one.\<close>

definition raw_bytes :: "parts \<Rightarrow> u8 list" where
  "raw_bytes p = (case pt_raw p of None \<Rightarrow> [] | Some raw \<Rightarrow> raw)"

definition fits :: "parts \<Rightarrow> bool" where
  "fits p \<longleftrightarrow> length (pt_body p) + length (raw_bytes p) \<le> MAX_FRAME_BYTES"

definition lengths_of :: "parts \<Rightarrow> lengths" where
  "lengths_of p = \<lparr>ln_body = length (pt_body p), ln_raw = map_option length (pt_raw p)\<rparr>"

definition header_of :: "parts \<Rightarrow> u8 list" where
  "header_of p =
     HEADER_NAME @ zero_padded LENGTH_DIGITS (length (pt_body p)) @
     (case pt_raw p of
        None \<Rightarrow> []
      | Some raw \<Rightarrow> LINE_END @ RAW_NAME @ zero_padded LENGTH_DIGITS (length raw)) @
     HEADER_END"

definition frame_of :: "parts \<Rightarrow> u8 list" where
  "frame_of p = header_of p @ pt_body p @ raw_bytes p"

lemmas header_texts = HEADER_NAME_def RAW_NAME_def LINE_END_def HEADER_END_def bytes_of_def

lemma whole_lengths_of [simp]: "whole (lengths_of p) = length (pt_body p) + length (raw_bytes p)"
  by (simp add: whole_def lengths_of_def raw_bytes_def split: option.split)

lemma fill_at:
  "length old = LENGTH_DIGITS \<Longrightarrow> fill (length pre) n (pre @ old @ post) = pre @ zero_padded LENGTH_DIGITS n @ post"
  by (simp add: fill_def)

lemma fill_at2:
  assumes "length old = LENGTH_DIGITS"
  shows "fill (length a + length b) n (a @ b @ old @ post) = a @ b @ zero_padded LENGTH_DIGITS n @ post"
  using fill_at [OF assms, of "a @ b" n post] by simp

lemma append_frame_exact:
  "append_frame buffer (Inr (pt_body p)) (map_option Inr (pt_raw p)) =
     (if fits p then Inr (buffer @ frame_of p) else Inl InvalidInput)"
proof (cases "pt_raw p")
  case None
  then show ?thesis
    by (simp add: append_frame_def Let_def fits_def raw_bytes_def frame_of_def header_of_def
        fill_at2 [of "replicate LENGTH_DIGITS 48"])
next
  case (Some raw)
  show ?thesis
  proof (cases "fits p")
    case True
    have z: "length (zero_padded LENGTH_DIGITS (length (pt_body p))) = LENGTH_DIGITS"
      using True zero_padded_length [of "length (pt_body p)"] by (simp add: fits_def LENGTH_DIGITS_def)
    have "fill (length buffer + length HEADER_NAME + LENGTH_DIGITS + length LINE_END + length RAW_NAME) n
        (buffer @ HEADER_NAME @ zero_padded LENGTH_DIGITS (length (pt_body p)) @ LINE_END @ RAW_NAME @
          replicate LENGTH_DIGITS 48 @ post) =
        buffer @ HEADER_NAME @ zero_padded LENGTH_DIGITS (length (pt_body p)) @ LINE_END @ RAW_NAME @
          zero_padded LENGTH_DIGITS n @ post" for n post
      using fill_at [of "replicate LENGTH_DIGITS 48"
          "buffer @ HEADER_NAME @ zero_padded LENGTH_DIGITS (length (pt_body p)) @ LINE_END @ RAW_NAME" n post] z
      by (simp add: add.assoc)
    then show ?thesis
      using True Some
      by (simp add: append_frame_def Let_def fits_def raw_bytes_def frame_of_def header_of_def add.assoc
          fill_at2 [of "replicate LENGTH_DIGITS 48"])
  next
    case False
    then show ?thesis using Some by (simp add: append_frame_def Let_def fits_def raw_bytes_def)
  qed
qed

lemma strip_suffix_append [simp]: "strip_suffix q (xs @ q) = Some xs"
  by (simp add: strip_suffix_def)

lemma strip_prefix_append [simp]: "strip_prefix q (q @ xs) = Some xs"
  by (simp add: strip_prefix_def)

lemma parse_header_plain:
  assumes "list_all is_ascii_digit ds" and "ds \<noteq> []" and "digits_value ds \<le> MAX_FRAME_BYTES"
  shows "parse_header (HEADER_NAME @ ds @ HEADER_END) = Inr \<lparr>ln_body = digits_value ds, ln_raw = None\<rparr>"
proof -
  have "13 \<notin> set ds" using assms(1) by (auto simp: list_all_iff is_ascii_digit_iff)
  then have "position LINE_END ds = None" using position_skip [of LINE_END ds "[]"] by (simp add: LINE_END_def)
  then show ?thesis
    using assms by (simp add: parse_header_def header_digits_def parse_length_def parse_usize_def whole_def MAX_FRAME_BYTES_def)
qed

lemma parse_header_of: "fits p \<Longrightarrow> parse_header (header_of p) = Inr (lengths_of p)"
proof -
  assume f: "fits p"
  let ?d = "zero_padded LENGTH_DIGITS (length (pt_body p))"
  have m: "length (pt_body p) \<le> MAX_FRAME_BYTES" using f by (simp add: fits_def)
  show ?thesis
  proof (cases "pt_raw p")
    case None
    then show ?thesis
      using parse_header_plain [of ?d] zero_padded_nonempty [OF m] m by (simp add: header_of_def lengths_of_def)
  next
    case (Some raw)
    let ?e = "zero_padded LENGTH_DIGITS (length raw)"
    have b: "parse_length ?d = Inr (length (pt_body p))" "parse_length ?e = Inr (length raw)"
      using f Some by (simp_all add: fits_def raw_bytes_def parse_length_padded)
    have "position LINE_END (?d @ LINE_END @ RAW_NAME @ ?e) = Some (length ?d)"
      using position_skip [of LINE_END ?d "LINE_END @ RAW_NAME @ ?e"] zero_padded_no_break
      by (simp add: LINE_END_def)
    then show ?thesis
      using Some f b strip_suffix_append [of HEADER_END "?d @ LINE_END @ RAW_NAME @ ?e"]
      by (simp add: parse_header_def header_digits_def header_of_def fits_def raw_bytes_def lengths_of_def whole_def)
  qed
qed

lemma header_of_length: "fits p \<Longrightarrow> length (header_of p) \<le> 54 \<and> 30 \<le> length (header_of p)"
  using zero_padded_length
  by (auto simp: header_of_def header_texts fits_def raw_bytes_def split: option.split)

lemma position_header_of:
  "fits p \<Longrightarrow> position HEADER_END (header_of p) = Some (length (header_of p) - length HEADER_END)"
proof -
  assume f: "fits p"
  let ?d = "zero_padded LENGTH_DIGITS (length (pt_body p))"
  have hd: "hd HEADER_END \<notin> set (HEADER_NAME @ ?d)"
    using zero_padded_no_break by (simp add: header_texts)
  have h: "position HEADER_END HEADER_END = Some 0" by (simp add: HEADER_END_def)
  show ?thesis
  proof (cases "pt_raw p")
    case None
    then show ?thesis
      using position_skip [OF _ hd, of HEADER_END] h by (simp add: header_of_def) (simp add: HEADER_END_def)
  next
    case (Some raw)
    let ?e = "zero_padded LENGTH_DIGITS (length raw)"
    have "hd HEADER_END \<notin> set (RAW_NAME @ ?e)"
      using zero_padded_no_break by (simp add: header_texts)
    then have "position HEADER_END ((RAW_NAME @ ?e) @ HEADER_END) = Some (length (RAW_NAME @ ?e))"
      using position_skip [of HEADER_END "RAW_NAME @ ?e" HEADER_END] h by (simp add: HEADER_END_def)
    then have "position HEADER_END (LINE_END @ RAW_NAME @ ?e @ HEADER_END) = Some (length (LINE_END @ RAW_NAME @ ?e))"
      by (simp add: header_texts)
    then show ?thesis
      using position_skip [OF _ hd, of "LINE_END @ RAW_NAME @ ?e @ HEADER_END"] Some
      by (simp add: header_of_def) (simp add: HEADER_END_def)
  qed
qed

lemma frame_bounds_of: "fits p \<Longrightarrow> frame_bounds (frame_of p @ rest) = Inr (Some (length (header_of p), lengths_of p))"
proof -
  assume f: "fits p"
  have l: "length (header_of p) \<le> MAX_HEADER_BYTES" "length HEADER_END \<le> length (header_of p)"
    using header_of_length [OF f] by (simp_all add: MAX_HEADER_BYTES_def HEADER_END_def)
  have e: "frame_of p @ rest = header_of p @ pt_body p @ raw_bytes p @ rest" by (simp add: frame_of_def)
  have "frame_bounds (header_of p @ post) = Inr (Some (length (header_of p), lengths_of p))" for post
    using position_append [OF position_header_of [OF f]] l parse_header_of [OF f]
    by (simp add: frame_bounds_def)
  then show ?thesis unfolding e .
qed

lemma parts_at_of: "parts_at (frame_of p @ rest) (length (header_of p)) (lengths_of p) = p"
  by (cases p) (auto simp: parts_at_def frame_of_def lengths_of_def whole_def raw_bytes_def split: option.splits)

lemma frame_of_length: "length (frame_of p) = length (header_of p) + whole (lengths_of p)"
  by (simp add: frame_of_def)

section \<open>Frames one after another\<close>

text \<open>The bytes of some frames, and what handing them to a closure one by one gives.\<close>

definition stream_of :: "parts list \<Rightarrow> u8 list" where
  "stream_of ps = concat (map frame_of ps)"

lemma stream_of_simps [simp]:
  "stream_of [] = []"
  "stream_of (p # ps) = frame_of p @ stream_of ps"
  "stream_of (ps @ qs) = stream_of ps @ stream_of qs"
  by (simp_all add: stream_of_def)

fun hand :: "('s \<Rightarrow> parts \<Rightarrow> 's \<times> io_error option) \<Rightarrow> 's \<Rightarrow> parts list \<Rightarrow> 's \<times> io_error option" where
  "hand frame s [] = (s, None)"
| "hand frame s (p # ps) =
     (case frame s p of (s, Some e) \<Rightarrow> (s, Some e) | (s, None) \<Rightarrow> hand frame s ps)"

lemma whole_frames_stream:
  assumes "list_all fits ps"
  shows "whole_frames frame s (length pre) (pre @ stream_of ps @ rest) =
    (case hand frame s ps of
       (s, Some e) \<Rightarrow> (s, Inl e)
     | (s, None) \<Rightarrow> whole_frames frame s (length (pre @ stream_of ps)) (pre @ stream_of ps @ rest))"
  using assms
proof (induction ps arbitrary: s pre)
  case Nil
  then show ?case by simp
next
  case (Cons p ps)
  then have f: "fits p" by simp
  note b = frame_bounds_of [OF f, of "stream_of ps @ rest"]
  obtain s' r where fr: "frame s p = (s', r)" by fastforce
  show ?case
    using Cons(1) [of s' "pre @ frame_of p"] Cons(2) b fr parts_at_of [of p "stream_of ps @ rest"]
    by (subst whole_frames.simps)
      (cases r; simp add: Let_def frame_of_length add.assoc split: prod.splits)
qed

lemma whole_frames_partial:
  assumes "\<And>header l. frame_bounds bytes = Inr (Some (header, l)) \<Longrightarrow> length bytes < header + whole l"
    and "\<not> isl (frame_bounds bytes)"
  shows "whole_frames frame s 0 bytes = (s, Inr 0)"
  using assms by (subst whole_frames.simps) (auto simp: Let_def split: sum.splits option.splits)

section \<open>The two readers agree\<close>

lemma position_first:
  "i \<le> length xs \<Longrightarrow> take (length p) (drop i xs) = p \<Longrightarrow> \<exists>j \<le> i. position p xs = Some j"
proof (induction p xs arbitrary: i rule: position.induct)
  case (1 p)
  then show ?case by auto
next
  case (2 p x xs)
  show ?case
  proof (cases i)
    case 0
    then show ?thesis using 2 by simp
  next
    case (Suc k)
    then show ?thesis using 2 by auto (metis Suc_le_mono bot_nat_0.extremum map_option_eq_Some)
  qed
qed

text \<open>A header does not end before it ends.\<close>

lemma not_ended_before:
  assumes "position p xs = Some i" and "n < i + length p"
  shows "\<not> ends_with (take n xs) p"
proof
  assume e: "ends_with (take n xs) p"
  have n: "n \<le> length xs" using assms position_bound [OF assms(1)] by simp
  then have "drop (n - length p) (take n xs) = p" "length p \<le> n" using e by (auto simp: ends_with_def)
  then have "take (length p) (drop (n - length p) xs) = p" by (simp add: drop_take)
  then obtain j where "j \<le> n - length p" "position p xs = Some j"
    using position_first [of "n - length p" xs p] n by (meson diff_le_self le_trans)
  then show False using assms \<open>length p \<le> n\<close> by simp
qed

text \<open>A header that is whole within the bound a reader accepts.\<close>

definition header_in :: "u8 list \<Rightarrow> nat \<Rightarrow> bool" where
  "header_in bytes n \<longleftrightarrow>
     (\<exists>i. position HEADER_END (take MAX_HEADER_BYTES bytes) = Some i \<and> n = i + length HEADER_END)"

lemma header_in_bound: "header_in bytes n \<Longrightarrow> n \<le> length bytes \<and> n \<le> MAX_HEADER_BYTES \<and> 0 < n"
  by (auto simp: header_in_def HEADER_END_def dest!: position_bound)

lemma header_in_position: "header_in bytes n \<Longrightarrow> position HEADER_END bytes = Some (n - 4) \<and> 4 \<le> n"
  using position_append [of HEADER_END "take MAX_HEADER_BYTES bytes" _ "drop MAX_HEADER_BYTES bytes"]
  by (auto simp: header_in_def HEADER_END_def)

lemma header_in_ended:
  assumes "header_in bytes n"
  shows "ends_with (take n bytes) HEADER_END"
proof -
  have n: "4 \<le> n" "n \<le> length bytes" and p: "position HEADER_END bytes = Some (n - 4)"
    using header_in_position [OF assms] header_in_bound [OF assms] by simp_all
  have l: "length HEADER_END = 4" by (simp add: HEADER_END_def)
  show ?thesis using n l position_bound [OF p] by (simp add: ends_with_def drop_take)
qed

lemma header_in_open: "header_in bytes n \<Longrightarrow> k < n \<Longrightarrow> \<not> ends_with (take k bytes) HEADER_END"
  using header_in_position [of bytes n] not_ended_before [of HEADER_END bytes "n - 4" k]
  by (simp add: HEADER_END_def)

lemma take_header_exact:
  assumes "header_in bytes n" and "k < n" and "drop k bytes = available @ later"
  shows "take_header (take k bytes) taken available =
    (if length available < n - k then (take (k + length available) bytes, taken + length available, False)
     else (take n bytes, taken + (n - k), True))"
  using assms(2,3)
proof (induction available arbitrary: k taken)
  case Nil
  then show ?case by simp
next
  case (Cons b bs)
  have len: "k < length bytes" using Cons.prems(2) by (metis drop_all linorder_not_less append_Cons list.distinct(1))
  have s: "take k bytes @ [b] = take (Suc k) bytes"
    using Cons.prems(2) len by (metis append_Cons nth_via_drop take_Suc_conv_app_nth)
  have d: "drop (Suc k) bytes = bs @ later" using Cons.prems(2) by (metis append_Cons drop_Suc drop_tl list.sel(3))
  have n: "n \<le> length bytes" "n \<le> MAX_HEADER_BYTES" using header_in_bound [OF assms(1)] by simp_all
  show ?case
  proof (cases "Suc k = n")
    case True
    then have "n - k = 1" by simp
    then show ?thesis using True s header_in_ended [OF assms(1)] by (simp add: Let_def)
  next
    case False
    then have "Suc k < n" using Cons.prems by simp
    then show ?thesis
      using Cons.IH [OF _ d, of "Suc taken"] s header_in_open [OF assms(1), of "Suc k"] n
      by (auto simp: Let_def)
  qed
qed

text \<open>A stream without errors, and the bytes it brings.\<close>

definition brings :: "buf_read \<Rightarrow> u8 list \<Rightarrow> bool" where
  "brings r bytes \<longleftrightarrow> (\<exists>chunks. r = map Inr chunks \<and> [] \<notin> set chunks \<and> bytes = concat chunks)"

lemma brings_Nil: "brings [] bytes \<longleftrightarrow> bytes = []"
  by (auto simp: brings_def)

lemma brings_Cons:
  "brings (a # r) bytes \<longleftrightarrow> (\<exists>chunk rest. a = Inr chunk \<and> chunk \<noteq> [] \<and> bytes = chunk @ rest \<and> brings r rest)"
  by (auto simp: brings_def Cons_eq_map_conv)

lemma brings_consume:
  assumes "brings (Inr available # r) bytes" and "k \<le> length available"
  shows "brings (consume k (Inr available # r)) (drop k bytes)"
  using assms by (auto simp: consume_def brings_Cons)

lemma read_header_from_exact:
  assumes "header_in bytes n" and "k < n" and "brings r (drop k bytes)"
  shows "\<exists>r'. read_header_from (take k bytes) r = (r', map_sum id Some (parse_header (take n bytes))) \<and>
    brings r' (drop n bytes)"
  using assms(2,3)
proof (induction r arbitrary: k)
  case Nil
  then show ?case using header_in_bound [OF assms(1)] by (simp add: brings_Nil)
next
  case (Cons a r)
  obtain chunk rest where c: "a = Inr chunk" "chunk \<noteq> []" "drop k bytes = chunk @ rest" "brings r rest"
    using Cons.prems(2) by (auto simp: brings_Cons)
  have t: "take_header (take k bytes) 0 chunk =
    (if length chunk < n - k then (take (k + length chunk) bytes, length chunk, False)
     else (take n bytes, n - k, True))"
    using take_header_exact [OF assms(1) Cons.prems(1) c(3), of 0] by simp
  have d: "drop (k + length chunk) bytes = rest"
    using c(3) by (metis add.commute append_eq_conv_conj drop_drop)
  have n: "n \<le> length bytes" "n \<le> MAX_HEADER_BYTES" using header_in_bound [OF assms(1)] by simp_all
  show ?case
  proof (cases "length chunk < n - k")
    case True
    then show ?thesis using Cons.IH [of "k + length chunk"] t d c n by (auto simp: Let_def)
  next
    case False
    then have "brings (consume (n - k) (Inr chunk # r)) (drop n bytes)"
      using brings_consume [of chunk r "drop k bytes" "n - k"] Cons.prems c(1) by simp
    then show ?thesis using False t c by (simp add: Let_def id_def)
  qed
qed

lemma read_exact_brings:
  assumes "brings r bytes" and "n \<le> length bytes"
  shows "\<exists>r'. read_exact n r = (r', Inr (take n bytes)) \<and> brings r' (drop n bytes)"
  using assms
proof (induction n r arbitrary: bytes rule: read_exact.induct)
  case (3 n available r)
  obtain rest where c: "available \<noteq> []" "bytes = available @ rest" "brings r rest"
    using 3(2) by (auto simp: brings_Cons)
  consider "n = 0" | "0 < n" "n < length available" | "0 < n" "length available \<le> n" by linarith
  then show ?case
  proof cases
    case 3
    then obtain r' where "read_exact (n - length available) r = (r', Inr (take (n - length available) rest))"
      "brings r' (drop (n - length available) rest)"
      using "3.IH" [OF _ c(1) _ c(3)] "3.prems"(2) c by (auto simp: le_diff_conv)
    then show ?thesis using c 3 by simp
  qed (use c 3 in \<open>auto simp: brings_Cons\<close>)
qed (auto simp: brings_Nil brings_Cons)

lemma frame_bounds_header_in:
  "frame_bounds bytes = Inr (Some (n, l)) \<longleftrightarrow> header_in bytes n \<and> parse_header (take n bytes) = Inr l"
  by (auto simp: frame_bounds_def header_in_def Let_def map_sum_def split: option.splits sum.splits if_splits)

lemma owned_parts_at:
  assumes "n + whole l \<le> length bytes"
  shows "owned_parts \<lparr>of_buffer = take (whole l) (drop n bytes), of_raw = map_option (\<lambda>_. ln_body l) (ln_raw l)\<rparr> =
    parts_at bytes n l"
  using assms
  by (auto simp: owned_parts_def parts_at_def Parts_body_def Let_def whole_def drop_take add.commute
      split: option.splits)

lemma read_frame_agrees:
  assumes "brings r bytes" and "frame_bounds bytes = Inr (Some (n, l))" and "n + whole l \<le> length bytes"
  shows "\<exists>r' f. read_frame r = (r', Inr (Some f)) \<and> owned_parts f = parts_at bytes n l \<and>
    brings r' (drop (n + whole l) bytes)"
proof -
  have h: "header_in bytes n" "parse_header (take n bytes) = Inr l"
    using assms(2) by (simp_all add: frame_bounds_header_in)
  obtain r1 where r1: "read_header r = (r1, Inr (Some l))" "brings r1 (drop n bytes)"
    using read_header_from_exact [OF h(1), of 0 r] assms(1) header_in_bound [OF h(1)] h(2)
    by (auto simp: read_header_def)
  obtain r2 where "read_exact (whole l) r1 = (r2, Inr (take (whole l) (drop n bytes)))"
    "brings r2 (drop (whole l) (drop n bytes))"
    using read_exact_brings [OF r1(2), of "whole l"] assms(3) by (auto simp: le_diff_conv2)
  then show ?thesis using r1 owned_parts_at [OF assms(3)] by (simp add: read_frame_def add.commute)
qed

definition sample_parts :: parts where
  "sample_parts = \<lparr>pt_body = [7], pt_raw = None\<rparr>"

lemma sample_fits: "fits sample_parts"
  by (simp add: sample_parts_def fits_def raw_bytes_def MAX_FRAME_BYTES_def)

lemma sample_length: "length (frame_of sample_parts) = 31"
  using zero_padded_length [of 1]
  by (simp add: frame_of_def header_of_def sample_parts_def raw_bytes_def header_texts MAX_FRAME_BYTES_def)

text \<open>
  C12. What the writer framed, the reader gives back: a frame that \<open>append_frame\<close> put after other bytes,
  read from a stream that brings it in any pieces, with anything after it, is the body and the raw
  section that were put, and the stream is left at what comes next.
\<close>

theorem written_frame_read:
  assumes "append_frame buffer (Inr (pt_body p)) (map_option Inr (pt_raw p)) = Inr framed"
    and "brings r (drop (length buffer) framed @ rest)"
  shows "\<exists>r' f. read_frame r = (r', Inr (Some f)) \<and> owned_parts f = p \<and> brings r' rest"
proof -
  have f: "fits p" "framed = buffer @ frame_of p"
    using assms(1) by (simp_all add: append_frame_exact split: if_splits)
  have "\<exists>r' f. read_frame r = (r', Inr (Some f)) \<and>
      owned_parts f = parts_at (frame_of p @ rest) (length (header_of p)) (lengths_of p) \<and>
      brings r' (drop (length (header_of p) + whole (lengths_of p)) (frame_of p @ rest))"
    using assms(2) f frame_of_length [of p] by (intro read_frame_agrees frame_bounds_of) (simp_all del: whole_lengths_of)
  then show ?thesis using frame_of_length [of p] by (simp add: parts_at_of del: whole_lengths_of)
qed

theorem written_frame_read_witness:
  "append_frame [1] (Inr (pt_body sample_parts)) (map_option Inr (pt_raw sample_parts)) = Inr (1 # frame_of sample_parts) \<and>
   (\<exists>r' f. read_frame (map Inr [take 20 (frame_of sample_parts), drop 20 (frame_of sample_parts), [9]]) =
      (r', Inr (Some f)) \<and> owned_parts f = sample_parts \<and> brings r' [9])"
proof -
  have "brings (map Inr [take 20 (frame_of sample_parts), drop 20 (frame_of sample_parts), [9]])
      (drop (length [1 :: u8]) (1 # frame_of sample_parts) @ [9])"
    using sample_length unfolding brings_def
    by (intro exI [of _ "[take 20 (frame_of sample_parts), drop 20 (frame_of sample_parts), [9]]"]) auto
  moreover have a: "append_frame [1] (Inr (pt_body sample_parts)) (map_option Inr (pt_raw sample_parts)) =
      Inr (1 # frame_of sample_parts)"
    using sample_fits by (simp add: append_frame_exact)
  ultimately show ?thesis using written_frame_read [OF a] by blast
qed

section \<open>A header of 65 bytes\<close>

text \<open>
  The bound on a header is not the same in the two readers: a header of 65 bytes, with more digits
  than this program writes, is taken from a stream, and refused in the bytes of a port's reads.
\<close>

definition long_header :: "u8 list" where
  "long_header = HEADER_NAME @ replicate 45 48 @ HEADER_END"

lemma long_header_length: "length long_header = Suc MAX_HEADER_BYTES"
  by (simp add: long_header_def header_texts MAX_HEADER_BYTES_def)

lemma take_header_skip:
  assumes "10 \<notin> set xs" and "length header + length xs \<le> MAX_HEADER_BYTES"
  shows "take_header header taken (xs @ ys) = take_header (header @ xs) (taken + length xs) ys"
  using assms
proof (induction xs arbitrary: header taken)
  case (Cons x xs)
  have "\<not> ends_with (header @ [x]) HEADER_END"
    using Cons.prems(1) by (auto simp: ends_with_def HEADER_END_def dest!: arg_cong [of _ _ last])
  then show ?case using Cons by (simp add: Let_def)
qed simp

lemma long_header_taken: "read_header [Inr long_header] = ([], Inr (Some \<lparr>ln_body = 0, ln_raw = None\<rparr>))"
proof -
  let ?pre = "HEADER_NAME @ replicate 45 48"
  have l: "length ?pre = 61" by (simp add: header_texts)
  have two: "replicate 2 x = [x, x]" for x :: u8 by (simp add: numeral_2_eq_2)
  have "take_header [] 0 (?pre @ HEADER_END) = take_header ?pre 61 HEADER_END"
    using take_header_skip [of ?pre "[]" 0 HEADER_END] l by (simp add: header_texts MAX_HEADER_BYTES_def)
  also have "\<dots> = (long_header, 65, True)"
    by (simp add: Let_def ends_with_def MAX_HEADER_BYTES_def long_header_def header_texts two)
  finally have "take_header [] 0 long_header = (long_header, 65, True)" by (simp add: long_header_def)
  moreover have "parse_header long_header = Inr \<lparr>ln_body = 0, ln_raw = None\<rparr>"
    unfolding long_header_def
    using parse_header_plain [of "replicate 45 48"] digits_value_zeros [of 45 "[]"]
    by (simp add: digits_value_def [of "[]"] is_ascii_digit_def list_all_iff)
  moreover have "long_header \<noteq> []" using long_header_length by auto
  ultimately show ?thesis
    using long_header_length by (simp add: read_header_def consume_def MAX_HEADER_BYTES_def)
qed

lemma long_header_refused: "frame_bounds long_header = Inl HeaderTooLong"
proof -
  have "take MAX_HEADER_BYTES long_header = (HEADER_NAME @ replicate 45 48) @ [13, 10, 13]"
    by (simp add: long_header_def header_texts MAX_HEADER_BYTES_def)
  then have "position HEADER_END (take MAX_HEADER_BYTES long_header) = None"
    using position_skip [of HEADER_END "HEADER_NAME @ replicate 45 48" "[13, 10, 13]"]
    by (simp add: header_texts)
  then show ?thesis using long_header_length by (simp add: frame_bounds_def)
qed

end
