(* ===== verification/Pipe_Readers.thy ===== *)
theory Pipe_Readers
  imports Frames
begin

text \<open>
  The two readers of an overlapped pipe end of \<^verbatim>\<open>verbatim-process/src/transport.rs\<close>:
  \<open>PortReader\<close>, which takes a turn on each completion of its port, and \<open>EventReader\<close>, which is asked
  for frames. Both keep the bytes of a frame that has not come whole and hand a closure each frame
  that has, in order. The file and the kernel are outside the program: what a read that is started
  answers, and what a read in flight brings in the end, are inputs.

  The theorems show that however the bytes are cut into reads and the reads into turns, the frames
  handed out are those of the stream, that a clean end comes only between frames, and that a call
  of \<open>EventReader::take\<close> ends.
\<close>

definition READ_SIZE :: nat where
  "READ_SIZE = 64 * 1024"

definition READS_PER_TURN :: nat where
  "READS_PER_TURN = 16"

text \<open>What starting an operation answers: the bytes a read moved at once, a read in flight, or an
  error. \<open>asked\<close> is the size of the slot's buffer, which no read fills beyond.\<close>

datatype read_answer =
    Pending
  | Done "u8 list"
  | Failed io_error

record pipe_reader =
  rd_pending :: "u8 list"
  rd_in_flight :: bool
  rd_asked :: nat
  rd_got :: "u8 list"

text \<open>\<open>rd_got\<close> is for the theorems only: the bytes all the reads have brought.\<close>

definition reader_new :: pipe_reader where
  "reader_new = \<lparr>rd_pending = [], rd_in_flight = False, rd_asked = 0, rd_got = []\<rparr>"

section \<open>What the readers share\<close>

definition wanted :: "nat \<Rightarrow> pipe_reader \<Rightarrow> nat" where
  "wanted read_size r =
     (case frame_bounds (rd_pending r) of
        Inr (Some (header, l)) \<Rightarrow> max (header + whole l - length (rd_pending r)) read_size
      | _ \<Rightarrow> read_size)"

definition reader_end :: "pipe_reader \<Rightarrow> unit io_result" where
  "reader_end r = (if rd_pending r = [] then Inr () else Inl EndedInFrame)"

text \<open>\<open>PipeIo::read_up_to\<close>, and how a read in flight ends: the reader, and the outcome once there is
  one, the bytes in the slot or the error.\<close>

definition read_moved :: "u8 list \<Rightarrow> pipe_reader \<Rightarrow> pipe_reader \<times> u8 list io_result" where
  "read_moved bytes r =
     (let data = take (rd_asked r) bytes in (r\<lparr>rd_got := rd_got r @ data\<rparr>, Inr data))"

definition read_up_to :: "nat \<Rightarrow> read_answer \<Rightarrow> pipe_reader \<Rightarrow> pipe_reader \<times> u8 list io_result option" where
  "read_up_to asked answer r =
     (let r = r\<lparr>rd_asked := asked\<rparr>
      in case answer of
           Pending \<Rightarrow> (r\<lparr>rd_in_flight := True\<rparr>, None)
         | Done bytes \<Rightarrow> apsnd Some (read_moved bytes r)
         | Failed e \<Rightarrow> (r, Some (Inl e)))"

definition read_ended :: "u8 list io_result \<Rightarrow> pipe_reader \<Rightarrow> pipe_reader \<times> u8 list io_result" where
  "read_ended outcome r =
     (let r = r\<lparr>rd_in_flight := False\<rparr>
      in case outcome of Inl e \<Rightarrow> (r, Inl e) | Inr bytes \<Rightarrow> read_moved bytes r)"

section \<open>The port reader\<close>

datatype completion =
    Posted
  | Own "u8 list io_result"
  | Foreign

datatype reading =
    Waiting
  | Yielded
  | Ended "unit io_result"

definition hand_out ::
  "('s \<Rightarrow> parts \<Rightarrow> 's \<times> io_error option) \<Rightarrow> u8 list \<Rightarrow> 's \<times> pipe_reader \<Rightarrow>
     ('s \<times> pipe_reader) \<times> unit io_result" where
  "hand_out frame data sr =
     (let (s, r) = sr
      in if rd_pending r = []
         then case whole_frames frame s 0 data of
                (s, Inl e) \<Rightarrow> ((s, r), Inl e)
              | (s, Inr used) \<Rightarrow> ((s, r\<lparr>rd_pending := drop used data\<rparr>), Inr ())
         else let r = r\<lparr>rd_pending := rd_pending r @ data\<rparr>
              in case whole_frames frame s 0 (rd_pending r) of
                   (s, Inl e) \<Rightarrow> ((s, r), Inl e)
                 | (s, Inr used) \<Rightarrow> ((s, r\<lparr>rd_pending := drop used (rd_pending r)\<rparr>), Inr ()))"

text \<open>What a finished read does: goes on, or ends the reading.\<close>

definition port_finished ::
  "('s \<Rightarrow> parts \<Rightarrow> 's \<times> io_error option) \<Rightarrow> u8 list io_result option \<Rightarrow> 's \<times> pipe_reader \<Rightarrow>
     ('s \<times> pipe_reader) \<times> unit io_result option" where
  "port_finished frame finished sr =
     (case finished of
        None \<Rightarrow> (sr, None)
      | Some (Inl BrokenPipe) \<Rightarrow> (sr, Some (reader_end (snd sr)))
      | Some (Inl e) \<Rightarrow> (sr, Some (Inl e))
      | Some (Inr data) \<Rightarrow>
          if data = [] then (sr, Some (reader_end (snd sr)))
          else case hand_out frame data sr of
                 (sr, Inl e) \<Rightarrow> (sr, Some (Inl e))
               | (sr, Inr _) \<Rightarrow> (sr, None))"

text \<open>The loop of \<open>take\<close>: \<open>left\<close> reads may still be made in this turn, and \<open>answers\<close> says what each
  read that is started answers, by its number from here.\<close>

fun port_loop ::
  "('s \<Rightarrow> parts \<Rightarrow> 's \<times> io_error option) \<Rightarrow> io_error option \<Rightarrow> nat \<Rightarrow> (nat \<Rightarrow> read_answer) \<Rightarrow>
     u8 list io_result option \<Rightarrow> 's \<times> pipe_reader \<Rightarrow> ('s \<times> pipe_reader) \<times> reading" where
  "port_loop frame post left answers finished sr =
     (case port_finished frame finished sr of
        (sr, Some outcome) \<Rightarrow> (sr, Ended outcome)
      | ((s, r), None) \<Rightarrow>
          (case left of
             0 \<Rightarrow> ((s, r), case post of None \<Rightarrow> Yielded | Some e \<Rightarrow> Ended (Inl e))
           | Suc left \<Rightarrow>
               (case read_up_to (wanted READ_SIZE r) (answers 0) r of
                  (r, None) \<Rightarrow> ((s, r), Waiting)
                | (r, Some outcome) \<Rightarrow> port_loop frame post left (answers \<circ> Suc) (Some outcome) (s, r))))"

declare port_loop.simps [simp del]

record turn =
  tn_completion :: completion
  tn_answers :: "nat \<Rightarrow> read_answer"
  tn_post :: "io_error option"

definition port_take ::
  "('s \<Rightarrow> parts \<Rightarrow> 's \<times> io_error option) \<Rightarrow> turn \<Rightarrow> 's \<times> pipe_reader \<Rightarrow> ('s \<times> pipe_reader) \<times> reading" where
  "port_take frame t sr =
     (let go = port_loop frame (tn_post t) READS_PER_TURN (tn_answers t)
      in case tn_completion t of
           Posted \<Rightarrow> if rd_in_flight (snd sr) then (sr, Waiting) else go None sr
         | Own outcome \<Rightarrow>
             if rd_in_flight (snd sr)
             then let (r, outcome) = read_ended outcome (snd sr) in go (Some outcome) (fst sr, r)
             else (sr, Waiting)
         | Foreign \<Rightarrow> (sr, Waiting))"

text \<open>The thread that serves the port gives the reader turns until the reading ends.\<close>

fun port_turns ::
  "('s \<Rightarrow> parts \<Rightarrow> 's \<times> io_error option) \<Rightarrow> turn list \<Rightarrow> 's \<times> pipe_reader \<Rightarrow> ('s \<times> pipe_reader) \<times> reading" where
  "port_turns frame [] sr = (sr, Waiting)"
| "port_turns frame (t # ts) sr =
     (case port_take frame t sr of
        (sr, Ended outcome) \<Rightarrow> (sr, Ended outcome)
      | (sr, _) \<Rightarrow> port_turns frame ts sr)"

section \<open>The event reader\<close>

datatype event_taken =
    Frames
  | TakenWaiting
  | TakenEnded "unit io_result"

text \<open>What a poll of the read in flight says: nothing while it runs. \<open>polls\<close> and \<open>answers\<close> give the
  kernel's answers by the number of the loop's pass.\<close>

partial_function (option) event_take ::
  "('s \<Rightarrow> parts \<Rightarrow> 's \<times> io_error option) \<Rightarrow> nat \<Rightarrow> (nat \<Rightarrow> u8 list io_result option) \<Rightarrow> (nat \<Rightarrow> read_answer) \<Rightarrow>
     's \<times> pipe_reader \<Rightarrow> (('s \<times> pipe_reader) \<times> event_taken) option" where
  "event_take frame read_size polls answers sr =
     (let (s, r) = sr;
          (r, finished) =
            (if rd_in_flight r
             then case polls 0 of
                    None \<Rightarrow> (r, None)
                  | Some outcome \<Rightarrow> apsnd Some (read_ended outcome r)
             else read_up_to (wanted read_size r) (answers 0) r)
      in case finished of
           None \<Rightarrow> Some ((s, r), TakenWaiting)
         | Some (Inl BrokenPipe) \<Rightarrow> Some ((s, r), TakenEnded (reader_end r))
         | Some (Inl e) \<Rightarrow> Some ((s, r), TakenEnded (Inl e))
         | Some (Inr data) \<Rightarrow>
             if data = [] then Some ((s, r), TakenEnded (reader_end r))
             else
               let r = r\<lparr>rd_pending := rd_pending r @ data\<rparr>
               in case whole_frames frame s 0 (rd_pending r) of
                    (s, Inl e) \<Rightarrow> Some ((s, r), TakenEnded (Inl e))
                  | (s, Inr used) \<Rightarrow>
                      if used = 0 then event_take frame read_size (polls \<circ> Suc) (answers \<circ> Suc) (s, r)
                      else Some ((s, r\<lparr>rd_pending := drop used (rd_pending r)\<rparr>), Frames))"


section \<open>Reads cut the stream anywhere\<close>

text \<open>The reader has caught up with the bytes it got: what the closure made of their whole frames is
  its state, and the bytes after them are pending.\<close>

definition caught_up ::
  "('s \<Rightarrow> parts \<Rightarrow> 's \<times> io_error option) \<Rightarrow> 's \<Rightarrow> u8 list \<Rightarrow> 's \<Rightarrow> u8 list \<Rightarrow> bool" where
  "caught_up frame s0 got s pending \<longleftrightarrow>
     (\<exists>used. whole_frames frame s0 0 got = (s, Inr used) \<and> pending = drop used got)"

lemma caught_up_more:
  assumes "caught_up frame s0 got s pending"
  obtains used where
    "whole_frames frame s0 0 (got @ data) =
       apsnd (map_sum id ((+) used)) (whole_frames frame s 0 (pending @ data))"
    and "drop used (got @ data) = pending @ data"
proof -
  obtain used where u: "whole_frames frame s0 0 got = (s, Inr used)" "pending = drop used got"
    using assms by (auto simp: caught_up_def)
  have l: "used \<le> length got" using whole_frames_used [OF u(1)] by simp
  then have d: "drop used (got @ data) = pending @ data" using u by simp
  show thesis
    using that [OF _ d] whole_frames_append [of 0 got frame s0 data] u
      whole_frames_shift [of used "got @ data" frame s 0] l d by simp
qed

lemma caught_up_step:
  assumes "caught_up frame s0 got s pending" and "whole_frames frame s 0 (pending @ data) = (s', res)"
  shows "case res of
      Inl e \<Rightarrow> whole_frames frame s0 0 (got @ data) = (s', Inl e)
    | Inr used \<Rightarrow> caught_up frame s0 (got @ data) s' (drop used (pending @ data))"
proof -
  obtain before where w: "whole_frames frame s0 0 (got @ data) = apsnd (map_sum id ((+) before)) (s', res)"
    and d: "drop before (got @ data) = pending @ data"
    using caught_up_more [OF assms(1), of data] assms(2) by metis
  have "drop (before + used) (got @ data) = drop used (pending @ data)" for used
    by (simp add: d [symmetric] add.commute del: drop_append)
  then show ?thesis using w by (cases res) (auto simp: caught_up_def simp del: drop_append)
qed

lemma whole_frames_Nil [simp]: "whole_frames frame s 0 [] = (s, Inr 0)"
proof -
  have "frame_bounds [] = Inr None" by (simp add: frame_bounds_def HEADER_END_def MAX_HEADER_BYTES_def)
  then show ?thesis by (simp add: whole_frames.simps [of frame s 0 "[]"])
qed

lemma caught_up_new: "caught_up frame s [] s []"
  by (simp add: caught_up_def)

abbreviation reader_ok ::
  "('s \<Rightarrow> parts \<Rightarrow> 's \<times> io_error option) \<Rightarrow> 's \<Rightarrow> 's \<times> pipe_reader \<Rightarrow> bool" where
  "reader_ok frame s0 sr \<equiv> caught_up frame s0 (rd_got (snd sr)) (fst sr) (rd_pending (snd sr))"

text \<open>What is known of a reader when its reading ended, and before.\<close>

definition ended_ok ::
  "('s \<Rightarrow> parts \<Rightarrow> 's \<times> io_error option) \<Rightarrow> 's \<Rightarrow> unit io_result \<Rightarrow> 's \<times> pipe_reader \<Rightarrow> bool" where
  "ended_ok frame s0 outcome sr \<longleftrightarrow>
     (case outcome of
        Inr _ \<Rightarrow> reader_ok frame s0 sr \<and> rd_pending (snd sr) = []
      | Inl e \<Rightarrow> reader_ok frame s0 sr \<or> whole_frames frame s0 0 (rd_got (snd sr)) = (fst sr, Inl e))"

text \<open>A read that is finished and not yet looked at.\<close>

definition finished_ok ::
  "('s \<Rightarrow> parts \<Rightarrow> 's \<times> io_error option) \<Rightarrow> 's \<Rightarrow> u8 list io_result option \<Rightarrow> 's \<times> pipe_reader \<Rightarrow> bool" where
  "finished_ok frame s0 finished sr \<longleftrightarrow>
     (case finished of
        Some (Inr data) \<Rightarrow>
          \<exists>got. rd_got (snd sr) = got @ data \<and> caught_up frame s0 got (fst sr) (rd_pending (snd sr))
      | _ \<Rightarrow> reader_ok frame s0 sr)"

lemma finished_ok_empty: "finished_ok frame s0 (Some (Inr [])) sr \<longleftrightarrow> reader_ok frame s0 sr"
  by (simp add: finished_ok_def)

lemma ended_ok_end: "reader_ok frame s0 sr \<Longrightarrow> ended_ok frame s0 (reader_end (snd sr)) sr"
  by (cases "rd_pending (snd sr)") (simp_all add: ended_ok_def reader_end_def)

lemma read_ended_ok:
  assumes "reader_ok frame s0 (s, r)" and "read_ended outcome r = (r', finished)"
  shows "finished_ok frame s0 (Some finished) (s, r')"
  using assms by (auto simp: read_ended_def read_moved_def finished_ok_def Let_def split: sum.splits)

lemma read_up_to_ok:
  assumes "reader_ok frame s0 (s, r)" and "read_up_to asked answer r = (r', finished)"
  shows "finished_ok frame s0 finished (s, r')"
  using assms by (auto simp: read_up_to_def read_moved_def finished_ok_def Let_def split: read_answer.splits)

lemma hand_out_eq:
  "hand_out frame data (s, r) =
     (case whole_frames frame s 0 (rd_pending r @ data) of
        (s, Inl e) \<Rightarrow> ((s, if rd_pending r = [] then r else r\<lparr>rd_pending := rd_pending r @ data\<rparr>), Inl e)
      | (s, Inr used) \<Rightarrow> ((s, r\<lparr>rd_pending := drop used (rd_pending r @ data)\<rparr>), Inr ()))"
  by (simp add: hand_out_def Let_def split: prod.split sum.split)

lemma port_finished_ok:
  assumes "finished_ok frame s0 finished sr" and "port_finished frame finished sr = (sr', outcome)"
  shows "case outcome of None \<Rightarrow> reader_ok frame s0 sr' | Some outcome \<Rightarrow> ended_ok frame s0 outcome sr'"
proof -
  obtain s r where sr: "sr = (s, r)" by (cases sr)
  consider "finished = None" | e where "finished = Some (Inl e)" | "finished = Some (Inr [])"
    | data where "finished = Some (Inr data)" "data \<noteq> []"
    by (metis option.exhaust sum.exhaust)
  then show ?thesis
  proof cases
    case 1
    then show ?thesis using assms by (auto simp: port_finished_def finished_ok_def)
  next
    case 2
    then show ?thesis
      using assms ended_ok_end [of frame s0 sr]
      by (cases e) (auto simp: port_finished_def finished_ok_def ended_ok_def)
  next
    case 3
    then show ?thesis
      using assms ended_ok_end [of frame s0 sr] by (auto simp: port_finished_def finished_ok_empty)
  next
    case (4 data)
    obtain got where g: "rd_got r = got @ data" "caught_up frame s0 got s (rd_pending r)"
      using assms(1) 4 sr by (auto simp: finished_ok_def)
    obtain s' res where w: "whole_frames frame s 0 (rd_pending r @ data) = (s', res)" by fastforce
    show ?thesis
      using caught_up_step [OF g(2) w] assms(2) 4 sr g(1) w
      by (cases res) (auto simp: port_finished_def hand_out_eq ended_ok_def)
  qed
qed

definition reading_ok ::
  "('s \<Rightarrow> parts \<Rightarrow> 's \<times> io_error option) \<Rightarrow> 's \<Rightarrow> reading \<Rightarrow> 's \<times> pipe_reader \<Rightarrow> bool" where
  "reading_ok frame s0 reading sr \<longleftrightarrow>
     (case reading of Ended outcome \<Rightarrow> ended_ok frame s0 outcome sr | _ \<Rightarrow> reader_ok frame s0 sr)"

lemma port_loop_ok:
  assumes "finished_ok frame s0 finished sr" and "port_loop frame post left answers finished sr = (sr', reading)"
  shows "reading_ok frame s0 reading sr'"
  using assms
proof (induction frame post left answers finished sr rule: port_loop.induct)
  case (1 frame post left answers finished sr)
  obtain s r outcome where f: "port_finished frame finished sr = ((s, r), outcome)"
    by (metis surj_pair)
  note ok = port_finished_ok [OF 1(2) f]
  show ?case
  proof (cases outcome)
    case (Some o')
    then show ?thesis using 1(3) f ok by (subst (asm) port_loop.simps) (auto simp: reading_ok_def)
  next
    case None
    show ?thesis
    proof (cases left)
      case 0
      then show ?thesis
        using 1(3) f ok None
        by (subst (asm) port_loop.simps) (auto simp: reading_ok_def ended_ok_def split: option.splits)
    next
      case (Suc l)
      obtain r2 res where u: "read_up_to (wanted READ_SIZE r) (answers 0) r = (r2, res)" by fastforce
      have ok2: "finished_ok frame s0 res (s, r2)"
        using read_up_to_ok [OF _ u] ok None by simp
      show ?thesis
      proof (cases res)
        case None': None
        then show ?thesis
          using 1(3) f None Suc u ok2 by (subst (asm) port_loop.simps) (auto simp: reading_ok_def finished_ok_def)
      next
        case (Some o')
        then show ?thesis
          using 1(1) [OF f [symmetric] refl None Suc u [symmetric] Some] 1(3) f None Suc u ok2
          by (simp add: port_loop.simps [of frame post "Suc l" answers finished sr] comp_def)
      qed
    qed
  qed
qed

lemma port_take_ok:
  assumes "reader_ok frame s0 sr" and "port_take frame t sr = (sr', reading)"
  shows "reading_ok frame s0 reading sr'"
proof -
  have "finished_ok frame s0 None sr" using assms(1) by (simp add: finished_ok_def)
  moreover have "finished_ok frame s0 (Some (snd (read_ended outcome (snd sr)))) (fst sr, fst (read_ended outcome (snd sr)))"
    for outcome
    using read_ended_ok [of frame s0 "fst sr" "snd sr" outcome] assms(1) by simp
  ultimately show ?thesis
    using assms
    by (auto simp: port_take_def Let_def reading_ok_def [of frame s0 Waiting] split_beta
        split: completion.splits if_splits intro: port_loop_ok)
qed

lemma port_turns_ok:
  assumes "reader_ok frame s0 sr" and "port_turns frame ts sr = (sr', reading)"
  shows "reading_ok frame s0 reading sr'"
  using assms
proof (induction ts arbitrary: sr)
  case Nil
  then show ?case by (simp add: reading_ok_def)
next
  case (Cons t ts)
  obtain sr1 r1 where t: "port_take frame t sr = (sr1, r1)" by fastforce
  have "reading_ok frame s0 r1 sr1" using port_take_ok [OF Cons.prems(1) t] .
  then show ?case using Cons t by (cases r1) (auto simp: reading_ok_def)
qed

section \<open>The frames of a stream arrive\<close>

definition collect :: "parts list \<Rightarrow> parts \<Rightarrow> parts list \<times> io_error option" where
  "collect ps p = (ps @ [p], None)"

lemma hand_collect [simp]: "hand collect qs ps = (qs @ ps, None)"
  by (induction ps arbitrary: qs) (simp_all add: collect_def)

text \<open>The beginning of a frame is not taken for anything else.\<close>

lemma frame_part:
  assumes "fits p" and "frame_of p = pending @ rest" and "rest \<noteq> []"
  shows "whole_frames frame s 0 pending = (s, Inr 0)"
proof (rule whole_frames_partial)
  note b = frame_bounds_append [of pending rest] frame_bounds_of [OF assms(1), of "[]"]
  then show "\<not> isl (frame_bounds pending)" using assms(2) by (cases "frame_bounds pending") auto
  fix header l
  assume "frame_bounds pending = Inr (Some (header, l))"
  then have "header + whole l = length (frame_of p)" using b assms(2) frame_of_length [of p] by simp
  then show "length pending < header + whole l" using assms(2,3) by simp
qed

lemma whole_frames_prefix:
  assumes "list_all fits ps" and "stream_of ps = got @ rest"
  shows "\<exists>k pending. got = stream_of (take k ps) @ pending \<and>
    (if k < length ps then length pending < length (frame_of (ps ! k)) else pending = []) \<and>
    whole_frames collect qs 0 got = (qs @ take k ps, Inr (length (stream_of (take k ps))))"
  using assms
proof (induction ps arbitrary: qs got)
  case Nil
  then show ?case by simp
next
  case (Cons p ps)
  show ?case
  proof (cases "length got < length (frame_of p)")
    case True
    then obtain later where l: "frame_of p = got @ later" "later \<noteq> []"
      using Cons.prems(2) by (auto simp: append_eq_append_conv2)
    show ?thesis
      using frame_part [OF _ l] Cons.prems(1) True by (intro exI [of _ 0] exI [of _ got]) simp
  next
    case False
    then obtain got' where g: "got = frame_of p @ got'" "stream_of ps = got' @ rest"
      using Cons.prems(2) by (auto simp: append_eq_append_conv2)
    obtain k pending where k: "got' = stream_of (take k ps) @ pending"
      "if k < length ps then length pending < length (frame_of (ps ! k)) else pending = []"
      "whole_frames collect (qs @ [p]) 0 got' = (qs @ p # take k ps, Inr (length (stream_of (take k ps))))"
      using Cons.IH [OF _ g(2), of "qs @ [p]"] Cons.prems(1) by auto
    have "whole_frames collect qs 0 got = whole_frames collect (qs @ [p]) (length (frame_of p)) got"
      using whole_frames_stream [of "[p]" collect qs "[]" got'] Cons.prems(1) g(1) by (simp add: collect_def)
    also have "\<dots> = (qs @ p # take k ps, Inr (length (frame_of p) + length (stream_of (take k ps))))"
      using whole_frames_shift [of "length (frame_of p)" got collect "qs @ [p]" 0] k(3) g(1) by simp
    finally show ?thesis using k(1,2) g(1) by (intro exI [of _ "Suc k"] exI [of _ pending]) simp
  qed
qed

lemma collected_exact:
  assumes "list_all fits ps" and "stream_of ps = rd_got r @ rest"
    and "reading_ok collect [] reading (handed, r)"
  shows "\<exists>k. handed = take k ps \<and> rd_got r = stream_of handed @ rd_pending r \<and>
    (if k < length ps then length (rd_pending r) < length (frame_of (ps ! k)) else rd_pending r = []) \<and>
    (reading = Ended (Inr ()) \<longrightarrow> rd_pending r = [])"
proof -
  obtain k pending where k: "rd_got r = stream_of (take k ps) @ pending"
    "if k < length ps then length pending < length (frame_of (ps ! k)) else pending = []"
    "whole_frames collect [] 0 (rd_got r) = (take k ps, Inr (length (stream_of (take k ps))))"
    using whole_frames_prefix [OF assms(1,2), of "[]"] by auto
  have c: "reader_ok collect [] (handed, r)" "reading = Ended (Inr ()) \<longrightarrow> rd_pending r = []"
    using assms(3) k(3) by (auto simp: reading_ok_def ended_ok_def split: reading.splits sum.splits)
  then have "handed = take k ps" "rd_pending r = pending" using k by (auto simp: caught_up_def)
  then show ?thesis using k c(2) by (intro exI [of _ k]) simp
qed

text \<open>
  C9. However the kernel cuts a writer's frames into reads, and the reads into turns, the port reader
  hands out the first of the frames, each whole, in order and once; what it keeps is the beginning of
  the next one. A clean end comes only between frames.
\<close>

theorem frames_arrive:
  assumes "list_all fits ps" and "port_turns collect ts ([], reader_new) = ((handed, r), reading)"
    and "stream_of ps = rd_got r @ rest"
  shows "\<exists>k. handed = take k ps \<and> rd_got r = stream_of handed @ rd_pending r \<and>
    (if k < length ps then length (rd_pending r) < length (frame_of (ps ! k)) else rd_pending r = []) \<and>
    (reading = Ended (Inr ()) \<longrightarrow> rd_pending r = [])"
proof -
  have "reader_ok collect [] ([], reader_new)" by (simp add: reader_new_def caught_up_new)
  then have "reading_ok collect [] reading (handed, r)" using assms(2) by (rule port_turns_ok)
  then show ?thesis by (rule collected_exact [OF assms(1,3)])
qed

text \<open>A frame that comes in two reads, the second in flight at first, and then the end of the pipe.\<close>

definition sample_turns :: "turn list" where
  "sample_turns =
     [\<lparr>tn_completion = Posted,
       tn_answers = (\<lambda>n. if n = 0 then Done (take 10 (frame_of sample_parts)) else Pending), tn_post = None\<rparr>,
      \<lparr>tn_completion = Own (Inr (drop 10 (frame_of sample_parts))),
       tn_answers = (\<lambda>n. Failed BrokenPipe), tn_post = None\<rparr>]"

lemma sample_run:
  "port_turns collect sample_turns ([], reader_new) =
     (([sample_parts], \<lparr>rd_pending = [], rd_in_flight = False, rd_asked = READ_SIZE, rd_got = frame_of sample_parts\<rparr>),
      Ended (Inr ()))"
proof -
  let ?f = "frame_of sample_parts"
  obtain n where n: "READS_PER_TURN = Suc (Suc n)" by (simp add: READS_PER_TURN_def numeral_eq_Suc)
  define xs where "xs = take 10 ?f"
  define ys where "ys = drop 10 ?f"
  have t: "take READ_SIZE xs = xs" "take READ_SIZE ys = ys" "xs \<noteq> []" "ys \<noteq> []" and f: "?f = xs @ ys"
    using sample_length by (auto simp: READ_SIZE_def min_def xs_def ys_def)
  have a: "whole_frames collect [] 0 xs = ([], Inr 0)"
    by (rule frame_part [OF sample_fits f t(4)])
  have b: "whole_frames collect [] 0 ?f = ([sample_parts], Inr (length ?f))"
    using whole_frames_prefix [of "[sample_parts]" ?f "[]" "[]"] sample_fits
    by (auto split: if_splits simp: less_Suc_eq le_Suc_eq take_Cons')
  have l: "length (header_of sample_parts) + whole (lengths_of sample_parts) = 31"
    using frame_of_length [of sample_parts] sample_length by (simp only:)
  have w: "wanted READ_SIZE r = READ_SIZE" if "rd_pending r = [] \<or> rd_pending r = xs" for r
  proof (cases "frame_bounds (rd_pending r) = Inr None")
    case True
    then show ?thesis by (simp add: wanted_def)
  next
    case False
    then have "frame_bounds (rd_pending r) = Inr (Some (length (header_of sample_parts), lengths_of sample_parts))"
      using that frame_bounds_append [of "rd_pending r"] frame_bounds_of [OF sample_fits, of "[]"]
      by (metis append_Nil append_Nil2 f)
    then show ?thesis using l by (simp add: wanted_def READ_SIZE_def del: whole_lengths_of)
  qed
  show ?thesis
    unfolding sample_turns_def xs_def [symmetric] ys_def [symmetric]
    unfolding f
    using b unfolding f
    by (simp add: port_take_def n port_loop.simps port_finished_def hand_out_eq reader_new_def
        read_up_to_def read_ended_def read_moved_def w t a reader_end_def Let_def)
qed

theorem frames_arrive_witness:
  "list_all fits [sample_parts] \<and> stream_of [sample_parts] = frame_of sample_parts \<and>
   port_turns collect sample_turns ([], reader_new) =
     (([sample_parts], \<lparr>rd_pending = [], rd_in_flight = False, rd_asked = READ_SIZE, rd_got = frame_of sample_parts\<rparr>),
      Ended (Inr ())) \<and>
   (\<exists>k. [sample_parts] = take k [sample_parts] \<and> 0 < k)"
  using frames_arrive [OF _ sample_run, of "[sample_parts]" "[]"] sample_fits sample_run
  by (auto simp: take_Cons' split: if_splits)

section \<open>A call of the event reader ends\<close>

lemma parse_header_whole: "parse_header header = Inr l \<Longrightarrow> whole l \<le> MAX_FRAME_BYTES"
  by (auto simp: parse_header_def Let_def split: option.splits sum.splits if_splits prod.splits)

lemma frame_bounds_whole:
  "frame_bounds bytes = Inr (Some (header, l)) \<Longrightarrow> header + whole l \<le> MAX_HEADER_BYTES + MAX_FRAME_BYTES"
  using header_in_bound [of bytes header] parse_header_whole [of "take header bytes" l]
  by (auto simp: frame_bounds_header_in)

text \<open>Bytes with no whole frame and nothing wrong are shorter than the longest frame.\<close>

lemma nothing_whole_short:
  assumes "whole_frames frame s 0 bytes = (s', Inr 0)"
  shows "length bytes < MAX_HEADER_BYTES + MAX_FRAME_BYTES"
proof (cases "frame_bounds bytes")
  case (Inl e)
  then show ?thesis using assms by (simp add: whole_frames.simps [of frame s 0 bytes])
next
  case (Inr b)
  show ?thesis
  proof (cases b)
    case None
    then show ?thesis using Inr by (auto simp: frame_bounds_def Let_def map_sum_def MAX_FRAME_BYTES_def
          split: option.splits if_splits sum.splits)
  next
    case (Some hl)
    obtain header l where hl: "hl = (header, l)" by (cases hl)
    have "\<not> header + whole l \<le> length bytes"
    proof
      assume le: "header + whole l \<le> length bytes"
      obtain s1 r where fr: "frame s (parts_at bytes header l) = (s1, r)" by fastforce
      have "whole_frames frame s1 (header + whole l) bytes = (s', Inr 0)"
        using assms Inr Some hl le fr by (cases r) (simp_all add: whole_frames.simps [of frame s 0 bytes])
      then have "header + whole l \<le> 0" using whole_frames_used [OF _ le, of frame s1 s' 0] by simp
      then show False using frame_bounds_header [of bytes header l] Inr Some hl by simp
    qed
    then show ?thesis using frame_bounds_whole [of bytes header l] Inr Some hl by simp
  qed
qed

definition taken_ok ::
  "('s \<Rightarrow> parts \<Rightarrow> 's \<times> io_error option) \<Rightarrow> 's \<Rightarrow> event_taken \<Rightarrow> 's \<times> pipe_reader \<Rightarrow> bool" where
  "taken_ok frame s0 t sr \<longleftrightarrow>
     (case t of TakenEnded outcome \<Rightarrow> ended_ok frame s0 outcome sr | _ \<Rightarrow> reader_ok frame s0 sr)"

text \<open>One pass of the loop: the read that is finished, if any.\<close>

definition event_read ::
  "nat \<Rightarrow> u8 list io_result option \<Rightarrow> read_answer \<Rightarrow> pipe_reader \<Rightarrow> pipe_reader \<times> u8 list io_result option" where
  "event_read read_size poll answer r =
     (if rd_in_flight r
      then case poll of None \<Rightarrow> (r, None) | Some outcome \<Rightarrow> apsnd Some (read_ended outcome r)
      else read_up_to (wanted read_size r) answer r)"

lemma event_read_ok:
  assumes "reader_ok frame s0 (s, r)" and "event_read read_size poll answer r = (r', finished)"
  shows "finished_ok frame s0 finished (s, r')"
  using assms read_ended_ok [OF assms(1)] read_up_to_ok [OF assms(1)]
  by (cases poll; cases "read_ended (the poll) r")
    (auto simp: event_read_def finished_ok_def [of frame s0 None] split: if_splits)

lemma event_read_pending:
  "event_read read_size poll answer r = (r', finished) \<Longrightarrow> rd_pending r' = rd_pending r"
  by (auto simp: event_read_def read_up_to_def read_ended_def read_moved_def Let_def
      split: if_splits option.splits read_answer.splits sum.splits)

lemma event_take_cases:
  assumes "event_read read_size (polls 0) (answers 0) r = (r', finished)"
  shows "event_take frame read_size polls answers (s, r) =
    (case finished of
       None \<Rightarrow> Some ((s, r'), TakenWaiting)
     | Some (Inl e) \<Rightarrow> Some ((s, r'), TakenEnded (if e = BrokenPipe then reader_end r' else Inl e))
     | Some (Inr data) \<Rightarrow>
         if data = [] then Some ((s, r'), TakenEnded (reader_end r'))
         else case whole_frames frame s 0 (rd_pending r @ data) of
                (s', Inl e) \<Rightarrow> Some ((s', r'\<lparr>rd_pending := rd_pending r @ data\<rparr>), TakenEnded (Inl e))
              | (s', Inr used) \<Rightarrow>
                  if used = 0 then event_take frame read_size (polls \<circ> Suc) (answers \<circ> Suc)
                                     (s', r'\<lparr>rd_pending := rd_pending r @ data\<rparr>)
                  else Some ((s', r'\<lparr>rd_pending := drop used (rd_pending r @ data)\<rparr>), Frames))"
  using assms event_read_pending [OF assms]
  by (subst event_take.simps)
    (auto simp: event_read_def Let_def split: option.split sum.split io_error.split prod.split)

lemma event_take_total:
  "\<exists>s' r' t. event_take frame read_size polls answers (s, r) = Some ((s', r'), t) \<and>
     (reader_ok frame s0 (s, r) \<longrightarrow> taken_ok frame s0 t (s', r'))"
proof (induction "MAX_HEADER_BYTES + MAX_FRAME_BYTES - length (rd_pending r)" arbitrary: s r polls answers
    rule: less_induct)
  case less
  obtain r1 finished where e: "event_read read_size (polls 0) (answers 0) r = (r1, finished)" by fastforce
  note c = event_take_cases [where polls = polls and answers = answers and frame = frame and s = s, OF e]
  note ok = event_read_ok [OF _ e, of frame s0 s] and pending = event_read_pending [OF e]
  consider "finished = None" | f where "finished = Some (Inl f)" | "finished = Some (Inr [])"
    | data where "finished = Some (Inr data)" "data \<noteq> []"
    by (metis option.exhaust sum.exhaust)
  then show ?case
  proof cases
    case 1
    then show ?thesis using c ok by (auto simp: taken_ok_def finished_ok_def)
  next
    case 2
    then show ?thesis using c ok ended_ok_end [of frame s0 "(s, r1)"]
      by (auto simp: taken_ok_def finished_ok_def ended_ok_def)
  next
    case 3
    then show ?thesis using c ok ended_ok_end [of frame s0 "(s, r1)"]
      by (auto simp: taken_ok_def finished_ok_empty)
  next
    case (4 data)
    let ?r = "r1\<lparr>rd_pending := rd_pending r @ data\<rparr>"
    obtain s2 res where w: "whole_frames frame s 0 (rd_pending r @ data) = (s2, res)" by fastforce
    have k: "reader_ok frame s0 (s, r) \<Longrightarrow>
        case res of
          Inl e \<Rightarrow> whole_frames frame s0 0 (rd_got r1) = (s2, Inl e)
        | Inr used \<Rightarrow> caught_up frame s0 (rd_got r1) s2 (drop used (rd_pending r @ data))"
    proof -
      assume "reader_ok frame s0 (s, r)"
      then obtain got where g: "rd_got r1 = got @ data" "caught_up frame s0 got s (rd_pending r)"
        using ok 4 pending by (auto simp: finished_ok_def)
      show ?thesis using caught_up_step [OF g(2) w] g(1) by (simp only:)
    qed
    show ?thesis
    proof (cases "res = Inr 0")
      case True
      have "length (rd_pending r @ data) < MAX_HEADER_BYTES + MAX_FRAME_BYTES"
        using nothing_whole_short [of frame s "rd_pending r @ data" s2] w True by simp
      moreover have "0 < length data" using 4(2) by simp
      ultimately have "MAX_HEADER_BYTES + MAX_FRAME_BYTES - length (rd_pending ?r) <
          MAX_HEADER_BYTES + MAX_FRAME_BYTES - length (rd_pending r)"
        by (simp del: length_greater_0_conv)
      then obtain s' r' t where "event_take frame read_size (polls \<circ> Suc) (answers \<circ> Suc) (s2, ?r) = Some ((s', r'), t)"
        "reader_ok frame s0 (s2, ?r) \<longrightarrow> taken_ok frame s0 t (s', r')"
        using less [of ?r "polls \<circ> Suc" "answers \<circ> Suc" s2] by blast
      then show ?thesis using c 4 w True k by auto
    next
      case False
      then show ?thesis using c 4 w k
        by (cases res) (auto simp: taken_ok_def ended_ok_def)
    qed
  qed
qed

text \<open>
  A call of the event reader's \<open>take\<close> ends, whatever the kernel answers and however little each
  read brings: a frame that is not whole is shorter than the longest frame, and every read but the last
  brings something.
\<close>

theorem event_take_returns: "\<exists>result. event_take frame read_size polls answers sr = Some result"
  using event_take_total [of frame read_size polls answers "fst sr" "snd sr" "fst sr"] by auto

end
