(* ===== verification/Pipe_Sender.thy ===== *)
theory Pipe_Sender
  imports Frames "HOL-Library.Monad_Syntax"
begin

text \<open>
  The writing end of a pipe, \<open>Sender\<close> of \<^verbatim>\<open>verbatim-process/src/transport.rs\<close>, over any \<open>Backlog\<close>: an
  item joins the backlog and is written at once when no write is in flight; what is sent meanwhile
  waits, and is written when the write completes. A call runs under the sender's lock, so calls are
  steps one after another, whichever threads make them.

  The backlog is an interface, a record of its four operations, with the laws a sender needs in the
  locale \<open>backlog\<close>; the backlogs of the supervisor, the listener and the outpost are its
  interpretations. The pipe is outside the program: what a write answers is a function of the writes
  so far and the bytes. A call that would break one of the slot's assertions, or never end, has no
  result; the theorems show that every call has one.
\<close>

record ('b, 'i, 'r) backlog_ops =
  bl_push :: "'b \<Rightarrow> 'i \<Rightarrow> 'b \<times> 'r option"
  bl_pop :: "'b \<Rightarrow> 'b \<times> 'i option"
  bl_is_empty :: "'b \<Rightarrow> bool"
  bl_encode :: "'b \<Rightarrow> 'i \<Rightarrow> 'b \<times> u8 list io_result"

datatype write_started =
    WPending
  | WDone nat
  | WFailed io_error

datatype 'r send_error =
    Refused 'r
  | Closed

text \<open>The state under the lock. \<open>sn_written\<close> is what the writes started have given the pipe, and
  \<open>sn_woken\<close> how often the sender's own thread was woken.\<close>

record 'b sender =
  sn_backlog :: 'b
  sn_in_flight :: bool
  sn_pipe :: bool
  sn_closed :: bool
  sn_failed :: bool
  sn_own_thread :: bool
  sn_written :: "u8 list list"
  sn_woken :: nat

type_synonym pipe_answers = "u8 list list \<Rightarrow> u8 list \<Rightarrow> write_started"

definition sender_make :: "'b \<Rightarrow> bool \<Rightarrow> 'b sender" where
  "sender_make b own_thread =
     \<lparr>sn_backlog = b, sn_in_flight = False, sn_pipe = True, sn_closed = False, sn_failed = False,
      sn_own_thread = own_thread, sn_written = [], sn_woken = 0\<rparr>"

section \<open>The state's operations\<close>

text \<open>\<open>PipeIo::write_with\<close>, which asserts that nothing is in flight.\<close>

definition write_with ::
  "pipe_answers \<Rightarrow> u8 list io_result \<Rightarrow> 'b sender \<Rightarrow> ('b sender \<times> write_started io_result) option" where
  "write_with pipe put s =
     (if sn_in_flight s then None
      else case put of
             Inl e \<Rightarrow> Some (s, Inl e)
           | Inr bytes \<Rightarrow>
               if bytes = [] then Some (s, Inr (WDone 0))
               else let answer = pipe (sn_written s) bytes
                    in Some (s\<lparr>sn_written := sn_written s @ [bytes], sn_in_flight := (answer = WPending)\<rparr>,
                             Inr answer))"

partial_function (option) clear_backlog :: "('b, 'i, 'r) backlog_ops \<Rightarrow> 'b \<Rightarrow> 'b option" where
  "clear_backlog ops b =
     (case bl_pop ops b of (b, None) \<Rightarrow> Some b | (b, Some _) \<Rightarrow> clear_backlog ops b)"

definition sender_fail :: "('b, 'i, 'r) backlog_ops \<Rightarrow> 'b sender \<Rightarrow> 'b sender option" where
  "sender_fail ops s =
     map_option (\<lambda>b. s\<lparr>sn_backlog := b, sn_closed := True, sn_failed := True\<rparr>)
       (clear_backlog ops (sn_backlog s))"

definition sender_started ::
  "('b, 'i, 'r) backlog_ops \<Rightarrow> write_started io_result \<Rightarrow> nat \<Rightarrow> 'b sender \<Rightarrow> ('b sender \<times> bool) option" where
  "sender_started ops started len s =
     (case started of
        Inr (WDone moved) \<Rightarrow>
          if moved = len then Some (s, True)
          else map_option (\<lambda>s. (s, False)) (sender_fail ops s)
      | Inr WPending \<Rightarrow> Some (s, True)
      | Inr (WFailed e) \<Rightarrow> map_option (\<lambda>s. (s, False)) (sender_fail ops s)
      | Inl e \<Rightarrow> Some (s, True))"

definition put_length :: "u8 list io_result \<Rightarrow> nat" where
  "put_length put = (case put of Inl e \<Rightarrow> 0 | Inr bytes \<Rightarrow> length bytes)"

definition sender_write ::
  "('b, 'i, 'r) backlog_ops \<Rightarrow> pipe_answers \<Rightarrow> 'i \<Rightarrow> 'b sender \<Rightarrow> ('b sender \<times> bool) option" where
  "sender_write ops pipe item s =
     (if \<not> sn_pipe s then Some (s, False)
      else
        let (b, put) = bl_encode ops (sn_backlog s) item
        in do {
          (s, started) \<leftarrow> write_with pipe put (s\<lparr>sn_backlog := b\<rparr>);
          sender_started ops started (put_length put) s
        })"

text \<open>The loop of \<open>write_all\<close>, an item that cannot be encoded skipped.\<close>

partial_function (option) put_all ::
  "('b, 'i, 'r) backlog_ops \<Rightarrow> 'b \<Rightarrow> u8 list \<Rightarrow> ('b \<times> u8 list) option" where
  "put_all ops b buffer =
     (case bl_pop ops b of
        (b, None) \<Rightarrow> Some (b, buffer)
      | (b, Some item) \<Rightarrow>
          (case bl_encode ops b item of
             (b, Inl e) \<Rightarrow> put_all ops b buffer
           | (b, Inr bytes) \<Rightarrow> put_all ops b (buffer @ bytes)))"

definition sender_write_all ::
  "('b, 'i, 'r) backlog_ops \<Rightarrow> pipe_answers \<Rightarrow> 'b sender \<Rightarrow> ('b sender \<times> bool) option" where
  "sender_write_all ops pipe s =
     (if \<not> sn_pipe s then Some (s, False)
      else do {
        (b, buffer) \<leftarrow> put_all ops (sn_backlog s) [];
        (s, started) \<leftarrow> write_with pipe (Inr buffer) (s\<lparr>sn_backlog := b\<rparr>);
        sender_started ops started (length buffer) s
      })"

partial_function (option) sender_drain ::
  "('b, 'i, 'r) backlog_ops \<Rightarrow> pipe_answers \<Rightarrow> 'b sender \<Rightarrow> 'b sender option" where
  "sender_drain ops pipe s =
     (if sn_in_flight s then Some s
      else case bl_pop ops (sn_backlog s) of
             (b, None) \<Rightarrow> Some (s\<lparr>sn_backlog := b\<rparr>)
           | (b, Some item) \<Rightarrow>
               do {
                 (s, on) \<leftarrow> sender_write ops pipe item (s\<lparr>sn_backlog := b\<rparr>);
                 (if on then sender_drain ops pipe s else Some s)
               })"

definition finished :: "('b, 'i, 'r) backlog_ops \<Rightarrow> 'b sender \<Rightarrow> bool" where
  "finished ops s \<longleftrightarrow> sn_closed s \<and> \<not> sn_in_flight s \<and> bl_is_empty ops (sn_backlog s)"

section \<open>The sender's calls\<close>

definition settle :: "('b, 'i, 'r) backlog_ops \<Rightarrow> 'b sender \<Rightarrow> 'b sender" where
  "settle ops s =
     (if finished ops s \<and> sn_pipe s
      then s\<lparr>sn_pipe := False, sn_woken := sn_woken s + of_bool (sn_own_thread s)\<rparr>
      else s)"

definition send_settled :: "('b, 'i, 'r) backlog_ops \<Rightarrow> 'b sender \<Rightarrow> 'b sender \<times> 'r send_error option" where
  "send_settled ops s = (settle ops s, if sn_failed s then Some Closed else None)"

definition send ::
  "('b, 'i, 'r) backlog_ops \<Rightarrow> pipe_answers \<Rightarrow> 'i \<Rightarrow> 'b sender \<Rightarrow> ('b sender \<times> 'r send_error option) option" where
  "send ops pipe item s =
     (if sn_closed s then Some (s, Some Closed)
      else case bl_push ops (sn_backlog s) item of
             (b, Some refusal) \<Rightarrow> Some (s\<lparr>sn_backlog := b\<rparr>, Some (Refused refusal))
           | (b, None) \<Rightarrow> map_option (send_settled ops) (sender_drain ops pipe (s\<lparr>sn_backlog := b\<rparr>)))"

fun push_all :: "('b, 'i, 'r) backlog_ops \<Rightarrow> 'i list \<Rightarrow> 'b \<Rightarrow> 'b \<times> 'r option" where
  "push_all ops [] b = (b, None)"
| "push_all ops (item # items) b =
     (case bl_push ops b item of
        (b, Some refusal) \<Rightarrow> (b, Some refusal)
      | (b, None) \<Rightarrow> push_all ops items b)"

definition send_all ::
  "('b, 'i, 'r) backlog_ops \<Rightarrow> pipe_answers \<Rightarrow> 'i list \<Rightarrow> 'b sender \<Rightarrow> ('b sender \<times> 'r send_error option) option" where
  "send_all ops pipe items s =
     (if sn_closed s then Some (s, Some Closed)
      else
        let (b, refused) = push_all ops items (sn_backlog s);
            s = s\<lparr>sn_backlog := b\<rparr>
        in do {
          s \<leftarrow> (if sn_in_flight s then Some s else map_option fst (sender_write_all ops pipe s));
          let (s, result) = send_settled ops s;
          Some (s, case refused of Some refusal \<Rightarrow> Some (Refused refusal) | None \<Rightarrow> result)
        })"

definition with_backlog :: "('b \<Rightarrow> 'b) \<Rightarrow> 'b sender \<Rightarrow> 'b sender" where
  "with_backlog change s = s\<lparr>sn_backlog := change (sn_backlog s)\<rparr>"

definition close :: "('b, 'i, 'r) backlog_ops \<Rightarrow> 'b sender \<Rightarrow> 'b sender" where
  "close ops s = settle ops (s\<lparr>sn_closed := True\<rparr>)"

text \<open>A completion of the sender's port: a wake-up posted, the end of its own write, or another's.\<close>

datatype write_completion =
    WPosted
  | WOwn "nat io_result"
  | WForeign

definition write_ended ::
  "('b, 'i, 'r) backlog_ops \<Rightarrow> write_completion \<Rightarrow> 'b sender \<Rightarrow> 'b sender option" where
  "write_ended ops c s =
     (case c of
        WOwn outcome \<Rightarrow>
          if \<not> sn_pipe s then Some s
          else if \<not> sn_in_flight s then None
          else let s = s\<lparr>sn_in_flight := False\<rparr>
               in (case outcome of Inl e \<Rightarrow> sender_fail ops s | Inr _ \<Rightarrow> Some s)
      | _ \<Rightarrow> Some s)"

definition complete ::
  "('b, 'i, 'r) backlog_ops \<Rightarrow> pipe_answers \<Rightarrow> write_completion \<Rightarrow> 'b sender \<Rightarrow> 'b sender option" where
  "complete ops pipe c s =
     do {
       s \<leftarrow> write_ended ops c s;
       map_option (settle ops) (sender_drain ops pipe s)
     }"

definition is_finished :: "'b sender \<Rightarrow> bool" where
  "is_finished s \<longleftrightarrow> \<not> sn_pipe s"

text \<open>The calls, in the order in which they take the lock.\<close>

datatype ('b, 'i) sender_call =
    Send 'i
  | SendAll "'i list"
  | WithBacklog "'b \<Rightarrow> 'b"
  | Close
  | Complete write_completion

fun sender_step ::
  "('b, 'i, 'r) backlog_ops \<Rightarrow> pipe_answers \<Rightarrow> ('b, 'i) sender_call \<Rightarrow> 'b sender \<Rightarrow> 'b sender option" where
  "sender_step ops pipe (Send item) s = map_option fst (send ops pipe item s)"
| "sender_step ops pipe (SendAll items) s = map_option fst (send_all ops pipe items s)"
| "sender_step ops pipe (WithBacklog change) s = Some (with_backlog change s)"
| "sender_step ops pipe Close s = Some (close ops s)"
| "sender_step ops pipe (Complete c) s = complete ops pipe c s"

fun sender_run ::
  "('b, 'i, 'r) backlog_ops \<Rightarrow> pipe_answers \<Rightarrow> ('b, 'i) sender_call list \<Rightarrow> 'b sender \<Rightarrow> 'b sender option" where
  "sender_run ops pipe [] s = Some s"
| "sender_run ops pipe (call # calls) s = do { s \<leftarrow> sender_step ops pipe call s; sender_run ops pipe calls s }"


text \<open>What the callers keep: a completion of the sender's own write comes while one is in flight,
  and what is done to the backlog under the lock adds and takes nothing.\<close>

definition call_ok :: "('b \<Rightarrow> nat) \<Rightarrow> ('b, 'i) sender_call \<Rightarrow> 'b sender \<Rightarrow> bool" where
  "call_ok waits call s \<longleftrightarrow>
     (case call of
        WithBacklog change \<Rightarrow> waits (change (sn_backlog s)) = waits (sn_backlog s)
      | Complete (WOwn outcome) \<Rightarrow> sn_in_flight s
      | _ \<Rightarrow> True)"

text \<open>The calls of a run, each kept in the state in which it is made.\<close>

fun calls_ok ::
  "('b, 'i, 'r) backlog_ops \<Rightarrow> ('b \<Rightarrow> nat) \<Rightarrow> pipe_answers \<Rightarrow> ('b, 'i) sender_call list \<Rightarrow> 'b sender \<Rightarrow> bool" where
  "calls_ok ops waits pipe [] s \<longleftrightarrow> True"
| "calls_ok ops waits pipe (call # calls) s \<longleftrightarrow>
     call_ok waits call s \<and> (case sender_step ops pipe call s of None \<Rightarrow> True | Some s \<Rightarrow> calls_ok ops waits pipe calls s)"

section \<open>What every backlog promises\<close>

text \<open>
  The laws of \<open>Backlog\<close>, over how many items wait: \<open>pop\<close> takes one of them when there is one and
  changes nothing when there is none, \<open>is_empty\<close> says so, encoding an item adds none, and neither
  does refusing one.
\<close>

locale backlog =
  fixes ops :: "('b, 'i, 'r) backlog_ops"
    and waits :: "'b \<Rightarrow> nat"
  assumes pop_none: "waits b = 0 \<Longrightarrow> bl_pop ops b = (b, None)"
    and pop_some: "waits b \<noteq> 0 \<Longrightarrow> \<exists>b' i. bl_pop ops b = (b', Some i) \<and> waits b = Suc (waits b')"
    and empty_iff: "bl_is_empty ops b \<longleftrightarrow> waits b = 0"
    and encode_waits: "bl_encode ops b i = (b', put) \<Longrightarrow> waits b' = waits b"
    and refused_waits: "bl_push ops b i = (b', Some refusal) \<Longrightarrow> waits b' \<le> waits b"
begin

lemma clear_backlog_some: "\<exists>b'. clear_backlog ops b = Some b' \<and> waits b' = 0"
proof (induction "waits b" arbitrary: b)
  case 0
  then show ?case using pop_none [of b] by (subst clear_backlog.simps) simp
next
  case (Suc n)
  obtain b' i where p: "bl_pop ops b = (b', Some i)" "waits b = Suc (waits b')"
    using pop_some [of b] Suc(2) by auto
  then show ?case using Suc(1) [of b'] Suc(2) by (subst clear_backlog.simps) simp
qed

lemma put_all_some: "\<exists>b' bytes. put_all ops b buffer = Some (b', bytes) \<and> waits b' = 0"
proof (induction "waits b" arbitrary: b buffer)
  case 0
  then show ?case using pop_none [of b] by (subst put_all.simps) simp
next
  case (Suc n)
  obtain b' i where p: "bl_pop ops b = (b', Some i)" "waits b = Suc (waits b')"
    using pop_some [of b] Suc(2) by auto
  obtain b2 put where e: "bl_encode ops b' i = (b2, put)" by fastforce
  then have "waits b2 = n" using encode_waits p Suc(2) by simp
  then show ?case using Suc(1) [of b2] p e by (subst put_all.simps) (cases put; simp)
qed

text \<open>The state before the backlog is drained, after it, and between calls.\<close>

definition may_drain :: "'b sender \<Rightarrow> bool" where
  "may_drain s \<longleftrightarrow>
     (sn_in_flight s \<longrightarrow> sn_pipe s) \<and>
     (sn_failed s \<longrightarrow> sn_closed s \<and> \<not> sn_in_flight s \<and> waits (sn_backlog s) = 0) \<and>
     (\<not> sn_pipe s \<longrightarrow> sn_closed s \<and> waits (sn_backlog s) = 0)"

definition drained :: "'b sender \<Rightarrow> bool" where
  "drained s \<longleftrightarrow> may_drain s \<and> (\<not> sn_in_flight s \<longrightarrow> waits (sn_backlog s) = 0)"

definition sender_inv :: "'b sender \<Rightarrow> bool" where
  "sender_inv s \<longleftrightarrow> drained s \<and> (sn_closed s \<and> \<not> sn_in_flight s \<longrightarrow> \<not> sn_pipe s)"

lemma fail_some:
  assumes "\<not> sn_in_flight s"
  shows "\<exists>s'. sender_fail ops s = Some s' \<and> drained s' \<and> sn_failed s'"
  using clear_backlog_some [of "sn_backlog s"] assms
  by (auto simp: sender_fail_def drained_def may_drain_def)

lemma write_bytes_some:
  assumes "may_drain s" and "sn_pipe s" and "\<not> sn_in_flight s" and "\<not> sn_failed s"
  shows "\<exists>s' on. (do { (s, started) \<leftarrow> write_with pipe put s; sender_started ops started (put_length put) s })
      = Some (s', on) \<and> may_drain s' \<and> waits (sn_backlog s') \<le> waits (sn_backlog s) \<and>
    (if on then \<not> sn_failed s' \<and> sn_pipe s' else drained s')"
proof (cases put)
  case (Inl e)
  then show ?thesis using assms by (auto simp: write_with_def sender_started_def)
next
  case (Inr bytes)
  show ?thesis
  proof (cases "bytes = []")
    case True
    then show ?thesis using assms Inr by (auto simp: write_with_def sender_started_def put_length_def)
  next
    case False
    let ?s = "s\<lparr>sn_written := sn_written s @ [bytes], sn_in_flight := (pipe (sn_written s) bytes = WPending)\<rparr>"
    have w: "write_with pipe put s = Some (?s, Inr (pipe (sn_written s) bytes))"
      using assms Inr False by (simp add: write_with_def Let_def)
    have f: "\<exists>s'. sender_fail ops ?s = Some s' \<and> drained s' \<and> sn_failed s'" if "pipe (sn_written s) bytes \<noteq> WPending"
      using that by (intro fail_some) simp
    have l: "put_length put = length bytes" using Inr by (simp add: put_length_def)
    have on: "may_drain ?s \<and> \<not> sn_failed ?s \<and> sn_pipe ?s" using assms by (simp add: may_drain_def)
    show ?thesis
    proof (cases "pipe (sn_written s) bytes = WPending \<or> pipe (sn_written s) bytes = WDone (length bytes)")
      case True
      then have "sender_started ops (Inr (pipe (sn_written s) bytes)) (put_length put) ?s = Some (?s, True)"
        by (auto simp: sender_started_def l)
      then show ?thesis using w on by (intro exI [of _ ?s] exI [of _ True]) simp
    next
      case False
      then obtain s1 where s1: "sender_fail ops ?s = Some s1" "drained s1" "sn_failed s1" using f by auto
      then have "sender_started ops (Inr (pipe (sn_written s) bytes)) (put_length put) ?s = Some (s1, False)"
        using False by (cases "pipe (sn_written s) bytes") (auto simp: sender_started_def l)
      moreover have "may_drain s1 \<and> waits (sn_backlog s1) = 0"
        using s1 by (auto simp: drained_def may_drain_def)
      ultimately show ?thesis using w s1 by (intro exI [of _ s1] exI [of _ False]) simp
    qed
  qed
qed

lemma write_some:
  assumes "may_drain s" and "sn_pipe s" and "\<not> sn_in_flight s" and "\<not> sn_failed s"
  shows "\<exists>s' on. sender_write ops pipe item s = Some (s', on) \<and> may_drain s' \<and>
    waits (sn_backlog s') \<le> waits (sn_backlog s) \<and> (if on then \<not> sn_failed s' \<and> sn_pipe s' else drained s')"
proof -
  obtain b put where e: "bl_encode ops (sn_backlog s) item = (b, put)" by fastforce
  have "may_drain (s\<lparr>sn_backlog := b\<rparr>)" "waits b = waits (sn_backlog s)"
    using assms encode_waits [OF e] by (simp_all add: may_drain_def)
  then show ?thesis
    using write_bytes_some [of "s\<lparr>sn_backlog := b\<rparr>" pipe put] assms e by (simp add: sender_write_def)
qed

lemma drain_some: "may_drain s \<Longrightarrow> \<exists>s'. sender_drain ops pipe s = Some s' \<and> drained s'"
proof (induction "waits (sn_backlog s)" arbitrary: s rule: less_induct)
  case less
  show ?case
  proof (cases "sn_in_flight s \<or> waits (sn_backlog s) = 0")
    case True
    then show ?thesis
      using less(2) pop_none [of "sn_backlog s"] by (subst sender_drain.simps) (auto simp: drained_def)
  next
    case False
    then obtain b item where p: "bl_pop ops (sn_backlog s) = (b, Some item)" "waits (sn_backlog s) = Suc (waits b)"
      using pop_some by blast
    have m: "may_drain (s\<lparr>sn_backlog := b\<rparr>)" "sn_pipe s" "\<not> sn_failed s"
      using less(2) False by (auto simp: may_drain_def)
    then obtain s1 on where w: "sender_write ops pipe item (s\<lparr>sn_backlog := b\<rparr>) = Some (s1, on)"
      "may_drain s1" "waits (sn_backlog s1) \<le> waits b" "if on then \<not> sn_failed s1 \<and> sn_pipe s1 else drained s1"
      using write_some [of "s\<lparr>sn_backlog := b\<rparr>" pipe item] False by auto
    show ?thesis
      using less(1) [of s1] w p False by (subst sender_drain.simps) (auto split: if_splits)
  qed
qed

lemma write_all_some:
  assumes "may_drain s" and "\<not> sn_in_flight s"
  shows "\<exists>s'. map_option fst (sender_write_all ops pipe s) = Some s' \<and> drained s'"
proof (cases "sn_pipe s \<and> \<not> sn_failed s")
  case True
  obtain b buffer where p: "put_all ops (sn_backlog s) [] = Some (b, buffer)" "waits b = 0"
    using put_all_some by blast
  have "may_drain (s\<lparr>sn_backlog := b\<rparr>)" using assms(1) p(2) by (auto simp: may_drain_def)
  then obtain s1 on where
    w: "(do { (s, started) \<leftarrow> write_with pipe (Inr buffer) (s\<lparr>sn_backlog := b\<rparr>);
              sender_started ops started (put_length (Inr buffer)) s }) = Some (s1, on)"
      "may_drain s1" "waits (sn_backlog s1) = 0"
    using write_bytes_some [of "s\<lparr>sn_backlog := b\<rparr>" pipe "Inr buffer"] True assms(2) p(2) by auto
  then show ?thesis
    using True p by (auto simp: sender_write_all_def put_length_def drained_def)
next
  case False
  have "put_all ops (sn_backlog s) [] = Some (sn_backlog s, [])" if "waits (sn_backlog s) = 0"
    using pop_none [OF that] by (subst put_all.simps) simp
  then show ?thesis
    using False assms
    by (auto simp: sender_write_all_def write_with_def sender_started_def may_drain_def drained_def)
qed

lemma settle_inv: "drained s \<Longrightarrow> sender_inv (settle ops s)"
  by (auto simp: settle_def sender_inv_def drained_def may_drain_def finished_def empty_iff)

lemma send_settled_inv: "drained s \<Longrightarrow> sender_inv (fst (send_settled ops s))"
  by (simp add: send_settled_def settle_inv)

lemma send_inv:
  assumes "sender_inv s"
  shows "\<exists>s' result. send ops pipe item s = Some (s', result) \<and> sender_inv s'"
proof (cases "sn_closed s")
  case True
  then show ?thesis using assms by (simp add: send_def)
next
  case False
  then have open_: "sn_pipe s" "\<not> sn_failed s" using assms by (auto simp: sender_inv_def drained_def may_drain_def)
  obtain b refusal where p: "bl_push ops (sn_backlog s) item = (b, refusal)" by fastforce
  show ?thesis
  proof (cases refusal)
    case None
    have "may_drain (s\<lparr>sn_backlog := b\<rparr>)" using open_ by (simp add: may_drain_def)
    then obtain s1 where "sender_drain ops pipe (s\<lparr>sn_backlog := b\<rparr>) = Some s1" "drained s1"
      using drain_some by blast
    then show ?thesis
      using False p None send_settled_inv [of s1] by (cases "send_settled ops s1") (simp add: send_def)
  next
    case (Some r)
    then have "waits b \<le> waits (sn_backlog s)" using refused_waits p by simp
    then show ?thesis
      using False p Some assms by (auto simp: send_def sender_inv_def drained_def may_drain_def)
  qed
qed

lemma send_all_inv:
  assumes "sender_inv s"
  shows "\<exists>s' result. send_all ops pipe items s = Some (s', result) \<and> sender_inv s'"
proof (cases "sn_closed s")
  case True
  then show ?thesis using assms by (simp add: send_all_def)
next
  case False
  then have open_: "sn_pipe s" "\<not> sn_failed s" using assms by (auto simp: sender_inv_def drained_def may_drain_def)
  obtain b refused where p: "push_all ops items (sn_backlog s) = (b, refused)" by fastforce
  have m: "may_drain (s\<lparr>sn_backlog := b\<rparr>)" using open_ by (simp add: may_drain_def)
  have "\<exists>s1. (if sn_in_flight s then Some (s\<lparr>sn_backlog := b\<rparr>)
      else map_option fst (sender_write_all ops pipe (s\<lparr>sn_backlog := b\<rparr>))) = Some s1 \<and> drained s1"
    using write_all_some [OF m] m by (cases "sn_in_flight s") (simp_all add: drained_def)
  then obtain s1 where "(if sn_in_flight s then Some (s\<lparr>sn_backlog := b\<rparr>)
      else map_option fst (sender_write_all ops pipe (s\<lparr>sn_backlog := b\<rparr>))) = Some s1" "drained s1" by blast
  then show ?thesis
    using False p send_settled_inv [of s1] by (cases "send_settled ops s1") (simp add: send_all_def)
qed

lemma complete_inv:
  assumes "sender_inv s" and "call_ok waits (Complete c) s"
  shows "\<exists>s'. complete ops pipe c s = Some s' \<and> sender_inv s'"
proof -
  let ?s = "s\<lparr>sn_in_flight := False\<rparr>"
  have d: "may_drain s" using assms(1) by (simp add: sender_inv_def drained_def)
  have "\<exists>s1. write_ended ops c s = Some s1 \<and> may_drain s1"
  proof (cases c)
    case (WOwn outcome)
    then have "sn_in_flight s" "may_drain ?s" using assms(2) d by (auto simp: call_ok_def may_drain_def)
    then show ?thesis
      using WOwn d fail_some [of ?s]
      by (cases outcome) (auto simp: write_ended_def Let_def may_drain_def drained_def)
  qed (use d in \<open>simp_all add: write_ended_def\<close>)
  then obtain s1 s2 where "write_ended ops c s = Some s1" "sender_drain ops pipe s1 = Some s2" "drained s2"
    using drain_some by blast
  then show ?thesis using settle_inv [of s2] by (simp add: complete_def)
qed

lemma close_inv: "sender_inv s \<Longrightarrow> sender_inv (close ops s)"
  unfolding close_def by (intro settle_inv) (auto simp: sender_inv_def drained_def may_drain_def)

lemma step_some:
  assumes "sender_inv s" and "call_ok waits call s"
  shows "\<exists>s'. sender_step ops pipe call s = Some s' \<and> sender_inv s'"
proof (cases call)
  case (Send item)
  then show ?thesis using send_inv [OF assms(1), of pipe item] by auto
next
  case (SendAll items)
  then show ?thesis using send_all_inv [OF assms(1), of pipe items] by auto
next
  case (WithBacklog change)
  then show ?thesis
    using assms by (auto simp: with_backlog_def call_ok_def sender_inv_def drained_def may_drain_def)
next
  case Close
  then show ?thesis using close_inv [OF assms(1)] by simp
next
  case (Complete c)
  then show ?thesis using complete_inv [OF assms(1)] assms(2) by simp
qed

lemma run_some:
  "sender_inv s \<Longrightarrow> calls_ok ops waits pipe calls s \<Longrightarrow> \<exists>s'. sender_run ops pipe calls s = Some s' \<and> sender_inv s'"
proof (induction calls arbitrary: s)
  case (Cons call calls)
  then obtain s1 where "sender_step ops pipe call s = Some s1" "sender_inv s1"
    using step_some [of s call pipe] by auto
  then show ?case using Cons by auto
qed simp

lemma make_inv: "waits b = 0 \<Longrightarrow> sender_inv (sender_make b own_thread)"
  by (simp add: sender_make_def sender_inv_def drained_def may_drain_def)

end

end
