(* ===== verification/Child_Writer.thy ===== *)
theory Child_Writer
  imports Pipe_Sender Supervisor_Policy Machines "HOL-Library.Sublist"
begin

text \<open>
  The writer of a child's commands, \<^verbatim>\<open>verbatim-supervisor/src/writer.rs\<close>: the queue of the commands
  that wait while a write is in flight, with its policy for each kind of command when it is full, and
  the slot for the list of nodes that Core holds, which the next command written carries. The queue
  is the backlog of a sender, by an interpretation of the locale \<open>backlog\<close>.

  A command type is a parameter, with the methods of the trait \<open>ToChild\<close> as a record;
  \<open>outpost_child\<close> is the trait's implementation for an outpost's commands. What a message is as JSON
  is outside the program, so \<open>put_message\<close>, the frame of a message or its error, is a parameter too,
  and the clock's readings are an input, kept with the queue in the order they are taken.
\<close>

definition WRITER_CAPACITY :: nat where
  "WRITER_CAPACITY = 64"

section \<open>A child's commands\<close>

datatype ('x, 'q, 't) core_to_outpost =
    DeliverFact trace_id event_timing "'x delivered_fact" "win_event_stamp option"
  | ForwardingEnded u32
  | Query trace_id request_id 'q event_timing
  | Cancel request_id
  | Ping u64 u64
  | Fetches 't
  | NodesHeld "u64 list" "u64 list" u64
  | IdleQuery u64
  | Shutdown
  | Assign pid

record 'x routed_fact =
  rf_trace_id :: trace_id
  rf_timing :: event_timing
  rf_fact :: "'x delivered_fact"
  rf_win_event :: "win_event_stamp option"

text \<open>The methods of \<open>ToChild\<close>; \<open>tc_timed\<close> changes the timing that \<open>relay_timing\<close> lends, when it does.\<close>

record ('m, 'f) to_child =
  tc_shutdown :: 'm
  tc_fact :: "'f \<Rightarrow> 'm"
  tc_stamp_sent :: "u64 \<Rightarrow> 'm \<Rightarrow> 'm"
  tc_timed :: "(event_timing \<Rightarrow> event_timing) \<Rightarrow> 'm \<Rightarrow> 'm"

fun outpost_stamp_sent :: "u64 \<Rightarrow> ('x, 'q, 't) core_to_outpost \<Rightarrow> ('x, 'q, 't) core_to_outpost" where
  "outpost_stamp_sent now (Ping sequence sent_at_us) = Ping sequence now"
| "outpost_stamp_sent now command = command"

fun outpost_timed ::
  "(event_timing \<Rightarrow> event_timing) \<Rightarrow> ('x, 'q, 't) core_to_outpost \<Rightarrow> ('x, 'q, 't) core_to_outpost" where
  "outpost_timed f (DeliverFact trace_id timing routed win_event) = DeliverFact trace_id (f timing) routed win_event"
| "outpost_timed f (Query trace_id request_id query timing) = Query trace_id request_id query (f timing)"
| "outpost_timed f command = command"

definition outpost_child :: "(('x, 'q, 't) core_to_outpost, 'x routed_fact) to_child" where
  "outpost_child =
     \<lparr>tc_shutdown = Shutdown,
      tc_fact = (\<lambda>f. DeliverFact (rf_trace_id f) (rf_timing f) (rf_fact f) (rf_win_event f)),
      tc_stamp_sent = outpost_stamp_sent,
      tc_timed = outpost_timed\<rparr>"

section \<open>What waits\<close>

text \<open>\<open>Received\<close> is the time at which a command was queued or a fact read, in microseconds.\<close>

datatype ('m, 'f) outgoing =
    OutPing 'm
  | OutShutdown
  | OutFact "fact_key option" 'f u64
  | HandOver 'm
  | FocusRead 'f u64
  | OutIdleQuery 'm
  | Other 'm u64

definition delivered :: "'x held_fact \<Rightarrow> ('m, 'x routed_fact) outgoing" where
  "delivered held =
     (let key = held_key held;
          command = \<lparr>rf_trace_id = hf_trace_id held, rf_timing = hf_timing held, rf_fact = hf_fact held,
                     rf_win_event = hf_win_event held\<rparr>
      in if is_focus_read (hf_fact held) then FocusRead command (hf_received_at_us held)
         else OutFact key command (hf_received_at_us held))"

definition stamp :: "u64 \<Rightarrow> u64 \<Rightarrow> event_timing \<Rightarrow> event_timing" where
  "stamp received now timing =
     (let relay_us = sat_sub now received
      in timing\<lparr>core_received_at_us := received, core_relay_us := relay_us,
                core_sent_at_us := sat_add received relay_us\<rparr>)"

fun relayed :: "('m, 'f) to_child \<Rightarrow> u64 \<Rightarrow> ('m, 'f) outgoing \<Rightarrow> 'm" where
  "relayed tc now OutShutdown = tc_shutdown tc"
| "relayed tc now (OutFact key routed received) = tc_timed tc (stamp received now) (tc_fact tc routed)"
| "relayed tc now (FocusRead routed received) = tc_timed tc (stamp received now) (tc_fact tc routed)"
| "relayed tc now (Other command received) = tc_timed tc (stamp received now) command"
| "relayed tc now (OutPing command) = tc_stamp_sent tc now command"
| "relayed tc now (HandOver command) = tc_stamp_sent tc now command"
| "relayed tc now (OutIdleQuery command) = command"

datatype queue_error = Full | QueueClosed

section \<open>The queue\<close>

record ('m, 'f) queue =
  qu_items :: "('m, 'f) outgoing list"
  qu_held :: "'m option"
  qu_held_behind :: nat
  qu_clock :: "nat \<Rightarrow> u64"

definition queue_default :: "(nat \<Rightarrow> u64) \<Rightarrow> ('m, 'f) queue" where
  "queue_default clock = \<lparr>qu_items = [], qu_held = None, qu_held_behind = 0, qu_clock = clock\<rparr>"

fun is_fact :: "('m, 'f) outgoing \<Rightarrow> bool" where
  "is_fact (OutFact key routed received) = True"
| "is_fact item = False"

fun is_idle_query :: "('m, 'f) outgoing \<Rightarrow> bool" where
  "is_idle_query (OutIdleQuery command) = True"
| "is_idle_query item = False"

fun fact_of_key :: "fact_key \<Rightarrow> ('m, 'f) outgoing \<Rightarrow> bool" where
  "fact_of_key key (OutFact other routed received) = (other = Some key)"
| "fact_of_key key item = False"

text \<open>\<open>Iterator::position\<close> and \<open>rposition\<close>.\<close>

fun position_of :: "('a \<Rightarrow> bool) \<Rightarrow> 'a list \<Rightarrow> nat option" where
  "position_of p [] = None"
| "position_of p (x # xs) = (if p x then Some 0 else map_option Suc (position_of p xs))"

definition rposition_of :: "('a \<Rightarrow> bool) \<Rightarrow> 'a list \<Rightarrow> nat option" where
  "rposition_of p xs = map_option (\<lambda>i. length xs - 1 - i) (position_of p (rev xs))"

definition remove_at :: "nat \<Rightarrow> 'a list \<Rightarrow> 'a list" where
  "remove_at index xs = take index xs @ drop (Suc index) xs"

definition queue_remove :: "nat \<Rightarrow> ('m, 'f) queue \<Rightarrow> ('m, 'f) queue" where
  "queue_remove index q =
     (let q = q\<lparr>qu_items := remove_at index (qu_items q)\<rparr>
      in if index < qu_held_behind q then q\<lparr>qu_held_behind := qu_held_behind q - 1\<rparr> else q)"

text \<open>Where the fact is that a newer one of the same key replaces: never before the idle query.\<close>

definition same_fact :: "fact_key option \<Rightarrow> ('m, 'f) outgoing list \<Rightarrow> nat option" where
  "same_fact key items =
     (let after_query = (case rposition_of is_idle_query items of None \<Rightarrow> 0 | Some query \<Rightarrow> query + 1)
      in Option.bind key (\<lambda>key.
           map_option (\<lambda>index. index + after_query) (position_of (fact_of_key key) (drop after_query items))))"

definition make_room :: "fact_key option \<Rightarrow> nat \<Rightarrow> ('m, 'f) queue \<Rightarrow> ('m, 'f) queue" where
  "make_room key capacity q =
     (case same_fact key (qu_items q) of
        Some index \<Rightarrow> queue_remove index q
      | None \<Rightarrow>
          if capacity \<le> length (qu_items q)
          then case position_of is_fact (qu_items q) of
                 Some oldest \<Rightarrow> queue_remove oldest q
               | None \<Rightarrow> q
          else q)"

definition queue_push ::
  "('m, 'f) outgoing \<Rightarrow> nat \<Rightarrow> ('m, 'f) queue \<Rightarrow> ('m, 'f) queue \<times> queue_error option" where
  "queue_push item capacity q =
     (let (q, full) =
        (case item of
           OutFact key routed received \<Rightarrow>
             let q = make_room key capacity q in (q, capacity \<le> length (qu_items q))
         | Other command received \<Rightarrow> (q, capacity \<le> length (qu_items q))
         | _ \<Rightarrow> (q, False))
      in if full then (q, Some Full) else (q\<lparr>qu_items := qu_items q @ [item]\<rparr>, None))"

definition queue_pop :: "('m, 'f) queue \<Rightarrow> ('m, 'f) queue \<times> ('m, 'f) outgoing option" where
  "queue_pop q =
     (case qu_items q of
        [] \<Rightarrow> (q, None)
      | item # items \<Rightarrow> (q\<lparr>qu_items := items, qu_held_behind := qu_held_behind q - 1\<rparr>, Some item))"

definition queue_leave :: "'m \<Rightarrow> ('m, 'f) queue \<Rightarrow> ('m, 'f) queue" where
  "queue_leave held q = q\<lparr>qu_held := Some held, qu_held_behind := length (qu_items q)\<rparr>"

definition queue_is_empty :: "('m, 'f) queue \<Rightarrow> bool" where
  "queue_is_empty q \<longleftrightarrow> qu_items q = []"

text \<open>The clock has a reading for every command written; one that stamps nothing leaves its own unused.\<close>

definition queue_encode ::
  "('m, 'f) to_child \<Rightarrow> ('m \<Rightarrow> u8 list io_result) \<Rightarrow> ('m, 'f) queue \<Rightarrow> ('m, 'f) outgoing \<Rightarrow>
     ('m, 'f) queue \<times> u8 list io_result" where
  "queue_encode tc put_message q item =
     (let carries = item \<noteq> OutShutdown \<and> qu_held_behind q = 0;
          now = qu_clock q 0;
          q = q\<lparr>qu_clock := qu_clock q \<circ> Suc\<rparr>
      in case put_message (relayed tc now item) of
           Inl e \<Rightarrow> (q, Inl e)
         | Inr frame \<Rightarrow>
             (case (if carries then qu_held q else None) of
                None \<Rightarrow> (q, Inr frame)
              | Some held \<Rightarrow>
                  (q\<lparr>qu_held := None\<rparr>,
                   Inr (case put_message held of Inl e \<Rightarrow> frame | Inr list \<Rightarrow> frame @ list))))"

definition queue_ops ::
  "('m, 'f) to_child \<Rightarrow> ('m \<Rightarrow> u8 list io_result) \<Rightarrow> (('m, 'f) queue, ('m, 'f) outgoing, queue_error) backlog_ops" where
  "queue_ops tc put_message =
     \<lparr>bl_push = (\<lambda>q item. queue_push item WRITER_CAPACITY q),
      bl_pop = queue_pop,
      bl_is_empty = queue_is_empty,
      bl_encode = queue_encode tc put_message\<rparr>"

section \<open>The writer's handle\<close>

type_synonym ('m, 'f) writer = "('m, 'f) queue sender"

definition writer_push ::
  "('m, 'f) to_child \<Rightarrow> ('m \<Rightarrow> u8 list io_result) \<Rightarrow> pipe_answers \<Rightarrow> ('m, 'f) outgoing \<Rightarrow>
     ('m, 'f) writer \<Rightarrow> (('m, 'f) writer \<times> queue_error option) option" where
  "writer_push tc put_message pipe item w =
     map_option (apsnd (map_option (\<lambda>e. case e of Refused refused \<Rightarrow> refused | Closed \<Rightarrow> QueueClosed)))
       (send (queue_ops tc put_message) pipe item w)"

definition leave_held :: "'m \<Rightarrow> ('m, 'f) writer \<Rightarrow> ('m, 'f) writer" where
  "leave_held held w = with_backlog (queue_leave held) w"

definition send_held ::
  "('m, 'f) to_child \<Rightarrow> ('m \<Rightarrow> u8 list io_result) \<Rightarrow> pipe_answers \<Rightarrow> u64 \<Rightarrow> 'm \<Rightarrow>
     ('m, 'f) writer \<Rightarrow> ('m, 'f) writer option" where
  "send_held tc put_message pipe now held w =
     map_option (\<lambda>(w, e). if e = Some Full then leave_held held w else w)
       (writer_push tc put_message pipe (Other held now) (with_backlog (\<lambda>q. q\<lparr>qu_held := None\<rparr>) w))"


section \<open>Positions\<close>

lemma position_of_Some:
  "position_of p xs = Some i \<Longrightarrow> i < length xs \<and> p (xs ! i) \<and> (\<forall>j < i. \<not> p (xs ! j))"
  by (induction xs arbitrary: i) (auto split: if_splits simp: nth_Cons')

lemma position_of_None: "position_of p xs = None \<longleftrightarrow> (\<forall>x \<in> set xs. \<not> p x)"
  by (induction xs) auto

lemma rposition_of_Some:
  assumes "rposition_of p xs = Some i"
  shows "i < length xs \<and> p (xs ! i) \<and> (\<forall>j. i < j \<and> j < length xs \<longrightarrow> \<not> p (xs ! j))"
proof -
  obtain k where k: "position_of p (rev xs) = Some k" "i = length xs - 1 - k"
    using assms by (auto simp: rposition_of_def)
  have "k < length xs" "p (rev xs ! k)" and b: "\<forall>j < k. \<not> p (rev xs ! j)"
    using position_of_Some [OF k(1)] by auto
  moreover have "\<not> p (xs ! j)" if "i < j" "j < length xs" for j
    using b [rule_format, of "length xs - 1 - j"] that k(2) by (auto simp: rev_nth)
  ultimately show ?thesis using k(2) by (auto simp: rev_nth)
qed

lemma rposition_of_None: "rposition_of p xs = None \<longleftrightarrow> (\<forall>x \<in> set xs. \<not> p x)"
  by (simp add: rposition_of_def position_of_None)

lemma length_remove_at: "i < length xs \<Longrightarrow> length (remove_at i xs) = length xs - 1"
  by (auto simp: remove_at_def min_def)

lemma nth_remove_at:
  "i < length xs \<Longrightarrow> j < length xs - 1 \<Longrightarrow> remove_at i xs ! j = xs ! (if j < i then j else Suc j)"
  by (auto simp: remove_at_def nth_append min_def)

lemma filter_remove_at:
  assumes "i < length xs" and "\<not> P (xs ! i)"
  shows "filter P (remove_at i xs) = filter P xs"
proof -
  have "xs = take i xs @ xs ! i # drop (Suc i) xs" using assms(1) by (simp add: id_take_nth_drop)
  then have "filter P xs = filter P (take i xs @ xs ! i # drop (Suc i) xs)" by simp
  then show ?thesis using assms(2) by (simp add: remove_at_def)
qed

lemma remove_at_split: "i < length xs \<Longrightarrow> \<exists>as b cs. xs = as @ b # cs \<and> remove_at i xs = as @ cs \<and> length as = i"
  by (intro exI [of _ "take i xs"] exI [of _ "xs ! i"] exI [of _ "drop (Suc i) xs"])
    (simp add: remove_at_def id_take_nth_drop [symmetric])

lemma filter_remove_at_length: "i < length xs \<Longrightarrow> length (filter P (remove_at i xs)) \<le> length (filter P xs)"
  by (drule remove_at_split) auto

lemma subseq_remove_at: "i < length xs \<Longrightarrow> subseq (remove_at i xs) xs"
proof (drule remove_at_split, elim exE conjE)
  fix as b cs
  assume "xs = as @ b # cs" and "remove_at i xs = as @ cs"
  moreover have "subseq cs (b # cs)" by (rule list_emb_Cons) simp
  ultimately show ?thesis using list_emb_append_mono [of "(=)" as as cs "b # cs"] by simp
qed

section \<open>The queue as a sender's backlog\<close>

lemma same_fact_Some:
  assumes "same_fact key items = Some i"
  shows "\<exists>k. key = Some k \<and> i < length items \<and> fact_of_key k (items ! i) \<and> (\<forall>j. i < j \<and> j < length items \<longrightarrow> \<not> is_idle_query (items ! j))"
proof -
  define a where "a = (case rposition_of is_idle_query items of None \<Rightarrow> 0 | Some query \<Rightarrow> query + 1)"
  obtain k j where k: "key = Some k" "position_of (fact_of_key k) (drop a items) = Some j" "i = j + a"
    using assms by (auto simp: same_fact_def Let_def a_def [symmetric] split: bind_splits)
  have "j < length items - a" "fact_of_key k (drop a items ! j)" using position_of_Some [OF k(2)] by auto
  moreover have "\<not> is_idle_query (items ! m)" if "a \<le> m" "m < length items" for m
    using that rposition_of_Some [of is_idle_query items] rposition_of_None [of is_idle_query items]
    by (auto simp: a_def split: option.splits)
  ultimately show ?thesis using k by (auto simp: add.commute)
qed

lemma is_fact_of_key: "fact_of_key k item \<Longrightarrow> is_fact item"
  by (cases item) auto

lemma make_room_cases:
  "make_room key capacity q = q \<or>
   (\<exists>i < length (qu_items q). is_fact (qu_items q ! i) \<and> make_room key capacity q = queue_remove i q)"
proof (cases "same_fact key (qu_items q)")
  case None
  then show ?thesis
    using position_of_Some [of is_fact "qu_items q"] by (auto simp: make_room_def split: option.split)
next
  case (Some i)
  then show ?thesis using same_fact_Some [OF Some] is_fact_of_key by (auto simp: make_room_def)
qed

lemma queue_remove_items [simp]: "qu_items (queue_remove i q) = remove_at i (qu_items q)"
  by (simp add: queue_remove_def Let_def)

lemma queue_remove_held [simp]: "qu_held (queue_remove i q) = qu_held q"
  by (simp add: queue_remove_def Let_def)

lemma queue_push_cases:
  obtains (taken) q' where "queue_push item capacity q = (q'\<lparr>qu_items := qu_items q' @ [item]\<rparr>, None)"
      "q' = q \<or> (\<exists>i < length (qu_items q). is_fact (qu_items q ! i) \<and> q' = queue_remove i q)"
      "is_fact item \<or> (\<exists>m r. item = Other m r) \<Longrightarrow> length (qu_items q') < capacity"
      "\<And>key routed received. item = OutFact key routed received \<Longrightarrow> q' = make_room key capacity q"
      "\<not> is_fact item \<Longrightarrow> q' = q"
    | (refused) q' where "queue_push item capacity q = (q', Some Full)"
      "q' = q \<or> (\<exists>i < length (qu_items q). is_fact (qu_items q ! i) \<and> q' = queue_remove i q)"
      "is_fact item \<or> (\<exists>m r. item = Other m r)"
proof (cases item)
  case (OutFact key routed received)
  show thesis
  proof (cases "capacity \<le> length (qu_items (make_room key capacity q))")
    case True
    show thesis
      by (rule refused [OF _ make_room_cases [of key capacity q]])
        (use True OutFact in \<open>simp_all add: queue_push_def Let_def\<close>)
  next
    case False
    show thesis
      by (rule taken [OF _ make_room_cases [of key capacity q]])
        (use False OutFact in \<open>simp_all add: queue_push_def Let_def\<close>)
  qed
next
  case (Other m r)
  then show thesis
    using taken [of q] refused [of q]
    by (cases "capacity \<le> length (qu_items q)") (auto simp: queue_push_def Let_def)
qed (use taken [of q] in \<open>auto simp: queue_push_def Let_def\<close>)

definition queue_waits :: "('m, 'f) queue \<Rightarrow> nat" where
  "queue_waits q = length (qu_items q)"

lemma queue_push_refused:
  "queue_push item capacity q = (q', Some refusal) \<Longrightarrow> queue_waits q' \<le> queue_waits q"
  by (rule queue_push_cases [of item capacity q]) (auto simp: queue_waits_def length_remove_at)

lemma queue_encode_items:
  "queue_encode tc put_message q item = (q', put) \<Longrightarrow> qu_items q' = qu_items q \<and> qu_held_behind q' = qu_held_behind q"
  by (auto simp: queue_encode_def Let_def split: sum.splits option.splits)

interpretation writer: backlog "queue_ops tc put_message" queue_waits for tc put_message
  by unfold_locales
    (auto simp: queue_waits_def [of "_ :: (_, _) queue"] queue_ops_def queue_pop_def queue_is_empty_def
      neq_Nil_conv dest: queue_encode_items dest!: queue_push_refused split: list.splits)

section \<open>What the policy keeps\<close>

text \<open>The calls of the queue as its sender and the handle make them: a push, a command taken and
  encoded, and a list left in the slot; and what each gives. A write carries the list that it
  took from the slot.\<close>

datatype ('m, 'f) queue_call = QPush "('m, 'f) outgoing" | QWrite | QLeave 'm

datatype ('m, 'f) queue_effect =
    Accepted "('m, 'f) outgoing"
  | Declined "('m, 'f) outgoing"
  | Wrote "('m, 'f) outgoing" "'m option"

fun queue_step ::
  "('m, 'f) to_child \<Rightarrow> ('m \<Rightarrow> u8 list io_result) \<Rightarrow> ('m, 'f) queue \<Rightarrow> ('m, 'f) queue_call \<Rightarrow>
     ('m, 'f) queue \<times> ('m, 'f) queue_effect list" where
  "queue_step tc put_message q (QPush item) =
     (case queue_push item WRITER_CAPACITY q of
        (q, None) \<Rightarrow> (q, [Accepted item])
      | (q, Some e) \<Rightarrow> (q, [Declined item]))"
| "queue_step tc put_message q QWrite =
     (case queue_pop q of
        (q, None) \<Rightarrow> (q, [])
      | (q, Some item) \<Rightarrow>
          let q' = fst (queue_encode tc put_message q item)
          in (q', [Wrote item (if qu_held q' = None then qu_held q else None)]))"
| "queue_step tc put_message q (QLeave held) = (queue_leave held q, [])"

fun accepted :: "('m, 'f) queue_effect \<Rightarrow> ('m, 'f) outgoing list" where
  "accepted (Accepted item) = [item]"
| "accepted e = []"

fun declined :: "('m, 'f) queue_effect \<Rightarrow> ('m, 'f) outgoing list" where
  "declined (Declined item) = [item]"
| "declined e = []"

fun wrote :: "('m, 'f) queue_effect \<Rightarrow> ('m, 'f) outgoing list" where
  "wrote (Wrote item list) = [item]"
| "wrote e = []"

fun carried :: "('m, 'f) queue_effect \<Rightarrow> 'm list" where
  "carried (Wrote item (Some list)) = [list]"
| "carried e = []"

definition is_command :: "('m, 'f) outgoing \<Rightarrow> bool" where
  "is_command item \<longleftrightarrow> \<not> is_fact item"

definition may_be_declined :: "('m, 'f) outgoing \<Rightarrow> bool" where
  "may_be_declined item \<longleftrightarrow> is_fact item \<or> (\<exists>command received. item = Other command received)"

text \<open>Two facts of one key wait only with an idle query between them.\<close>

definition no_repeats :: "('m, 'f) outgoing list \<Rightarrow> bool" where
  "no_repeats items \<longleftrightarrow>
     (\<forall>i j k. i < j \<and> j < length items \<and> fact_of_key k (items ! i) \<and> fact_of_key k (items ! j) \<longrightarrow>
        (\<exists>m. i < m \<and> m < j \<and> is_idle_query (items ! m)))"

lemma no_repeats_tl: "no_repeats (x # items) \<Longrightarrow> no_repeats items"
  unfolding no_repeats_def
proof (intro allI impI)
  fix i j k
  assume a: "\<forall>i j k. i < j \<and> j < length (x # items) \<and> fact_of_key k ((x # items) ! i) \<and> fact_of_key k ((x # items) ! j) \<longrightarrow>
        (\<exists>m. i < m \<and> m < j \<and> is_idle_query ((x # items) ! m))"
    and "i < j \<and> j < length items \<and> fact_of_key k (items ! i) \<and> fact_of_key k (items ! j)"
  then obtain m where "Suc i < m" "m < Suc j" "is_idle_query ((x # items) ! m)"
    using a [rule_format, of "Suc i" "Suc j" k] by auto
  then show "\<exists>m. i < m \<and> m < j \<and> is_idle_query (items ! m)"
    by (intro exI [of _ "m - 1"]) (auto simp: nth_Cons')
qed

lemma idle_query_not_fact: "is_idle_query item \<Longrightarrow> \<not> is_fact item"
  by (cases item) auto

lemma no_repeats_remove:
  assumes "no_repeats items" and "r < length items" and "is_fact (items ! r)"
  shows "no_repeats (remove_at r items)"
  unfolding no_repeats_def
proof (intro allI impI, elim conjE)
  let ?n = "\<lambda>j. if j < r then j else Suc j"
  fix i j k
  assume ij: "i < j" "j < length (remove_at r items)"
    and f: "fact_of_key k (remove_at r items ! i)" "fact_of_key k (remove_at r items ! j)"
  have l: "j < length items - 1" using ij assms(2) by (simp add: length_remove_at)
  then have "Suc j < length items" by simp
  then obtain m where m: "?n i < m" "m < ?n j" "is_idle_query (items ! m)"
    using l assms(1) [unfolded no_repeats_def, rule_format, of "?n i" "?n j" k] ij f assms(2)
    by (auto simp: nth_remove_at split: if_splits)
  have "m \<noteq> r" using m(3) assms(3) idle_query_not_fact by blast
  then show "\<exists>m. i < m \<and> m < j \<and> is_idle_query (remove_at r items ! m)"
    using m ij l assms(2)
    by (intro exI [of _ "if m < r then m else m - 1"]) (auto simp: nth_remove_at split: if_splits)
qed

lemma no_repeats_snoc:
  assumes "no_repeats items"
    and "\<And>i k. i < length items \<Longrightarrow> fact_of_key k item \<Longrightarrow> fact_of_key k (items ! i) \<Longrightarrow>
      \<exists>m. i < m \<and> m < length items \<and> is_idle_query (items ! m)"
  shows "no_repeats (items @ [item])"
  unfolding no_repeats_def
proof (intro allI impI, elim conjE)
  fix i j k
  assume ij: "i < j" "j < length (items @ [item])"
    and f: "fact_of_key k ((items @ [item]) ! i)" "fact_of_key k ((items @ [item]) ! j)"
  show "\<exists>m. i < m \<and> m < j \<and> is_idle_query ((items @ [item]) ! m)"
  proof (cases "j < length items")
    case True
    then obtain m where "i < m" "m < j" "is_idle_query (items ! m)"
      using assms(1) [unfolded no_repeats_def, rule_format, of i j k] ij f by (auto simp: nth_append)
    then show ?thesis using True by (intro exI [of _ m]) (simp add: nth_append)
  next
    case False
    then have "j = length items" using ij by simp
    then obtain m where "i < m" "m < length items" "is_idle_query (items ! m)"
      using assms(2) [of i k] ij f by (auto simp: nth_append)
    then show ?thesis using \<open>j = length items\<close> by (intro exI [of _ m]) (simp add: nth_append)
  qed
qed

lemma same_fact_None:
  assumes "same_fact (Some k) items = None" and "i < length items" and "fact_of_key k (items ! i)"
  shows "\<exists>m. i < m \<and> m < length items \<and> is_idle_query (items ! m)"
proof (cases "rposition_of is_idle_query items")
  case None
  then show ?thesis using assms by (auto simp: same_fact_def position_of_None)
next
  case (Some query)
  have q: "query < length items" "is_idle_query (items ! query)" using rposition_of_Some [OF Some] by auto
  have "i < query"
  proof (rule ccontr)
    assume "\<not> i < query"
    moreover have "i \<noteq> query" using q assms(3) idle_query_not_fact is_fact_of_key by blast
    ultimately have "items ! i \<in> set (drop (query + 1) items)"
      using assms(2) by (auto simp: in_set_conv_nth intro!: exI [of _ "i - (query + 1)"])
    then show False using assms(1,3) Some by (auto simp: same_fact_def position_of_None)
  qed
  then show ?thesis using q by blast
qed

text \<open>After room is made, the fact's key waits only before the idle query.\<close>

lemma make_room_clear:
  assumes "no_repeats (qu_items q)" and "i < length (qu_items (make_room (Some k) capacity q))"
    and "fact_of_key k (qu_items (make_room (Some k) capacity q) ! i)"
  shows "\<exists>m. i < m \<and> m < length (qu_items (make_room (Some k) capacity q)) \<and>
    is_idle_query (qu_items (make_room (Some k) capacity q) ! m)"
proof (cases "same_fact (Some k) (qu_items q)")
  case None
  let ?r = "make_room (Some k) capacity q"
  show ?thesis
  proof (cases "?r = q")
    case True
    then show ?thesis using same_fact_None [OF None] assms by simp
  next
    case False
    then obtain r where r: "r < length (qu_items q)" "is_fact (qu_items q ! r)" "qu_items ?r = remove_at r (qu_items q)"
      using make_room_cases [of "Some k" capacity q] by auto
    define n where "n = (if i < r then i else Suc i)"
    have i: "i < length (qu_items q) - 1" using assms(2) r by (simp add: length_remove_at)
    then have "n < length (qu_items q)" "fact_of_key k (qu_items q ! n)"
      using assms(3) r by (auto simp: n_def nth_remove_at)
    then obtain m where m: "n < m" "m < length (qu_items q)" "is_idle_query (qu_items q ! m)"
      using same_fact_None [OF None] by blast
    moreover have "m \<noteq> r" using m(3) r(2) idle_query_not_fact by blast
    ultimately show ?thesis
      using r i
      by (intro exI [of _ "if m < r then m else m - 1"])
        (auto simp: n_def nth_remove_at length_remove_at split: if_splits)
  qed
next
  case (Some r)
  let ?r = "make_room (Some k) capacity q"
  have r: "r < length (qu_items q)" "fact_of_key k (qu_items q ! r)"
    "\<And>j. r < j \<Longrightarrow> j < length (qu_items q) \<Longrightarrow> \<not> is_idle_query (qu_items q ! j)"
    using same_fact_Some [OF Some] by auto
  have e: "qu_items ?r = remove_at r (qu_items q)" using Some by (simp add: make_room_def)
  have i: "i < length (qu_items q) - 1" using assms(2) e r(1) by (simp add: length_remove_at)
  define n where "n = (if i < r then i else Suc i)"
  have n: "n < length (qu_items q)" "fact_of_key k (qu_items q ! n)" "n \<noteq> r"
    using assms(3) e r(1) i by (auto simp: n_def nth_remove_at)
  have "n < r"
  proof (rule ccontr)
    assume "\<not> n < r"
    then obtain m where "r < m" "m < n" "is_idle_query (qu_items q ! m)"
      using assms(1) [unfolded no_repeats_def, rule_format, of r n k] n r by auto
    then show False using r(3) [of m] n by simp
  qed
  then obtain m where m: "n < m" "m < r" "is_idle_query (qu_items q ! m)"
    using assms(1) [unfolded no_repeats_def, rule_format, of n r k] n r by auto
  then show ?thesis
    using e r(1) \<open>n < r\<close>
    by (intro exI [of _ m]) (auto simp: n_def nth_remove_at length_remove_at split: if_splits)
qed

text \<open>One step: what is kept of the commands, the bound, and the keys.\<close>

definition queue_inv :: "('m, 'f) queue \<Rightarrow> bool" where
  "queue_inv q \<longleftrightarrow>
     no_repeats (qu_items q) \<and> length (filter may_be_declined (qu_items q)) \<le> WRITER_CAPACITY \<and>
     qu_held_behind q \<le> length (qu_items q)"

lemma queue_remove_inv:
  assumes "queue_inv q" and "i < length (qu_items q)" and "is_fact (qu_items q ! i)"
  shows "queue_inv (queue_remove i q)"
  using assms no_repeats_remove [of "qu_items q" i] filter_remove_at_length [of i "qu_items q" may_be_declined]
  by (auto simp: queue_inv_def queue_remove_def Let_def length_remove_at)

lemma queue_push_inv:
  assumes "queue_inv q" and "queue_push item WRITER_CAPACITY q = (q2, e)"
  shows "queue_inv q2"
proof (cases rule: queue_push_cases [of item WRITER_CAPACITY q])
  case (taken q')
  have i: "queue_inv q'" using taken(2) assms(1) queue_remove_inv by blast
  have "length (filter may_be_declined (qu_items q')) + length (filter may_be_declined [item]) \<le> WRITER_CAPACITY"
  proof (cases "may_be_declined item")
    case True
    then have "length (qu_items q') < WRITER_CAPACITY" using taken(3) by (simp add: may_be_declined_def)
    then show ?thesis
      using True by (simp add: Suc_le_eq le_less_trans [OF length_filter_le])
  next
    case False
    then show ?thesis using i by (simp add: queue_inv_def)
  qed
  moreover have "no_repeats (qu_items q' @ [item])"
  proof (rule no_repeats_snoc)
    show "no_repeats (qu_items q')" using i by (simp add: queue_inv_def)
    fix j k
    assume j: "j < length (qu_items q')" "fact_of_key k item" "fact_of_key k (qu_items q' ! j)"
    then obtain routed received where "item = OutFact (Some k) routed received" by (cases item) auto
    then have "q' = make_room (Some k) WRITER_CAPACITY q" using taken(4) by simp
    then show "\<exists>m. j < m \<and> m < length (qu_items q') \<and> is_idle_query (qu_items q' ! m)"
      using make_room_clear [of q j k WRITER_CAPACITY] j assms(1) by (simp add: queue_inv_def)
  qed
  ultimately show ?thesis using i taken(1) assms(2) by (auto simp: queue_inv_def)
next
  case (refused q')
  then show ?thesis using assms queue_remove_inv by auto
qed

lemma queue_write_cases:
  obtains (none) "qu_items q = []" "queue_step tc put_message q QWrite = (q, [])"
    | (one) item items q' put where "qu_items q = item # items"
      "queue_encode tc put_message (q\<lparr>qu_items := items, qu_held_behind := qu_held_behind q - 1\<rparr>) item = (q', put)"
      "queue_step tc put_message q QWrite = (q', [Wrote item (if qu_held q' = None then qu_held q else None)])"
      "qu_items q' = items" "qu_held_behind q' = qu_held_behind q - 1"
proof (cases "qu_items q")
  case Nil
  then show thesis using none by (simp add: queue_pop_def)
next
  case (Cons item items)
  let ?q = "q\<lparr>qu_items := items, qu_held_behind := qu_held_behind q - 1\<rparr>"
  obtain q' put where e: "queue_encode tc put_message ?q item = (q', put)" by fastforce
  show thesis
    by (rule one [OF Cons e]) (use Cons e queue_encode_items [OF e] in \<open>simp_all add: queue_pop_def Let_def\<close>)
qed

lemma queue_step_inv: "queue_inv q \<Longrightarrow> queue_inv (fst (queue_step tc put_message q call))"
proof (cases call)
  case (QPush item)
  assume "queue_inv q"
  then show ?thesis
    using QPush queue_push_inv [of q item] by (cases "queue_push item WRITER_CAPACITY q") (auto split: option.split)
next
  case QWrite
  assume i: "queue_inv q"
  show ?thesis
  proof (cases rule: queue_write_cases [of q tc put_message])
    case none
    then show ?thesis using QWrite i by simp
  next
    case (one item items q' put)
    then show ?thesis
      using QWrite i no_repeats_tl [of item items] by (auto simp: queue_inv_def split: if_splits)
  qed
next
  case (QLeave held)
  assume "queue_inv q"
  then show ?thesis using QLeave by (simp add: queue_inv_def queue_leave_def)
qed

interpretation queue: invariant_machine "queue_step tc put_message" "\<lambda>_ _. True" queue_inv for tc put_message
  by unfold_locales (rule queue_step_inv)

lemma queue_default_inv: "queue_inv (queue_default clock)"
  by (simp add: queue_inv_def queue_default_def no_repeats_def)

lemma queue_push_commands:
  assumes "queue_push item WRITER_CAPACITY q = (q', e)"
  shows "filter is_command (qu_items q') = filter is_command (qu_items q) @ (if e = None then filter is_command [item] else [])"
proof -
  have r: "filter is_command (remove_at i (qu_items q)) = filter is_command (qu_items q)"
    if "i < length (qu_items q)" "is_fact (qu_items q ! i)" for i
    using that by (simp add: filter_remove_at is_command_def)
  show ?thesis
    using assms r by (cases rule: queue_push_cases [of item WRITER_CAPACITY q]) auto
qed

lemma queue_step_commands:
  "filter is_command (all_of wrote (snd (queue_step tc put_message q call))) @
     filter is_command (qu_items (fst (queue_step tc put_message q call))) =
   filter is_command (qu_items q) @ filter is_command (all_of accepted (snd (queue_step tc put_message q call)))"
proof (cases call)
  case (QPush item)
  obtain q' e where "queue_push item WRITER_CAPACITY q = (q', e)" by fastforce
  then show ?thesis using QPush queue_push_commands [of item q q' e] by (cases e) simp_all
next
  case QWrite
  then show ?thesis by (cases rule: queue_write_cases [of q tc put_message]) auto
next
  case (QLeave held)
  then show ?thesis by (simp add: queue_leave_def)
qed

lemma queue_run_commands:
  "filter is_command (all_of wrote (snd (run (queue_step tc put_message) q calls))) @
     filter is_command (qu_items (fst (run (queue_step tc put_message) q calls))) =
   filter is_command (qu_items q) @ filter is_command (all_of accepted (snd (run (queue_step tc put_message) q calls)))"
proof (induction calls arbitrary: q)
  case (Cons call calls)
  show ?case
    using Cons [of "fst (queue_step tc put_message q call)"] queue_step_commands [of tc put_message q call]
    by simp
qed simp

lemma queue_step_declined: "e \<in> set (snd (queue_step tc put_message q call)) \<Longrightarrow> list_all may_be_declined (declined e)"
proof (cases call)
  case (QPush item)
  assume "e \<in> set (snd (queue_step tc put_message q call))"
  then show ?thesis
    using QPush by (cases rule: queue_push_cases [of item WRITER_CAPACITY q]) (auto simp: may_be_declined_def)
next
  case QWrite
  assume "e \<in> set (snd (queue_step tc put_message q call))"
  then show ?thesis using QWrite by (cases rule: queue_write_cases [of q tc put_message]) auto
qed auto

text \<open>
  C10. The overload policy: in any order of pushes, writes and lists left, every command but a routed
  fact is written in the order in which commands were taken, and none is lost; only a fact or an
  ordinary command is ever declined; no more than 64 of those wait, however many pings, hand-over
  messages, focus reads and idle queries do; and two facts for the same object and kind wait only
  with an idle query between them.
\<close>

theorem writer_policy:
  "let (q, es) = run (queue_step tc put_message) (queue_default clock) calls
   in filter is_command (all_of accepted es) = filter is_command (all_of wrote es) @ filter is_command (qu_items q) \<and>
      list_all may_be_declined (all_of declined es) \<and>
      length (filter may_be_declined (qu_items q)) \<le> WRITER_CAPACITY \<and>
      no_repeats (qu_items q)"
proof -
  obtain q es where r: "run (queue_step tc put_message) (queue_default clock) calls = (q, es)" by fastforce
  have i: "queue_inv q" using queue.run_inv [OF queue_default_inv, of tc put_message clock calls] r by simp
  have c: "filter is_command (all_of accepted es) = filter is_command (all_of wrote es) @ filter is_command (qu_items q)"
    using queue_run_commands [of tc put_message "queue_default clock" calls] r by (simp add: queue_default_def)
  have "list_all may_be_declined (declined e)" if "e \<in> set es" for e
  proof -
    have e: "e \<in> set (snd (run (queue_step tc put_message) (queue_default clock) calls))" using r that by simp
    have step: "\<And>q call e. queue_inv q \<Longrightarrow> True \<Longrightarrow> e \<in> set (snd (queue_step tc put_message q call)) \<Longrightarrow>
        list_all may_be_declined (declined e)"
      by (rule queue_step_declined)
    show ?thesis by (rule queue.run_effects [OF step queue_default_inv run_ok_True e])
  qed
  then show ?thesis using i c r by (auto simp: queue_inv_def list_all_iff)
qed

section \<open>The list of held nodes\<close>

fun is_leave :: "('m, 'f) queue_call \<Rightarrow> bool" where
  "is_leave (QLeave held) = True"
| "is_leave call = False"

text \<open>What is known of a list that was left behind \<open>earlier\<close>, when \<open>since\<close> were taken after it.\<close>

definition list_inv ::
  "'m \<Rightarrow> ('m, 'f) outgoing list \<Rightarrow> ('m, 'f) outgoing list \<Rightarrow> 'm list \<Rightarrow> ('m, 'f) queue \<Rightarrow> bool" where
  "list_inv held earlier since sent q \<longleftrightarrow>
     qu_held_behind q \<le> length (qu_items q) \<and>
     subseq (take (qu_held_behind q) (qu_items q)) earlier \<and>
     subseq (drop (qu_held_behind q) (qu_items q)) since \<and>
     (qu_held q = Some held \<and> sent = [] \<or> qu_held q = None \<and> sent = [held] \<and> qu_held_behind q = 0)"

lemma remove_at_take_drop:
  assumes "i < length xs" and "n \<le> length xs"
  shows "i < n \<Longrightarrow> take (n - Suc 0) (remove_at i xs) = remove_at i (take n xs)"
    and "i < n \<Longrightarrow> drop (n - Suc 0) (remove_at i xs) = drop n xs"
    and "\<not> i < n \<Longrightarrow> take n (remove_at i xs) = take n xs"
    and "\<not> i < n \<Longrightarrow> drop n (remove_at i xs) = remove_at (i - n) (drop n xs)"
proof -
  obtain as b cs where s: "xs = as @ b # cs" "remove_at i xs = as @ cs" "length as = i"
    using remove_at_split [OF assms(1)] by blast
  show "take (n - Suc 0) (remove_at i xs) = remove_at i (take n xs)" "drop (n - Suc 0) (remove_at i xs) = drop n xs"
    if "i < n"
  proof -
    obtain k where k: "n = Suc (i + k)" using \<open>i < n\<close> less_iff_Suc_add by blast
    show "take (n - Suc 0) (remove_at i xs) = remove_at i (take n xs)"
      unfolding s(2) unfolding s(1) k using s(3) by (simp add: remove_at_def)
    show "drop (n - Suc 0) (remove_at i xs) = drop n xs"
      unfolding s(2) unfolding s(1) k using s(3) by simp
  qed
  show "take n (remove_at i xs) = take n xs" "drop n (remove_at i xs) = remove_at (i - n) (drop n xs)"
    if "\<not> i < n"
  proof -
    show "take n (remove_at i xs) = take n xs"
      unfolding s(2) unfolding s(1) using s(3) that by simp
    have d: "drop n xs = drop n as @ b # cs" unfolding s(1) using s(3) that by simp
    have "remove_at (i - n) (drop n xs) = drop n as @ cs"
      unfolding d using s(3) by (simp add: remove_at_def)
    then show "drop n (remove_at i xs) = remove_at (i - n) (drop n xs)"
      unfolding s(2) using s(3) that by simp
  qed
qed

lemma list_inv_remove:
  assumes "list_inv held earlier since sent q" and "i < length (qu_items q)"
  shows "list_inv held earlier since sent (queue_remove i q)"
proof (cases "i < qu_held_behind q")
  case True
  have n: "qu_held_behind q \<le> length (qu_items q)" using assms(1) by (simp add: list_inv_def)
  have "subseq (remove_at i (take (qu_held_behind q) (qu_items q))) earlier"
    using assms True n subseq_remove_at [of i "take (qu_held_behind q) (qu_items q)"]
    by (auto simp: list_inv_def intro: subseq_order.trans)
  then show ?thesis
    using assms True n by (auto simp: list_inv_def queue_remove_def Let_def length_remove_at remove_at_take_drop)
next
  case False
  have n: "qu_held_behind q \<le> length (qu_items q)" using assms(1) by (simp add: list_inv_def)
  have "i - qu_held_behind q < length (drop (qu_held_behind q) (qu_items q))" using assms(2) False by auto
  then have "subseq (remove_at (i - qu_held_behind q) (drop (qu_held_behind q) (qu_items q))) since"
    using assms(1) subseq_remove_at [of "i - qu_held_behind q" "drop (qu_held_behind q) (qu_items q)"]
    by (auto simp: list_inv_def intro: subseq_order.trans)
  then show ?thesis
    using assms False n by (auto simp: list_inv_def queue_remove_def Let_def length_remove_at remove_at_take_drop)
qed

lemma list_inv_push:
  assumes "list_inv held earlier since sent q" and "queue_push item WRITER_CAPACITY q = (q2, e)"
  shows "list_inv held earlier (since @ (if e = None then [item] else [])) sent q2"
proof (cases rule: queue_push_cases [of item WRITER_CAPACITY q])
  case (taken q')
  have "list_inv held earlier since sent q'" using taken(2) assms(1) list_inv_remove [OF assms(1)] by auto
  then show ?thesis using taken(1) assms(2) by (auto simp: list_inv_def)
next
  case (refused q')
  then show ?thesis using assms list_inv_remove [OF assms(1)] by auto
qed

lemma list_inv_write:
  assumes "list_inv held earlier since sent q"
  shows "list_inv held earlier since (sent @ all_of carried (snd (queue_step tc put_message q QWrite)))
    (fst (queue_step tc put_message q QWrite))"
proof (cases rule: queue_write_cases [of q tc put_message])
  case none
  then show ?thesis using assms by simp
next
  case (one item items q' put)
  have h: "qu_held q' = qu_held q \<or> qu_held q' = None \<and> qu_held_behind q - 1 = 0"
    using one(2) by (auto simp: queue_encode_def Let_def split: sum.splits option.splits if_splits)
  have "subseq (take (qu_held_behind q - 1) items) earlier" "subseq (drop (qu_held_behind q - 1) items) since"
    using assms one(1) by (cases "qu_held_behind q"; auto simp: list_inv_def dest: subseq_Cons')+
  then show ?thesis using assms one h by (auto simp: list_inv_def)
qed

lemma list_inv_run:
  assumes "list_inv held earlier since sent q" and "list_all (\<lambda>c. \<not> is_leave c) calls"
  shows "list_inv held earlier (since @ all_of accepted (snd (run (queue_step tc put_message) q calls)))
    (sent @ all_of carried (snd (run (queue_step tc put_message) q calls)))
    (fst (run (queue_step tc put_message) q calls))"
  using assms
proof (induction calls arbitrary: q since sent)
  case (Cons call calls)
  let ?q = "fst (queue_step tc put_message q call)" and ?es = "snd (queue_step tc put_message q call)"
  have "list_inv held earlier (since @ all_of accepted ?es) (sent @ all_of carried ?es) ?q"
  proof (cases call)
    case (QPush item)
    obtain q2 e where p: "queue_push item WRITER_CAPACITY q = (q2, e)" by fastforce
    show ?thesis using list_inv_push [OF Cons.prems(1) p] p QPush by (cases e) simp_all
  next
    case QWrite
    then show ?thesis
      using list_inv_write [OF Cons.prems(1), of tc put_message]
      by (cases rule: queue_write_cases [of q tc put_message]) auto
  next
    case (QLeave h)
    then show ?thesis using Cons.prems(2) by simp
  qed
  then show ?case using Cons.IH Cons.prems(2) by fastforce
qed simp


type_synonym sample_command = "(unit, unit, unit) core_to_outpost"

definition sample_put :: "sample_command \<Rightarrow> u8 list io_result" where
  "sample_put command = Inr [1]"

definition sample_ping :: "(sample_command, unit routed_fact) outgoing" where
  "sample_ping = OutPing (Ping 1 0)"


section \<open>A fact that finds the queue over its bound\<close>

text \<open>
  Pings and the other commands that always get through can take the queue past its bound. A fact
  then still takes out the waiting fact it would replace, and is itself declined, so neither is sent,
  where the policy means the newest facts to survive.
\<close>

lemma replaced_and_declined:
  assumes "capacity < length (qu_items q)" and "same_fact key (qu_items q) = Some i"
  shows "queue_push (OutFact key routed received) capacity q = (queue_remove i q, Some Full)"
  using assms same_fact_Some [OF assms(2)]
  by (auto simp: queue_push_def make_room_def Let_def length_remove_at)

lemma push_pings:
  "run (queue_step tc put_message) q (replicate n (QPush (OutPing command))) =
     (q\<lparr>qu_items := qu_items q @ replicate n (OutPing command)\<rparr>, replicate n (Accepted (OutPing command)))"
  by (induction n arbitrary: q) (simp_all add: run.simps queue_push_def)

definition over_bound :: "('m, 'f) to_child \<Rightarrow> ('m \<Rightarrow> u8 list io_result) \<Rightarrow> (nat \<Rightarrow> u64) \<Rightarrow> fact_key \<Rightarrow> 'f \<Rightarrow> 'm \<Rightarrow> ('m, 'f) queue" where
  "over_bound tc put_message clock key routed command =
     fst (run (queue_step tc put_message) (queue_default clock)
       (QPush (OutFact (Some key) routed 0) # replicate WRITER_CAPACITY (QPush (OutPing command))))"

lemma over_bound_items:
  "qu_items (over_bound tc put_message clock key routed command) =
     OutFact (Some key) routed 0 # replicate WRITER_CAPACITY (OutPing command)"
proof -
  have "queue_step tc put_message (queue_default clock) (QPush (OutFact (Some key) routed 0)) =
      ((queue_default clock)\<lparr>qu_items := [OutFact (Some key) routed 0]\<rparr>, [Accepted (OutFact (Some key) routed 0)])"
    by (simp add: queue_push_def make_room_def same_fact_def rposition_of_def queue_default_def WRITER_CAPACITY_def)
  then show ?thesis by (simp add: over_bound_def push_pings)
qed

theorem both_facts_lost:
  "queue_step tc put_message (over_bound tc put_message clock key routed command) (QPush (OutFact (Some key) newer received)) =
     (queue_remove 0 (over_bound tc put_message clock key routed command), [Declined (OutFact (Some key) newer received)]) \<and>
   filter is_fact (qu_items (queue_remove 0 (over_bound tc put_message clock key routed command))) = []"
proof -
  let ?q = "over_bound tc put_message clock key routed command"
  have "rposition_of is_idle_query (qu_items ?q) = None"
    by (auto simp: rposition_of_None over_bound_items)
  then have s: "same_fact (Some key) (qu_items ?q) = Some 0"
    by (simp add: same_fact_def over_bound_items)
  have "queue_push (OutFact (Some key) newer received) WRITER_CAPACITY ?q = (queue_remove 0 ?q, Some Full)"
    by (rule replaced_and_declined [OF _ s]) (simp add: over_bound_items)
  then show ?thesis by (simp add: over_bound_items remove_at_def)
qed

section \<open>The writer never stops\<close>

text \<open>
  C11. A child's writer never stops, whatever the pipe answers and in whatever order the relay and the
  reducer call it: every call returns, and no write is started while one is in flight; nothing waits
  while no write is in flight; the pipe is let go of exactly when the writer is closed and everything
  taken is written, and at once when a write failed.
\<close>

theorem writer_never_stuck:
  fixes tc :: "('m, 'f) to_child"
  assumes "calls_ok (queue_ops tc put_message) queue_waits pipe calls (sender_make (queue_default clock) own_thread)"
  shows "\<exists>w. sender_run (queue_ops tc put_message) pipe calls (sender_make (queue_default clock) own_thread) = Some w \<and>
    (\<not> sn_in_flight w \<longrightarrow> qu_items (sn_backlog w) = []) \<and>
    (is_finished w \<longleftrightarrow> sn_closed w \<and> \<not> sn_in_flight w) \<and> (sn_failed w \<longrightarrow> is_finished w)"
proof -
  let ?q = "queue_default clock :: ('m, 'f) queue"
  have "queue_waits ?q = 0" by (simp add: queue_waits_def queue_default_def)
  then have "writer.sender_inv (sender_make ?q own_thread)" by (rule writer.make_inv)
  then obtain w where "sender_run (queue_ops tc put_message) pipe calls (sender_make (queue_default clock) own_thread) = Some w"
    "writer.sender_inv w"
    using writer.run_some assms by blast
  then show ?thesis
    by (auto simp: writer.sender_inv_def writer.drained_def writer.may_drain_def queue_waits_def is_finished_def)
qed

text \<open>Two pings, the first write in flight until it completes, and then the close.\<close>

definition sample_pipe :: pipe_answers where
  "sample_pipe written bytes = (if written = [] then WPending else WDone (length bytes))"

abbreviation sample_ops :: "((sample_command, unit routed_fact) queue, (sample_command, unit routed_fact) outgoing, queue_error) backlog_ops" where
  "sample_ops \<equiv> queue_ops outpost_child sample_put"

definition sample_calls :: "((sample_command, unit routed_fact) queue, (sample_command, unit routed_fact) outgoing) sender_call list" where
  "sample_calls = [Send sample_ping, Complete (WOwn (Inr 1)), Close]"

lemma sample_pending:
  "sender_step sample_ops sample_pipe (Send sample_ping) (sender_make (queue_default (\<lambda>n. 5)) False) =
     Some \<lparr>sn_backlog = queue_default (\<lambda>n. 5), sn_in_flight = True, sn_pipe = True, sn_closed = False, sn_failed = False,
           sn_own_thread = False, sn_written = [[1]], sn_woken = 0\<rparr>"
  by (simp add: send_def queue_ops_def queue_push_def sample_ping_def sender_make_def queue_default_def send_settled_def settle_def
      finished_def sender_drain.simps [where s = "\<lparr>sn_backlog = _, sn_in_flight = _, sn_pipe = _, sn_closed = _, sn_failed = _,
           sn_own_thread = _, sn_written = _, sn_woken = _\<rparr>"] queue_pop_def sender_write_def queue_encode_def sample_put_def
      write_with_def sample_pipe_def sender_started_def Let_def comp_def)

theorem writer_never_stuck_witness:
  "calls_ok sample_ops queue_waits sample_pipe sample_calls (sender_make (queue_default (\<lambda>n. 5)) False) \<and>
   (\<exists>w. sender_run sample_ops sample_pipe sample_calls (sender_make (queue_default (\<lambda>n. 5)) False) = Some w \<and>
      (is_finished w \<longleftrightarrow> sn_closed w \<and> \<not> sn_in_flight w))"
proof -
  have "calls_ok sample_ops queue_waits sample_pipe sample_calls (sender_make (queue_default (\<lambda>n. 5)) False)"
    unfolding sample_calls_def
    by (simp add: sample_pending call_ok_def split: option.split del: sender_step.simps)
  then show ?thesis using writer_never_stuck by blast
qed

end
