(* ===== verification/Listener_Backlog.thy ===== *)
theory Listener_Backlog
  imports Pipe_Sender Protocol Machines Indices "HOL-Library.Sublist"
begin

text \<open>
  What the listener sends Core, \<open>Waiting\<close> of \<^verbatim>\<open>verbatim-listener/src/listener.rs\<close>: the backlog of its
  sender, with urgent messages first, then facts, one for each key, and then the end of a menu. The
  rule of the hand-over of \<open>WinEvent\<close>s to an outpost is judged here: once "forwarding ended" is queued
  for an application, none of its events raised later is.

  The facts' trees are a parameter \<open>'x\<close>, as in the protocol, and \<open>put_message\<close>, the frame of a
  message, is one too; the clock's readings are an input kept with the queue.
\<close>

section \<open>The messages\<close>

datatype 'x listener_to_core =
    ListenerReady pid pid
  | FocusFact trace_id event_timing "pid \<times> 'x delivered_fact" "win_event_stamp option"
  | ListenerForwardingEnded pid outpost_id u32
  | MenuOrSwitchEnded u64 event_timing
  | ListenerForeground isize isize u32 u64 u32 bool "u32 option"
  | ListenerPong u64 usize u64
  | ListenerFault string
  | ListenerIdleAnswer u64

fun listener_written :: "u64 \<Rightarrow> 'x listener_to_core \<Rightarrow> 'x listener_to_core" where
  "listener_written at_us (FocusFact trace_id timing routed win_event) =
     FocusFact trace_id (timing\<lparr>listener_written_at_us := at_us\<rparr>) routed win_event"
| "listener_written at_us (MenuOrSwitchEnded ended_at_us timing) =
     MenuOrSwitchEnded ended_at_us (timing\<lparr>listener_written_at_us := at_us\<rparr>)"
| "listener_written at_us (ListenerPong sequence parked_count earlier_us) = ListenerPong sequence parked_count at_us"
| "listener_written at_us message = message"

type_synonym listener_key = "pid \<times> fact_key"

datatype 'x sent =
    SentUrgent "'x listener_to_core"
  | SentFact "listener_key option" "'x listener_to_core" "(pid \<times> win_event_stamp) option"
  | SentForwardingEnded pid outpost_id u32
  | SentMenuEnd "'x listener_to_core"
  | SentIdleAnswer u64
  | SentMessage "'x listener_to_core"

section \<open>What waits\<close>

record 'x waiting_messages =
  wm_urgent :: "'x listener_to_core list"
  wm_facts :: "(listener_key option \<times> 'x listener_to_core) list"
  wm_menu_end :: "'x listener_to_core option"
  wm_hooked :: "pid \<Rightarrow> u32 option"
  wm_clock :: "nat \<Rightarrow> u64"

definition waiting_default :: "(nat \<Rightarrow> u64) \<Rightarrow> 'x waiting_messages" where
  "waiting_default clock =
     \<lparr>wm_urgent = [], wm_facts = [], wm_menu_end = None, wm_hooked = (\<lambda>_. None), wm_clock = clock\<rparr>"

fun is_idle_answer :: "'x listener_to_core \<Rightarrow> bool" where
  "is_idle_answer (ListenerIdleAnswer turn) = True"
| "is_idle_answer message = False"

text \<open>The loop that takes out the facts of a key, from an index on.\<close>

function coalesce ::
  "listener_key \<Rightarrow> nat \<Rightarrow> (listener_key option \<times> 'x listener_to_core) list \<Rightarrow>
     (listener_key option \<times> 'x listener_to_core) list" where
  "coalesce key index facts =
     (if index < length facts
      then if fst (facts ! index) = Some key
           then coalesce key index (take index facts @ drop (Suc index) facts)
           else coalesce key (Suc index) facts
      else facts)"
  by pat_completeness auto
termination
  by (relation "measure (\<lambda>(key, index, facts). length facts - index)") auto

declare coalesce.simps [simp del]

text \<open>Whether a \<open>WinEvent\<close>'s fact is its application's outpost's to take in by now.\<close>

definition handed_over :: "(pid \<times> win_event_stamp) option \<Rightarrow> 'x waiting_messages \<Rightarrow> bool" where
  "handed_over win_event w \<longleftrightarrow>
     (case win_event of
        Some (pid, event_stamp) \<Rightarrow>
          (case wm_hooked w pid of Some through \<Rightarrow> raised_after event_stamp through | None \<Rightarrow> False)
      | None \<Rightarrow> False)"

definition push_fact ::
  "listener_key option \<Rightarrow> 'x listener_to_core \<Rightarrow> (pid \<times> win_event_stamp) option \<Rightarrow> 'x waiting_messages \<Rightarrow>
     'x waiting_messages" where
  "push_fact key message win_event w =
     (if handed_over win_event w then w
      else
        let facts = (case key of
                       Some key \<Rightarrow> coalesce key (after_last (is_idle_answer \<circ> snd) (wm_facts w)) (wm_facts w)
                     | None \<Rightarrow> wm_facts w)
        in w\<lparr>wm_facts := facts @ [(key, message)]\<rparr>)"

fun waiting_push :: "'x sent \<Rightarrow> 'x waiting_messages \<Rightarrow> 'x waiting_messages" where
  "waiting_push (SentUrgent message) w = w\<lparr>wm_urgent := wm_urgent w @ [message]\<rparr>"
| "waiting_push (SentMessage message) w = w\<lparr>wm_urgent := wm_urgent w @ [message]\<rparr>"
| "waiting_push (SentFact key message win_event) w = push_fact key message win_event w"
| "waiting_push (SentForwardingEnded pid outpost through) w =
     w\<lparr>wm_hooked := (wm_hooked w)(pid \<mapsto> through),
       wm_facts := wm_facts w @ [(None, ListenerForwardingEnded pid outpost through)]\<rparr>"
| "waiting_push (SentMenuEnd message) w = w\<lparr>wm_menu_end := Some message\<rparr>"
| "waiting_push (SentIdleAnswer turn) w =
     (let facts = (case wm_menu_end w of Some menu_end \<Rightarrow> wm_facts w @ [(None, menu_end)] | None \<Rightarrow> wm_facts w)
      in w\<lparr>wm_menu_end := None, wm_facts := facts @ [(None, ListenerIdleAnswer turn)]\<rparr>)"

definition waiting_pop :: "'x waiting_messages \<Rightarrow> 'x waiting_messages \<times> 'x sent option" where
  "waiting_pop w =
     (case wm_urgent w of
        message # urgent \<Rightarrow> (w\<lparr>wm_urgent := urgent\<rparr>, Some (SentMessage message))
      | [] \<Rightarrow>
          case wm_facts w of
            (key, message) # facts \<Rightarrow> (w\<lparr>wm_facts := facts\<rparr>, Some (SentMessage message))
          | [] \<Rightarrow>
              case wm_menu_end w of
                Some message \<Rightarrow> (w\<lparr>wm_menu_end := None\<rparr>, Some (SentMessage message))
              | None \<Rightarrow> (w, None))"

definition waiting_is_empty :: "'x waiting_messages \<Rightarrow> bool" where
  "waiting_is_empty w \<longleftrightarrow> wm_urgent w = [] \<and> wm_facts w = [] \<and> wm_menu_end w = None"

fun sent_message :: "'x sent \<Rightarrow> 'x listener_to_core" where
  "sent_message (SentUrgent message) = message"
| "sent_message (SentMessage message) = message"
| "sent_message (SentFact key message win_event) = message"
| "sent_message (SentMenuEnd message) = message"
| "sent_message (SentIdleAnswer turn) = ListenerIdleAnswer turn"
| "sent_message (SentForwardingEnded pid outpost through) = ListenerForwardingEnded pid outpost through"

definition waiting_encode ::
  "('x listener_to_core \<Rightarrow> u8 list io_result) \<Rightarrow> 'x waiting_messages \<Rightarrow> 'x sent \<Rightarrow>
     'x waiting_messages \<times> u8 list io_result" where
  "waiting_encode put_message w item =
     (w\<lparr>wm_clock := wm_clock w \<circ> Suc\<rparr>, put_message (listener_written (wm_clock w 0) (sent_message item)))"

text \<open>The listener's backlog refuses nothing.\<close>

definition waiting_ops ::
  "('x listener_to_core \<Rightarrow> u8 list io_result) \<Rightarrow> ('x waiting_messages, 'x sent, unit) backlog_ops" where
  "waiting_ops put_message =
     \<lparr>bl_push = (\<lambda>w item. (waiting_push item w, None)),
      bl_pop = waiting_pop,
      bl_is_empty = waiting_is_empty,
      bl_encode = waiting_encode put_message\<rparr>"

section \<open>The listener's calls\<close>

text \<open>
  \<open>Outgoing\<close>'s calls: an urgent message, a fact (\<open>queue\<close>), a window that came to the front
  (\<open>foreground\<close>), \<open>hook_installed\<close> and \<open>hook_removed\<close>, and what the menu's grace sends; and the write of
  what waits first. \<open>ignored\<close> are the processes whose facts are not sent.
\<close>

definition sent_fact ::
  "u64 \<Rightarrow> pid \<Rightarrow> 'x delivered_fact \<Rightarrow> trace_id \<Rightarrow> event_timing \<Rightarrow> win_event_stamp option \<Rightarrow> 'x sent" where
  "sent_fact now pid routed trace_id timing win_event =
     (let timing = (if listener_handled_at_us timing = 0 then timing\<lparr>listener_handled_at_us := now\<rparr> else timing)
      in SentFact (map_option (Pair pid) (delivered_key routed win_event))
           (FocusFact trace_id timing (pid, routed) win_event)
           (map_option (Pair pid) win_event))"

definition hook_removed :: "pid \<Rightarrow> 'x waiting_messages \<Rightarrow> 'x waiting_messages" where
  "hook_removed pid w = w\<lparr>wm_hooked := (wm_hooked w)(pid := None)\<rparr>"

datatype 'x listener_call =
    SendUrgent "'x listener_to_core"
  | QueueFact u64 pid "'x delivered_fact" trace_id event_timing "win_event_stamp option"
  | SendForeground isize isize u32 u64 u32 bool "u32 option"
  | HookInstalled pid outpost_id u32
  | HookRemoved pid
  | SendMenuEnd u64 event_timing
  | SendIdleAnswer u64
  | WriteNext

fun call_item :: "(pid \<Rightarrow> bool) \<Rightarrow> 'x listener_call \<Rightarrow> 'x sent option" where
  "call_item ignored (SendUrgent message) = Some (SentUrgent message)"
| "call_item ignored (QueueFact now pid routed trace_id timing win_event) =
     (if ignored pid then None else Some (sent_fact now pid routed trace_id timing win_event))"
| "call_item ignored (SendForeground window root_owner process observed thread console integrity) =
     Some (SentFact None (ListenerForeground window root_owner process observed thread console integrity) None)"
| "call_item ignored (HookInstalled pid outpost through) = Some (SentForwardingEnded pid outpost through)"
| "call_item ignored (SendMenuEnd ended_at_us timing) = Some (SentMenuEnd (MenuOrSwitchEnded ended_at_us timing))"
| "call_item ignored (SendIdleAnswer turn) = Some (SentIdleAnswer turn)"
| "call_item ignored call = None"

type_synonym 'x listener_entry = "listener_key option \<times> 'x listener_to_core"

text \<open>What a push adds behind the facts that wait.\<close>

fun queued :: "'x sent \<Rightarrow> 'x waiting_messages \<Rightarrow> 'x listener_entry list" where
  "queued (SentFact key message win_event) w = (if handed_over win_event w then [] else [(key, message)])"
| "queued (SentForwardingEnded pid outpost through) w = [(None, ListenerForwardingEnded pid outpost through)]"
| "queued (SentIdleAnswer turn) w =
     (case wm_menu_end w of Some menu_end \<Rightarrow> [(None, menu_end)] | None \<Rightarrow> []) @ [(None, ListenerIdleAnswer turn)]"
| "queued item w = []"

datatype 'x listener_effect =
    Queued "'x listener_entry"
  | WroteUrgent "'x listener_to_core"
  | WroteFact "'x listener_entry"
  | WroteMenuEnd "'x listener_to_core"

definition wrote_next :: "'x waiting_messages \<Rightarrow> 'x listener_effect list" where
  "wrote_next w =
     (case wm_urgent w of
        message # urgent \<Rightarrow> [WroteUrgent message]
      | [] \<Rightarrow>
          case wm_facts w of
            entry # facts \<Rightarrow> [WroteFact entry]
          | [] \<Rightarrow> (case wm_menu_end w of Some message \<Rightarrow> [WroteMenuEnd message] | None \<Rightarrow> []))"

fun listener_step ::
  "(pid \<Rightarrow> bool) \<Rightarrow> 'x waiting_messages \<Rightarrow> 'x listener_call \<Rightarrow> 'x waiting_messages \<times> 'x listener_effect list" where
  "listener_step ignored w WriteNext = (fst (waiting_pop w), wrote_next w)"
| "listener_step ignored w (HookRemoved pid) = (hook_removed pid w, [])"
| "listener_step ignored w call =
     (case call_item ignored call of
        None \<Rightarrow> (w, [])
      | Some item \<Rightarrow> (waiting_push item w, map Queued (queued item w)))"

fun queued_entry :: "'x listener_effect \<Rightarrow> 'x listener_entry list" where
  "queued_entry (Queued entry) = [entry]"
| "queued_entry e = []"

fun wrote_entry :: "'x listener_effect \<Rightarrow> 'x listener_entry list" where
  "wrote_entry (WroteFact entry) = [entry]"
| "wrote_entry e = []"

section \<open>What waits behind what\<close>

lemma coalesce_filter:
  "coalesce key i facts = take i facts @ filter (\<lambda>f. fst f \<noteq> Some key) (drop i facts)"
proof (induction key i facts rule: coalesce.induct)
  case (1 key i facts)
  show ?case
  proof (cases "i < length facts")
    case True
    have d: "drop i facts = facts ! i # drop (Suc i) facts" using True by (simp add: Cons_nth_drop_Suc)
    show ?thesis
    proof (cases "fst (facts ! i) = Some key")
      case True': True
      have "coalesce key i facts = coalesce key i (take i facts @ drop (Suc i) facts)"
        using True True' by (subst coalesce.simps) simp
      then show ?thesis using 1(1) [OF True True'] True True' d by simp
    next
      case False
      have "coalesce key i facts = coalesce key (Suc i) facts"
        using True False by (subst coalesce.simps) simp
      then show ?thesis using 1(2) [OF True False] True False d by (simp add: take_Suc_conv_app_nth)
    qed
  qed (subst coalesce.simps, simp)
qed

text \<open>What a push leaves of the facts that wait.\<close>

fun survivors :: "'x sent \<Rightarrow> 'x waiting_messages \<Rightarrow> 'x listener_entry list" where
  "survivors (SentFact (Some key) message win_event) w =
     (if handed_over win_event w then wm_facts w
      else coalesce key (after_last (is_idle_answer \<circ> snd) (wm_facts w)) (wm_facts w))"
| "survivors item w = wm_facts w"

lemma push_facts: "wm_facts (waiting_push item w) = survivors item w @ queued item w"
  by (cases "(item, w)" rule: survivors.cases)
    (auto simp: push_fact_def Let_def split: option.split)

lemma subseq_filter_append: "subseq (xs @ filter P ys) (xs @ ys)"
  by (simp add: list_emb_append_mono)

lemma survivors_cases:
  obtains "survivors item w = wm_facts w"
    | key message win_event n where "item = SentFact (Some key) message win_event" "\<not> handed_over win_event w"
      "survivors item w = take n (wm_facts w) @ filter (\<lambda>f. fst f \<noteq> Some key) (drop n (wm_facts w))"
      "n = after_last (is_idle_answer \<circ> snd) (wm_facts w)"
proof (cases "survivors item w = wm_facts w")
  case False
  then obtain key message win_event where "item = SentFact (Some key) message win_event" "\<not> handed_over win_event w"
    by (cases "(item, w)" rule: survivors.cases) (auto split: if_splits)
  then show thesis using that(2) by (simp add: coalesce_filter)
qed (use that(1) in simp)

lemma survivors_subseq: "subseq (survivors item w) (wm_facts w)"
proof (cases rule: survivors_cases [of item w])
  case (2 key message win_event n)
  then show ?thesis using subseq_filter_append [of "take n (wm_facts w)" _ "drop n (wm_facts w)"] by simp
qed simp

lemma survivors_keyless: "filter (\<lambda>e. fst e = None) (survivors item w) = filter (\<lambda>e. fst e = None) (wm_facts w)"
proof (cases rule: survivors_cases [of item w])
  case (2 key message win_event n)
  have "filter (\<lambda>e. fst e = None) (filter (\<lambda>f. fst f \<noteq> Some key) xs) = filter (\<lambda>e. fst e = None) xs"
    for xs :: "'a listener_entry list"
    by (auto intro!: filter_cong)
  then have "filter (\<lambda>e. fst e = None) (survivors item w) =
      filter (\<lambda>e. fst e = None) (take n (wm_facts w)) @ filter (\<lambda>e. fst e = None) (drop n (wm_facts w))"
    using 2(3) by simp
  also have "\<dots> = filter (\<lambda>e. fst e = None) (take n (wm_facts w) @ drop n (wm_facts w))"
    by (simp only: filter_append)
  finally show ?thesis by simp
qed simp

lemma map_of_rev_filter: "k \<noteq> c \<Longrightarrow> map_of (rev (filter (\<lambda>f. fst f \<noteq> c) xs)) k = map_of (rev xs) k"
  by (induction xs) (auto simp: map_add_def split: option.splits)

lemma survivors_latest:
  "map_of (rev (survivors item w @ queued item w)) (Some key) = map_of (rev (wm_facts w @ queued item w)) (Some key)"
proof (cases rule: survivors_cases [of item w])
  case (2 other message win_event n)
  show ?thesis
  proof (cases "key = other")
    case True
    then show ?thesis using 2(1,2) by simp
  next
    case False
    have "map_of (rev (survivors item w)) (Some key) = map_of (rev (take n (wm_facts w) @ drop n (wm_facts w))) (Some key)"
      using 2(3) map_of_rev_filter [of "Some key" "Some other" "drop n (wm_facts w)"] False
      by (simp add: map_add_def del: append_take_drop_id)
    then show ?thesis by (simp add: map_add_def cong: option.case_cong)
  qed
qed simp

text \<open>A mark among the facts, an entry without a key, keeps what is before it before it, and an idle
  answer keeps all of it.\<close>

lemma survivors_mark:
  assumes "wm_facts w = pre @ (None, mark) # post"
  shows "\<exists>pre' post'. survivors item w = pre' @ (None, mark) # post' \<and> subseq pre' pre \<and> subseq post' post \<and>
    (is_idle_answer mark \<longrightarrow> pre' = pre)"
proof (cases rule: survivors_cases [of item w])
  case 1
  then show ?thesis using assms by auto
next
  case (2 key message win_event n)
  let ?P = "\<lambda>f :: 'a listener_entry. fst f \<noteq> Some key"
  show ?thesis
  proof (cases "n \<le> length pre")
    case True
    have "survivors item w = (take n pre @ filter ?P (drop n pre)) @ (None, mark) # filter ?P post"
      using 2(3) assms True by simp
    moreover have "subseq (take n pre @ filter ?P (drop n pre)) pre"
      using subseq_filter_append [of "take n pre" ?P "drop n pre"] by simp
    moreover have "\<not> is_idle_answer mark"
      using 2(4) assms True after_last_split [of "is_idle_answer \<circ> snd" "(None, mark)" pre post] by auto
    ultimately show ?thesis by (metis subseq_filter_left)
  next
    case False
    then obtain m where m: "n = Suc (length pre) + m" by (metis add_Suc less_iff_Suc_add not_less)
    have "survivors item w = pre @ (None, mark) # (take m post @ filter ?P (drop m post))"
      using 2(3) assms m by simp
    moreover have "subseq (take m post @ filter ?P (drop m post)) post"
      using subseq_filter_append [of "take m post" ?P "drop m post"] by simp
    ultimately show ?thesis by blast
  qed
qed

section \<open>The steps\<close>

lemma pop_facts: "all_of wrote_entry (wrote_next w) @ wm_facts (fst (waiting_pop w)) = wm_facts w"
  by (auto simp: wrote_next_def waiting_pop_def split: list.split option.split)

lemma wrote_next_queued [simp]: "all_of queued_entry (wrote_next w) = []"
  by (auto simp: wrote_next_def split: list.split option.split)

lemma queued_effects [simp]:
  "all_of (wrote_entry \<circ> Queued) es = []" "all_of (queued_entry \<circ> Queued) es = es"
  by (induction es) auto

text \<open>A step writes the first fact, or pushes an item, or leaves the facts as they are.\<close>

lemma listener_step_cases:
  obtains (written) "call = WriteNext" "listener_step ignored w call = (fst (waiting_pop w), wrote_next w)"
    | (push) item where "call_item ignored call = Some item"
      "listener_step ignored w call = (waiting_push item w, map Queued (queued item w))"
    | (other) w' where "listener_step ignored w call = (w', [])" "wm_facts w' = wm_facts w" "wm_menu_end w' = wm_menu_end w"
      "\<And>pid. call \<noteq> HookRemoved pid \<Longrightarrow> wm_hooked w' pid = wm_hooked w pid"
proof (cases "call_item ignored call")
  case None
  show thesis
  proof (cases call)
    case (HookRemoved p)
    then show thesis using other [of "hook_removed p w"] by (simp add: hook_removed_def)
  next
    case WriteNext
    then show thesis using written by simp
  qed (use None other [of w] in auto)
next
  case (Some item)
  then show thesis using push by (cases call) auto
qed

lemma subseq_both: "subseq a b \<Longrightarrow> subseq (p @ a @ q) (p @ b @ q)"
  by (simp add: list_emb_append_mono)

text \<open>What was written and what waits, of everything that was queued.\<close>

definition kept_latest :: "'x listener_entry list \<Rightarrow> 'x listener_entry list \<Rightarrow> bool" where
  "kept_latest out every \<longleftrightarrow>
     subseq out every \<and>
     filter (\<lambda>e. fst e = None) out = filter (\<lambda>e. fst e = None) every \<and>
     (\<forall>key. map_of (rev out) (Some key) = map_of (rev every) (Some key))"

lemma kept_latest_push:
  assumes "kept_latest (out @ wm_facts w) all"
  shows "kept_latest (out @ survivors item w @ queued item w) (all @ queued item w)"
  unfolding kept_latest_def
proof (intro conjI allI)
  have "subseq (out @ survivors item w) (out @ wm_facts w)"
    using subseq_both [OF survivors_subseq, of out item w "[]"] by simp
  then have "subseq (out @ survivors item w) all"
    using assms by (auto simp: kept_latest_def intro: subseq_order.trans)
  then show "subseq (out @ survivors item w @ queued item w) (all @ queued item w)"
    using list_emb_append_mono [of "(=)" "out @ survivors item w" all "queued item w" "queued item w"] by simp
  show "filter (\<lambda>e. fst e = None) (out @ survivors item w @ queued item w) =
      filter (\<lambda>e. fst e = None) (all @ queued item w)"
    using assms by (simp add: kept_latest_def survivors_keyless)
  fix key
  have "map_of (rev (out @ survivors item w @ queued item w)) (Some key) =
      (map_of (rev out) ++ map_of (rev (survivors item w @ queued item w))) (Some key)"
    by simp
  also have "\<dots> = (map_of (rev out) ++ map_of (rev (wm_facts w @ queued item w))) (Some key)"
    using survivors_latest [of item w key] by (simp add: map_add_def)
  also have "\<dots> = (map_of (rev (out @ wm_facts w)) ++ map_of (rev (queued item w))) (Some key)"
    by simp
  also have "\<dots> = (map_of (rev all) ++ map_of (rev (queued item w))) (Some key)"
    using assms unfolding kept_latest_def map_add_def by (metis (no_types, lifting))
  finally show "map_of (rev (out @ survivors item w @ queued item w)) (Some key) =
      map_of (rev (all @ queued item w)) (Some key)" by simp
qed

lemma kept_latest_step:
  assumes "kept_latest (out @ wm_facts w) all" and "listener_step ignored w call = (w', es)"
  shows "kept_latest ((out @ all_of wrote_entry es) @ wm_facts w') (all @ all_of queued_entry es)"
proof (cases rule: listener_step_cases [of call ignored w])
  case written
  then show ?thesis using assms pop_facts [of w] by (auto simp: append_assoc)
next
  case (push item)
  then show ?thesis using assms(2) kept_latest_push [OF assms(1), of item] by (auto simp: push_facts)
next
  case (other w2)
  then show ?thesis using assms by simp
qed

interpretation listener_queue: queueing_machine "listener_step ignored" "\<lambda>_ _. True" "\<lambda>_. True" wm_facts
    wrote_entry queued_entry kept_latest for ignored
  by unfold_locales (simp, erule kept_latest_step, rule surjective_pairing)


section \<open>The hand-over\<close>

fun late :: "pid \<Rightarrow> u32 \<Rightarrow> 'x listener_entry \<Rightarrow> bool" where
  "late pid through (key, FocusFact trace_id timing (p, routed) (Some event_stamp)) \<longleftrightarrow>
     p = pid \<and> raised_after event_stamp through"
| "late pid through entry \<longleftrightarrow> False"

fun hands_over :: "pid \<Rightarrow> 'x listener_call \<Rightarrow> bool" where
  "hands_over pid (HookInstalled p outpost through) \<longleftrightarrow> p = pid"
| "hands_over pid (HookRemoved p) \<longleftrightarrow> p = pid"
| "hands_over pid call \<longleftrightarrow> False"

text \<open>A menu's end is the only thing the slot for one ever holds.\<close>

definition end_inv :: "'x waiting_messages \<Rightarrow> bool" where
  "end_inv w \<longleftrightarrow> (\<forall>message. wm_menu_end w = Some message \<longrightarrow> (\<exists>at_us timing. message = MenuOrSwitchEnded at_us timing))"

definition mark_inv ::
  "'x listener_to_core \<Rightarrow> ('x listener_entry \<Rightarrow> bool) \<Rightarrow> 'x listener_entry list \<Rightarrow> 'x listener_entry list \<Rightarrow> bool" where
  "mark_inv mark late_entry before out \<longleftrightarrow>
     (\<exists>pre post. out = pre @ (None, mark) # post \<and> subseq pre before \<and> list_all (\<lambda>e. \<not> late_entry e) post \<and>
        (is_idle_answer mark \<longrightarrow> pre = before))"

lemma list_all_subseq: "subseq xs ys \<Longrightarrow> list_all P ys \<Longrightarrow> list_all P xs"
  by (auto simp: list_all_iff dest: list_emb_set)

lemma mark_inv_push:
  assumes "mark_inv mark late_entry before (out @ wm_facts w)" and "list_all (\<lambda>e. \<not> late_entry e) (queued item w)"
  shows "mark_inv mark late_entry before (out @ survivors item w @ queued item w)"
proof -
  obtain pre post where o: "out @ wm_facts w = pre @ (None, mark) # post" "subseq pre before"
    "list_all (\<lambda>e. \<not> late_entry e) post" "is_idle_answer mark \<longrightarrow> pre = before"
    using assms(1) by (auto simp: mark_inv_def)
  show ?thesis
  proof (cases "length out \<le> length pre")
    case True
    then obtain pre2 where p: "pre = out @ pre2" "wm_facts w = pre2 @ (None, mark) # post"
      using o(1) by (auto simp: append_eq_append_conv2 dest: arg_cong [of _ _ length])
    obtain pre' post' where s: "survivors item w = pre' @ (None, mark) # post'" "subseq pre' pre2" "subseq post' post"
      "is_idle_answer mark \<longrightarrow> pre' = pre2"
      using survivors_mark [OF p(2)] by blast
    have "subseq (out @ pre') before"
      using subseq_both [OF s(2), of out "[]"] o(2) p(1) by (auto intro: subseq_order.trans)
    then show ?thesis
      using s o(3,4) p(1) assms(2) list_all_subseq [OF s(3)] unfolding mark_inv_def
      by (intro exI [of _ "out @ pre'"] exI [of _ "post' @ queued item w"]) auto
  next
    case False
    then obtain out1 where "out = pre @ out1" "out1 @ wm_facts w = (None, mark) # post" "out1 \<noteq> []"
      using o(1) by (auto simp: append_eq_append_conv2 dest: arg_cong [of _ _ length])
    then obtain out2 where p: "out = pre @ (None, mark) # out2" "post = out2 @ wm_facts w"
      by (cases out1) auto
    have "list_all (\<lambda>e. \<not> late_entry e) (survivors item w)"
      using list_all_subseq [OF survivors_subseq] o(3) p(2) by auto
    then show ?thesis
      using o(2-4) p assms(2) unfolding mark_inv_def
      by (intro exI [of _ pre] exI [of _ "out2 @ survivors item w @ queued item w"]) auto
  qed
qed

lemma mark_inv_step:
  assumes "mark_inv mark late_entry before (out @ wm_facts w)" and "listener_step ignored w call = (w', es)"
    and "\<And>item. call_item ignored call = Some item \<Longrightarrow> list_all (\<lambda>e. \<not> late_entry e) (queued item w)"
  shows "mark_inv mark late_entry before ((out @ all_of wrote_entry es) @ wm_facts w')"
proof (cases rule: listener_step_cases [of call ignored w])
  case written
  then show ?thesis using assms pop_facts [of w] by (auto simp: append_assoc)
next
  case (push item)
  then show ?thesis using assms(2) mark_inv_push [OF assms(1) assms(3) [OF push(1)]] by (auto simp: push_facts)
next
  case (other w2)
  then show ?thesis using assms by simp
qed

lemma mark_inv_run:
  assumes "mark_inv mark late_entry before (out @ wm_facts w)" and "good w"
    and "list_all ok calls"
    and "\<And>w call item. good w \<Longrightarrow> ok call \<Longrightarrow> call_item ignored call = Some item \<Longrightarrow>
      list_all (\<lambda>e. \<not> late_entry e) (queued item w)"
    and "\<And>w call. good w \<Longrightarrow> ok call \<Longrightarrow> good (fst (listener_step ignored w call))"
  shows "mark_inv mark late_entry before
    ((out @ all_of wrote_entry (snd (run (listener_step ignored) w calls))) @ wm_facts (fst (run (listener_step ignored) w calls)))"
  using assms(1-3)
proof (induction calls arbitrary: w out)
  case (Cons call calls)
  let ?w = "fst (listener_step ignored w call)" and ?es = "snd (listener_step ignored w call)"
  have "mark_inv mark late_entry before ((out @ all_of wrote_entry ?es) @ wm_facts ?w)"
    using mark_inv_step [OF Cons.prems(1), of ignored call ?w ?es] assms(4) Cons.prems by auto
  moreover have "good ?w" using assms(5) Cons.prems by simp
  ultimately show ?case using Cons.IH [of "out @ all_of wrote_entry ?es" ?w] Cons.prems(3) by simp
qed simp

text \<open>The hand-over's rule for an application as it stands between its hook's coming and going.\<close>

definition handing :: "pid \<Rightarrow> u32 \<Rightarrow> 'x waiting_messages \<Rightarrow> bool" where
  "handing pid through w \<longleftrightarrow> wm_hooked w pid = Some through \<and> end_inv w"

lemma pop_keeps: "wm_hooked (fst (waiting_pop w)) = wm_hooked w"
  "wm_menu_end (fst (waiting_pop w)) = wm_menu_end w \<or> wm_menu_end (fst (waiting_pop w)) = None"
  by (auto simp: waiting_pop_def split: list.split option.split)

lemma push_menu_end: "call_item ignored call = Some item \<Longrightarrow> end_inv w \<Longrightarrow> end_inv (waiting_push item w)"
  by (cases "(ignored, call)" rule: call_item.cases)
    (auto simp: end_inv_def sent_fact_def push_fact_def Let_def split: if_splits)

lemma push_hooked:
  "call_item ignored call = Some item \<Longrightarrow> \<not> hands_over pid call \<Longrightarrow> wm_hooked (waiting_push item w) pid = wm_hooked w pid"
  by (cases "(ignored, call)" rule: call_item.cases)
    (auto simp: sent_fact_def push_fact_def Let_def split: if_splits)

lemma end_inv_step: "end_inv w \<Longrightarrow> end_inv (fst (listener_step ignored w call))"
  using pop_keeps(2) [of w] push_menu_end [of ignored call _ w]
  by (cases rule: listener_step_cases [of call ignored w]) (auto simp: end_inv_def)

interpretation menu_ends: invariant_machine "listener_step ignored" "\<lambda>_ _. True" end_inv for ignored
  by unfold_locales (rule end_inv_step)

lemma handing_step:
  assumes "handing pid through w" and "\<not> hands_over pid call"
  shows "handing pid through (fst (listener_step ignored w call))"
proof -
  have "wm_hooked (fst (listener_step ignored w call)) pid = wm_hooked w pid"
  proof (cases rule: listener_step_cases [of call ignored w])
    case (other w')
    have "call \<noteq> HookRemoved pid" using assms(2) by auto
    then show ?thesis using other by simp
  qed (use assms(2) pop_keeps(1) [of w] push_hooked [of ignored call _ pid w] in auto)
  then show ?thesis using assms(1) end_inv_step [of w ignored call] by (simp add: handing_def)
qed

lemma handing_queued:
  assumes "handing pid through w" and "call_item ignored call = Some item"
  shows "list_all (\<lambda>e. \<not> late pid through e) (queued item w)"
  using assms
  by (cases "(ignored, call)" rule: call_item.cases)
    (auto simp: handing_def end_inv_def sent_fact_def Let_def handed_over_def split: if_splits option.splits)


definition sample_timing :: event_timing where
  "sample_timing = timing_default\<lparr>observed_at_us := 1, listener_handled_at_us := 1\<rparr>"

text \<open>A fact raised at tick 9 before the hook came, and one raised at tick 11 after it.\<close>

definition sample_foreground :: "u32 \<Rightarrow> unit listener_call" where
  "sample_foreground tick =
     QueueFact 1 7 (ForegroundFact 3) 1 sample_timing (Some \<lparr>we_thread = 2, we_time = tick\<rparr>)"


text \<open>The idle barrier's answer is behind everything that waited, menu's end included, and what comes
  after it takes nothing of that away.\<close>

lemma idle_answer_behind:
  "let (w, es) = run (listener_step ignored) (fst (listener_step ignored w0 (SendIdleAnswer turn))) later
   in \<exists>post. all_of wrote_entry es @ wm_facts w =
        wm_facts w0 @ (case wm_menu_end w0 of Some menu_end \<Rightarrow> [(None, menu_end)] | None \<Rightarrow> []) @
        (None, ListenerIdleAnswer turn) # post"
proof -
  let ?w1 = "fst (listener_step ignored w0 (SendIdleAnswer turn))"
  let ?before = "wm_facts w0 @ (case wm_menu_end w0 of Some menu_end \<Rightarrow> [(None, menu_end)] | None \<Rightarrow> [])"
  have m: "mark_inv (ListenerIdleAnswer turn) (\<lambda>_. False) ?before ([] @ wm_facts ?w1)"
    by (auto simp: mark_inv_def Let_def split: option.split)
  have "mark_inv (ListenerIdleAnswer turn) (\<lambda>_. False) ?before
      (([] @ all_of wrote_entry (snd (run (listener_step ignored) ?w1 later))) @ wm_facts (fst (run (listener_step ignored) ?w1 later)))"
    by (rule mark_inv_run [OF m, where good = "\<lambda>_. True" and ok = "\<lambda>_. True"]) (simp_all add: list_all_iff)
  then show ?thesis by (auto simp: mark_inv_def split_beta)
qed

section \<open>The listener's sender\<close>

definition waiting_waits :: "'x waiting_messages \<Rightarrow> nat" where
  "waiting_waits w = length (wm_urgent w) + length (wm_facts w) + (if wm_menu_end w = None then 0 else 1)"

interpretation listener_sender: backlog "waiting_ops put_message" waiting_waits for put_message
  by unfold_locales
    (auto simp: waiting_waits_def waiting_ops_def waiting_pop_def waiting_is_empty_def waiting_encode_def
      split: list.splits option.splits if_splits)

text \<open>The listener never waits for Core to read: every call returns.\<close>

lemma listener_never_stuck:
  fixes put_message :: "'x listener_to_core \<Rightarrow> u8 list io_result"
  assumes "calls_ok (waiting_ops put_message) waiting_waits pipe calls (sender_make (waiting_default clock) own_thread)"
  shows "\<exists>s. sender_run (waiting_ops put_message) pipe calls (sender_make (waiting_default clock) own_thread) = Some s \<and>
    (\<not> sn_in_flight s \<longrightarrow> waiting_is_empty (sn_backlog s))"
proof -
  have "waiting_waits (waiting_default clock :: 'x waiting_messages) = 0" by (simp add: waiting_waits_def waiting_default_def)
  then have "listener_sender.sender_inv (sender_make (waiting_default clock :: 'x waiting_messages) own_thread)"
    by (rule listener_sender.make_inv)
  then obtain s where "sender_run (waiting_ops put_message) pipe calls (sender_make (waiting_default clock) own_thread) = Some s"
    "listener_sender.sender_inv s"
    using listener_sender.run_some assms by blast
  then show ?thesis
    by (auto simp: listener_sender.sender_inv_def listener_sender.drained_def waiting_waits_def waiting_is_empty_def
        split: if_splits)
qed

end
