(* ===== verification/Outpost_Messages.thy ===== *)
theory Outpost_Messages
  imports Protocol
begin

text \<open>
  What an outpost tells Core: the messages of \<^verbatim>\<open>verbatim-model/src/protocol/mod.rs\<close> with the events of
  \<^verbatim>\<open>event.rs\<close>, the text of \<^verbatim>\<open>text.rs\<close> and the nodes of \<^verbatim>\<open>lib.rs\<close> and \<^verbatim>\<open>tree.rs\<close>; the nodes and anchors a
  message names, by which the outpost keeps its objects, and the stamp Core puts on each node; and
  how a newer message is merged into a waiting one (\<^verbatim>\<open>protocol/merge.rs\<close>).

  What no operation here looks at (a node's role and states, a window's facts, a terminal's rows, a
  shell item) is of the type \<open>'x\<close>.
\<close>

section \<open>Nodes and text\<close>

record node_id =
  nid_outpost :: outpost_id
  nid_number :: u64

definition UNASSIGNED :: outpost_id where
  "UNASSIGNED = 0"

definition node_id_new :: "u64 \<Rightarrow> node_id" where
  "node_id_new n = \<lparr>nid_outpost = UNASSIGNED, nid_number = n\<rparr>"

definition with_outpost :: "outpost_id \<Rightarrow> node_id \<Rightarrow> node_id" where
  "with_outpost outpost node = \<lparr>nid_outpost = outpost, nid_number = nid_number node\<rparr>"

definition unstamped :: "node_id \<Rightarrow> node_id" where
  "unstamped node = node_id_new (nid_number node)"

record 'x node_snapshot =
  ns_id :: node_id
  ns_name :: "string option"
  ns_value :: "string option"
  ns_rest :: 'x

definition snapshot_assign :: "outpost_id \<Rightarrow> 'x node_snapshot \<Rightarrow> 'x node_snapshot" where
  "snapshot_assign outpost node = node\<lparr>ns_id := with_outpost outpost (ns_id node)\<rparr>"

datatype 'x tree_node = TreeNode "'x node_snapshot" "'x tree_node list"

fun tree_assign :: "outpost_id \<Rightarrow> 'x tree_node \<Rightarrow> 'x tree_node" where
  "tree_assign outpost (TreeNode snapshot children) =
     TreeNode (snapshot_assign outpost snapshot) (map (tree_assign outpost) children)"

type_synonym text_anchor = u64

record text_position =
  tp_anchor :: text_anchor
  tp_offset :: u32

datatype text_unit = CharacterUnit | WordUnit | LineUnit | SentenceUnit | ParagraphUnit | PageUnit | DocumentUnit

record 'x text_chunk =
  ch_unit :: text_unit
  ch_text :: string
  ch_start :: text_anchor
  ch_offset :: u32
  ch_first :: bool
  ch_last :: bool
  ch_truncated :: bool
  ch_rest :: 'x

record selection =
  sel_start :: text_position
  sel_end :: text_position

record selection_change =
  sc_selected :: bool
  sc_text :: string
  sc_characters :: u32

record 'x caret_report =
  ca_line :: "'x text_chunk"
  ca_selection :: "selection option"
  ca_selection_line :: "'x text_chunk option"

datatype 'x focus_text = FocusCaret "'x caret_report" "string option" | NoFocusText | FocusTextNotRead

record 'x caret_reply =
  cr_moved :: bool
  cr_caret :: "'x caret_report"
  cr_read_at_ms :: u64
  cr_unit :: "'x text_chunk option"
  cr_selection_changes :: "selection_change list"
  cr_content_changed :: bool
  cr_new_selection :: "selection_change option"
  cr_same_line :: "bool option"
  cr_removed :: "string option"

record 'x terminal_snapshot =
  ts_caret :: "'x caret_report option"
  ts_rest :: 'x

datatype 'x text_reply =
    CaretAnswer "'x caret_reply"
  | ReadAnswer i32 "'x text_chunk"
  | ChunksAnswer i32 "'x text_chunk list"
  | RangeAnswer string bool
  | TextDone
  | SelectedAnswer "selection_change list"
  | TerminalAnswer "'x terminal_snapshot"
  | TerminalUnchanged
  | TerminalHistory string u32 u64
  | TerminalFound "'x list" u64
  | LocationAnswer i32 i32
  | OffsetLocation u32 u32 "(i32 \<times> i32) option"
  | UnsupportedUnit text_unit
  | UnsupportedText
  | NoTextAnswer
  | AnchorLost
  | TextGone
  | TextUnanswered
  | WatchEnded

section \<open>Events\<close>

datatype 'x property_change =
    NameChange "string option"
  | ValueChange "string option"
  | StatesChange 'x
  | DescriptionChange "string option"
  | SuggestionsChange bool

record focus_group =
  fg_number :: u64
  fg_rank :: u32

record 'x progress_reading =
  pr_id :: node_id
  pr_value :: "string option"
  pr_offscreen :: bool
  pr_rect :: "'x option"

datatype 'x normalized_event =
    FocusChanged "'x node_snapshot" bool "'x node_snapshot list" "'x node_snapshot option" "'x focus_text option"
      "earlier_element option" "focus_group option"
  | PropertyChanged node_id "'x property_change" "u32 option"
  | ValueChanged node_id "string option"
  | SelectionChanged "'x node_snapshot"
  | ProgressChanged "'x progress_reading"
  | ControlledSelection node_id "'x node_snapshot"
  | NotificationRaised node_id notification
  | AlertRaised "'x node_snapshot"
  | CaretMoved node_id "'x caret_report" "selection_change list" bool "selection_change option"
  | TextChanged node_id
  | TerminalRead node_id "'x terminal_snapshot"
  | ActiveTextPositionChanged node_id text_position

fun event_assign :: "outpost_id \<Rightarrow> 'x normalized_event \<Rightarrow> 'x normalized_event" where
  "event_assign p (FocusChanged node whole ancestors selected focus earlier grp) =
     FocusChanged (snapshot_assign p node) whole (map (snapshot_assign p) ancestors)
       (map_option (snapshot_assign p) selected) focus earlier grp"
| "event_assign p (SelectionChanged node) = SelectionChanged (snapshot_assign p node)"
| "event_assign p (AlertRaised node) = AlertRaised (snapshot_assign p node)"
| "event_assign p (ProgressChanged bar) = ProgressChanged (bar\<lparr>pr_id := with_outpost p (pr_id bar)\<rparr>)"
| "event_assign p (ControlledSelection controller node) =
     ControlledSelection (with_outpost p controller) (snapshot_assign p node)"
| "event_assign p (PropertyChanged node change children) = PropertyChanged (with_outpost p node) change children"
| "event_assign p (ValueChanged node value) = ValueChanged (with_outpost p node) value"
| "event_assign p (NotificationRaised node said) = NotificationRaised (with_outpost p node) said"
| "event_assign p (CaretMoved node caret changes general new) =
     CaretMoved (with_outpost p node) caret changes general new"
| "event_assign p (TextChanged node) = TextChanged (with_outpost p node)"
| "event_assign p (TerminalRead node snapshot) = TerminalRead (with_outpost p node) snapshot"
| "event_assign p (ActiveTextPositionChanged node position) =
     ActiveTextPositionChanged (with_outpost p node) position"

section \<open>Answers and messages\<close>

record 'x focused_control =
  fc_node :: "'x node_snapshot"
  fc_ancestors :: "'x node_snapshot list"
  fc_selected_child :: "'x node_snapshot option"
  fc_window :: "'x option"
  fc_text :: "'x focus_text option"

record 'x focus_now =
  fn_window :: "('x node_snapshot \<times> 'x) option"
  fn_focus :: "'x focused_control option"
  fn_observed_at_us :: u64

record 'x dumped_tree =
  dt_root :: "'x tree_node"
  dt_truncated :: bool
  dt_locations :: bool

datatype 'x query_result =
    FocusResult "'x focus_now"
  | Navigated "'x node_snapshot option"
  | Activated "'x option"
  | AncestorsResult "'x node_snapshot list"
  | TreeResult "'x dumped_tree"
  | TextResult "'x text_reply"
  | ShellItems "'x list"
  | ShellItemPosition 'x

datatype 'x query_outcome = QueryDone "'x query_result" | QueryGone | QueryFailed string | NotStarted | QueryAbandoned

datatype backend = UiaBackend | MsaaBackend

datatype 'x outpost_to_core =
    OutpostReady pid pid
  | OutpostEvent trace_id u64 backend "'x option" "pid option" event_timing "'x normalized_event"
  | OutpostReply trace_id request_id "'x query_outcome" event_timing
  | OutpostPong u64 usize usize u64
  | NotResponding isize
  | OutpostFault string
  | TargetGone
  | SpareReady pid
  | OutpostIdleAnswer u64

fun carries_nodes :: "'x outpost_to_core \<Rightarrow> bool" where
  "carries_nodes (OutpostEvent _ _ _ _ _ _ _) = True"
| "carries_nodes (OutpostReply _ _ (QueryDone _) _) = True"
| "carries_nodes _ = False"

fun outpost_written :: "u64 \<Rightarrow> 'x outpost_to_core \<Rightarrow> 'x outpost_to_core" where
  "outpost_written at_us (OutpostEvent trace seen backend window app timing event) =
     OutpostEvent trace seen backend window app (timing\<lparr>written_at_us := at_us\<rparr>) event"
| "outpost_written at_us (OutpostReply trace request outcome timing) =
     OutpostReply trace request outcome (timing\<lparr>written_at_us := at_us\<rparr>)"
| "outpost_written at_us (OutpostPong seq parked hung earlier_us) = OutpostPong seq parked hung at_us"
| "outpost_written at_us message = message"

fun core_read :: "u64 \<Rightarrow> 'x outpost_to_core \<Rightarrow> 'x outpost_to_core" where
  "core_read at_us (OutpostEvent trace seen backend window app timing event) =
     OutpostEvent trace seen backend window app (timing\<lparr>core_read_at_us := at_us\<rparr>) event"
| "core_read at_us (OutpostReply trace request outcome timing) =
     OutpostReply trace request outcome (timing\<lparr>core_read_at_us := at_us\<rparr>)"
| "core_read at_us message = message"

definition control_assign :: "outpost_id \<Rightarrow> 'x focused_control \<Rightarrow> 'x focused_control" where
  "control_assign p control =
     control\<lparr>fc_node := snapshot_assign p (fc_node control),
       fc_ancestors := map (snapshot_assign p) (fc_ancestors control),
       fc_selected_child := map_option (snapshot_assign p) (fc_selected_child control)\<rparr>"

fun result_assign :: "outpost_id \<Rightarrow> 'x query_result \<Rightarrow> 'x query_result" where
  "result_assign p (FocusResult focus) =
     FocusResult (focus\<lparr>fn_window := map_option (map_prod (snapshot_assign p) id) (fn_window focus),
       fn_focus := map_option (control_assign p) (fn_focus focus)\<rparr>)"
| "result_assign p (Navigated node) = Navigated (map_option (snapshot_assign p) node)"
| "result_assign p (AncestorsResult chain) = AncestorsResult (map (snapshot_assign p) chain)"
| "result_assign p (TreeResult dumped) = TreeResult (dumped\<lparr>dt_root := tree_assign p (dt_root dumped)\<rparr>)"
| "result_assign p result = result"

fun assign_outpost :: "outpost_id \<Rightarrow> 'x outpost_to_core \<Rightarrow> 'x outpost_to_core" where
  "assign_outpost p (OutpostEvent trace seen backend window app timing event) =
     OutpostEvent trace seen backend window app timing (event_assign p event)"
| "assign_outpost p (OutpostReply trace request (QueryDone result) timing) =
     OutpostReply trace request (QueryDone (result_assign p result)) timing"
| "assign_outpost p message = message"

section \<open>What a message names\<close>

record named =
  nm_nodes :: "node_id list"
  nm_anchors :: "text_anchor list"

definition named_default :: named where
  "named_default = \<lparr>nm_nodes = [], nm_anchors = []\<rparr>"

definition push_node :: "node_id \<Rightarrow> named \<Rightarrow> named" where
  "push_node node n = n\<lparr>nm_nodes := nm_nodes n @ [node]\<rparr>"

definition push_anchor :: "text_anchor \<Rightarrow> named \<Rightarrow> named" where
  "push_anchor anchor n = n\<lparr>nm_anchors := nm_anchors n @ [anchor]\<rparr>"

definition name_node :: "'x node_snapshot \<Rightarrow> named \<Rightarrow> named" where
  "name_node node = push_node (ns_id node)"

definition name_each :: "('a \<Rightarrow> named \<Rightarrow> named) \<Rightarrow> 'a option \<Rightarrow> named \<Rightarrow> named" where
  "name_each f x n = (case x of Some y \<Rightarrow> f y n | None \<Rightarrow> n)"

fun name_tree :: "'x tree_node \<Rightarrow> named \<Rightarrow> named" where
  "name_tree (TreeNode snapshot children) n = fold name_tree children (name_node snapshot n)"

definition name_chunk :: "'x text_chunk \<Rightarrow> named \<Rightarrow> named" where
  "name_chunk chunk = push_anchor (ch_start chunk)"

definition name_selection :: "selection \<Rightarrow> named \<Rightarrow> named" where
  "name_selection selected n =
     push_anchor (tp_anchor (sel_end selected)) (push_anchor (tp_anchor (sel_start selected)) n)"

definition name_caret :: "'x caret_report \<Rightarrow> named \<Rightarrow> named" where
  "name_caret caret n =
     name_each name_chunk (ca_selection_line caret)
       (name_each name_selection (ca_selection caret) (name_chunk (ca_line caret) n))"

fun name_focus_text :: "'x focus_text option \<Rightarrow> named \<Rightarrow> named" where
  "name_focus_text (Some (FocusCaret caret selected)) n = name_caret caret n"
| "name_focus_text _ n = n"

fun name_text_reply :: "'x text_reply \<Rightarrow> named \<Rightarrow> named" where
  "name_text_reply (CaretAnswer reply) n = name_each name_chunk (cr_unit reply) (name_caret (cr_caret reply) n)"
| "name_text_reply (ReadAnswer moved chunk) n = name_chunk chunk n"
| "name_text_reply (ChunksAnswer moved chunks) n = fold name_chunk chunks n"
| "name_text_reply (TerminalAnswer snapshot) n = name_each name_caret (ts_caret snapshot) n"
| "name_text_reply _ n = n"

fun name_event :: "'x normalized_event \<Rightarrow> named \<Rightarrow> named" where
  "name_event (FocusChanged node whole ancestors selected focus earlier grp) n =
     name_focus_text focus (name_each name_node selected (fold name_node ancestors (name_node node n)))"
| "name_event (SelectionChanged node) n = name_node node n"
| "name_event (AlertRaised node) n = name_node node n"
| "name_event (ProgressChanged bar) n = push_node (pr_id bar) n"
| "name_event (ControlledSelection controller node) n = name_node node (push_node controller n)"
| "name_event (CaretMoved node caret changes general new) n = name_caret caret (push_node node n)"
| "name_event (TerminalRead node snapshot) n = name_each name_caret (ts_caret snapshot) (push_node node n)"
| "name_event (ActiveTextPositionChanged node position) n = push_anchor (tp_anchor position) (push_node node n)"
| "name_event (PropertyChanged node change children) n = push_node node n"
| "name_event (ValueChanged node value) n = push_node node n"
| "name_event (NotificationRaised node said) n = push_node node n"
| "name_event (TextChanged node) n = push_node node n"

definition name_control :: "'x focused_control \<Rightarrow> named \<Rightarrow> named" where
  "name_control control n =
     name_focus_text (fc_text control)
       (name_each name_node (fc_selected_child control)
         (fold name_node (fc_ancestors control) (name_node (fc_node control) n)))"

fun name_result :: "'x query_result \<Rightarrow> named \<Rightarrow> named" where
  "name_result (FocusResult focus) n =
     name_each name_control (fn_focus focus) (name_each (\<lambda>(window, facts). name_node window) (fn_window focus) n)"
| "name_result (Navigated node) n = name_each name_node node n"
| "name_result (AncestorsResult chain) n = fold name_node chain n"
| "name_result (TreeResult dumped) n = name_tree (dt_root dumped) n"
| "name_result (TextResult reply) n = name_text_reply reply n"
| "name_result _ n = n"

fun named_by :: "'x outpost_to_core \<Rightarrow> named" where
  "named_by (OutpostEvent trace seen backend window app timing event) = name_event event named_default"
| "named_by (OutpostReply trace request (QueryDone result) timing) = name_result result named_default"
| "named_by message = named_default"


section \<open>Every node named is stamped\<close>

definition stamp_named :: "outpost_id \<Rightarrow> named \<Rightarrow> named" where
  "stamp_named p n = n\<lparr>nm_nodes := map (with_outpost p) (nm_nodes n)\<rparr>"

named_theorems stamped

lemma stamp_default [stamped]: "stamp_named p named_default = named_default"
  by (simp add: stamp_named_def named_default_def)

lemma push_node_stamped [stamped]: "push_node (with_outpost p node) (stamp_named p n) = stamp_named p (push_node node n)"
  by (simp add: push_node_def stamp_named_def)

lemma push_anchor_stamped [stamped]: "push_anchor anchor (stamp_named p n) = stamp_named p (push_anchor anchor n)"
  by (simp add: push_anchor_def stamp_named_def)

lemma name_node_stamped [stamped]:
  "name_node (snapshot_assign p node) (stamp_named p n) = stamp_named p (name_node node n)"
  by (simp add: name_node_def snapshot_assign_def stamped)

lemma name_each_stamped:
  assumes "\<And>x n. f (g x) (stamp_named p n) = stamp_named p (f x n)"
  shows "name_each f (map_option g x) (stamp_named p n) = stamp_named p (name_each f x n)"
  using assms by (simp add: name_each_def split: option.split)

lemma fold_stamped:
  assumes "\<And>x n. x \<in> set xs \<Longrightarrow> f (g x) (stamp_named p n) = stamp_named p (f x n)"
  shows "fold f (map g xs) (stamp_named p n) = stamp_named p (fold f xs n)"
  using assms by (induction xs arbitrary: n) simp_all

lemma name_tree_stamped [stamped]:
  "name_tree (tree_assign p tree) (stamp_named p n) = stamp_named p (name_tree tree n)"
proof (induction tree arbitrary: n)
  case (TreeNode snapshot children)
  show ?case using TreeNode.IH by (simp add: stamped fold_stamped)
qed

lemmas each_node_stamped [stamped] =
  name_each_stamped [where f = name_node and g = "snapshot_assign p" for p, OF name_node_stamped]
  fold_stamped [where f = name_node and g = "snapshot_assign p" for p, OF name_node_stamped]

lemma name_chunk_stamped [stamped]: "name_chunk chunk (stamp_named p n) = stamp_named p (name_chunk chunk n)"
  by (simp add: name_chunk_def stamped)

lemma name_selection_stamped [stamped]:
  "name_selection selected (stamp_named p n) = stamp_named p (name_selection selected n)"
  by (simp add: name_selection_def stamped)

lemmas each_text_stamped [stamped] =
  name_each_stamped [where f = name_chunk and g = "\<lambda>x. x", OF name_chunk_stamped, unfolded option.map_ident]
  name_each_stamped [where f = name_selection and g = "\<lambda>x. x", OF name_selection_stamped, unfolded option.map_ident]
  fold_stamped [where f = name_chunk and g = "\<lambda>x. x", OF name_chunk_stamped, unfolded list.map_ident]

lemma name_caret_stamped [stamped]: "name_caret caret (stamp_named p n) = stamp_named p (name_caret caret n)"
  by (simp add: name_caret_def stamped)

lemmas each_caret_stamped [stamped] =
  name_each_stamped [where f = name_caret and g = "\<lambda>x. x", OF name_caret_stamped, unfolded option.map_ident]

lemma name_focus_text_stamped [stamped]:
  "name_focus_text focus (stamp_named p n) = stamp_named p (name_focus_text focus n)"
  by (cases "(focus, n)" rule: name_focus_text.cases) (simp_all add: stamped)

lemma name_text_reply_stamped [stamped]:
  "name_text_reply reply (stamp_named p n) = stamp_named p (name_text_reply reply n)"
  by (cases reply) (simp_all add: stamped)

lemma name_event_stamped [stamped]:
  "name_event (event_assign p event) (stamp_named p n) = stamp_named p (name_event event n)"
  by (cases event) (simp_all add: stamped)

lemma name_control_stamped:
  "name_control (control_assign p control) (stamp_named p n) = stamp_named p (name_control control n)"
  by (simp add: name_control_def control_assign_def stamped)

lemma name_result_stamped [stamped]:
  fixes result :: "'x query_result"
  shows "name_result (result_assign p result) (stamp_named p n) = stamp_named p (name_result result n)"
proof (cases result)
  case (FocusResult focus)
  have "name_each (\<lambda>(window, facts). name_node window) (map_option (map_prod (snapshot_assign p) id) w) (stamp_named p n) =
      stamp_named p (name_each (\<lambda>(window, facts). name_node window) w n)" for w :: "('x node_snapshot \<times> 'x) option" and n
    by (rule name_each_stamped) (simp add: split_beta stamped)
  then show ?thesis
    using FocusResult by (simp add: name_each_stamped name_control_stamped)
qed (simp_all add: stamped)


end
