(* ===== verification/Outpost_Backlog.thy ===== *)
theory Outpost_Backlog
  imports Outpost_Messages Pipe_Sender Machines Indices BTree
begin

text \<open>
  What waits for Core in an outpost: the merging of waiting messages (\<^verbatim>\<open>verbatim-model/src/protocol/merge.rs\<close>)
  and the outbound queue \<open>Pending\<close> of \<^verbatim>\<open>verbatim-outpost/src/outpost/outbound.rs\<close>, the backlog of the
  outpost's sender, which also numbers the messages that carry nodes as they are written and records
  when each node and anchor was carried.

  \<open>put_message\<close>, the frame of a message, is a parameter, and the clock's readings are an input kept with
  the queue. The channel a flush is answered on is a number, and \<open>pd_answered\<close> lists those answered.
\<close>

section \<open>Merging\<close>

datatype barrier = NoBarrier | ReplyBarrier | AllBarrier

fun barrier_rank :: "barrier \<Rightarrow> nat" where
  "barrier_rank NoBarrier = 0"
| "barrier_rank ReplyBarrier = 1"
| "barrier_rank AllBarrier = 2"

instantiation barrier :: linorder
begin

definition less_eq_barrier :: "barrier \<Rightarrow> barrier \<Rightarrow> bool" where
  "less_eq_barrier a b \<longleftrightarrow> barrier_rank a \<le> barrier_rank b"

definition less_barrier :: "barrier \<Rightarrow> barrier \<Rightarrow> bool" where
  "less_barrier a b \<longleftrightarrow> barrier_rank a < barrier_rank b"

instance
proof
  fix a b :: barrier
  show "a \<le> b \<Longrightarrow> b \<le> a \<Longrightarrow> a = b"
    by (cases a; cases b) (simp_all add: less_eq_barrier_def)
qed (auto simp: less_eq_barrier_def less_barrier_def)

end

lemma barrier_rank_zero: "barrier_rank b = 0 \<Longrightarrow> b = NoBarrier"
  by (cases b) simp_all

text \<open>The methods of the trait \<open>Merge\<close>.\<close>

record ('m, 'k) merge_ops =
  mg_key :: "'m \<Rightarrow> 'k option"
  mg_barrier :: "'m \<Rightarrow> barrier"
  mg_may_merge :: "'m \<Rightarrow> 'm \<Rightarrow> barrier \<Rightarrow> bool"
  mg_merged :: "'m \<Rightarrow> 'm \<Rightarrow> 'm"

text \<open>The loop of \<open>merge_into\<close>, over the waiting messages from the newest on.\<close>

fun merge_scan :: "('m, 'k) merge_ops \<Rightarrow> 'k \<Rightarrow> 'm \<Rightarrow> barrier \<Rightarrow> (nat \<times> 'm) list \<Rightarrow> nat option" where
  "merge_scan ops key newer crossed [] = None"
| "merge_scan ops key newer crossed ((place, older) # rest) =
     (if mg_key ops older = Some key
      then if mg_may_merge ops older newer crossed then Some place else None
      else if mg_barrier ops older = AllBarrier then None
      else merge_scan ops key newer (max crossed (mg_barrier ops older)) rest)"

definition merge_into :: "('m, 'k) merge_ops \<Rightarrow> (nat \<times> 'm) list \<Rightarrow> 'm \<Rightarrow> nat option" where
  "merge_into ops waiting newer =
     (case mg_key ops newer of
        None \<Rightarrow> None
      | Some key \<Rightarrow> merge_scan ops key newer NoBarrier (rev waiting))"

section \<open>An outpost's messages merged\<close>

datatype event_kind =
    FocusChangedKind | PropertyChangedKind | ValueChangedKind | SelectionChangedKind | ProgressChangedKind
  | ControlledSelectionKind | NotificationKind | AlertKind | CaretMovedKind | TextChangedKind | TerminalReadKind
  | ActiveTextPositionKind

fun event_discriminant :: "'x normalized_event \<Rightarrow> event_kind" where
  "event_discriminant (FocusChanged _ _ _ _ _ _ _) = FocusChangedKind"
| "event_discriminant (PropertyChanged _ _ _) = PropertyChangedKind"
| "event_discriminant (ValueChanged _ _) = ValueChangedKind"
| "event_discriminant (SelectionChanged _) = SelectionChangedKind"
| "event_discriminant (ProgressChanged _) = ProgressChangedKind"
| "event_discriminant (ControlledSelection _ _) = ControlledSelectionKind"
| "event_discriminant (NotificationRaised _ _) = NotificationKind"
| "event_discriminant (AlertRaised _) = AlertKind"
| "event_discriminant (CaretMoved _ _ _ _ _) = CaretMovedKind"
| "event_discriminant (TextChanged _) = TextChangedKind"
| "event_discriminant (TerminalRead _ _) = TerminalReadKind"
| "event_discriminant (ActiveTextPositionChanged _ _) = ActiveTextPositionKind"

datatype property_kind = NameKind | ValueKind | StatesKind | DescriptionKind | SuggestionsKind

fun property_discriminant :: "'x property_change \<Rightarrow> property_kind" where
  "property_discriminant (NameChange _) = NameKind"
| "property_discriminant (ValueChange _) = ValueKind"
| "property_discriminant (StatesChange _) = StatesKind"
| "property_discriminant (DescriptionChange _) = DescriptionKind"
| "property_discriminant (SuggestionsChange _) = SuggestionsKind"

datatype key_detail = NoDetail | PropertyDetail property_kind | ForegroundDetail bool

record event_key =
  ek_node :: node_id
  ek_kind :: event_kind
  ek_detail :: key_detail

fun event_subject :: "'x normalized_event \<Rightarrow> (node_id \<times> key_detail) option" where
  "event_subject (FocusChanged node whole_window ancestors selected focus earlier grp) = Some (ns_id node, ForegroundDetail whole_window)"
| "event_subject (PropertyChanged node change children) = Some (node, PropertyDetail (property_discriminant change))"
| "event_subject (SelectionChanged node) = Some (ns_id node, NoDetail)"
| "event_subject (ControlledSelection controller node) = Some (ns_id node, NoDetail)"
| "event_subject (AlertRaised node) = Some (ns_id node, NoDetail)"
| "event_subject (ProgressChanged bar) = Some (pr_id bar, NoDetail)"
| "event_subject (ValueChanged node value) = Some (node, NoDetail)"
| "event_subject (CaretMoved node caret changes general new) = Some (node, NoDetail)"
| "event_subject (TextChanged node) = Some (node, NoDetail)"
| "event_subject (ActiveTextPositionChanged node pos) = Some (node, NoDetail)"
| "event_subject (NotificationRaised node said) = None"
| "event_subject (TerminalRead node snapshot) = None"

fun merge_key :: "'x outpost_to_core \<Rightarrow> event_key option" where
  "merge_key (OutpostEvent trace seen backend window app timing event) =
     (case event_subject event of
        Some (node, detail) \<Rightarrow> Some \<lparr>ek_node = node, ek_kind = event_discriminant event, ek_detail = detail\<rparr>
      | None \<Rightarrow> None)"
| "merge_key message = None"

fun message_barrier :: "'x outpost_to_core \<Rightarrow> barrier" where
  "message_barrier (OutpostIdleAnswer _) = AllBarrier"
| "message_barrier (OutpostReply _ _ _ _) = ReplyBarrier"
| "message_barrier _ = NoBarrier"

fun selection_changes :: "'x outpost_to_core \<Rightarrow> selection_change list" where
  "selection_changes (OutpostEvent trace seen backend window app timing (CaretMoved node caret changes general new)) = changes"
| "selection_changes message = []"

definition carries_selection_changes :: "'x outpost_to_core \<Rightarrow> bool" where
  "carries_selection_changes message \<longleftrightarrow> selection_changes message \<noteq> []"

fun content_changed :: "'x outpost_to_core \<Rightarrow> bool" where
  "content_changed (OutpostEvent trace seen backend window app timing (CaretMoved node caret changes general new)) = general"
| "content_changed message = False"

definition may_merge :: "'x outpost_to_core \<Rightarrow> 'x outpost_to_core \<Rightarrow> barrier \<Rightarrow> bool" where
  "may_merge older newer crossed \<longleftrightarrow>
     \<not> (carries_selection_changes older \<and>
        (crossed \<ge> ReplyBarrier \<or> content_changed older \<or> content_changed newer))"

fun merged :: "'x outpost_to_core \<Rightarrow> 'x outpost_to_core \<Rightarrow> 'x outpost_to_core" where
  "merged (OutpostEvent trace' seen' backend' window' app' timing' (CaretMoved node' caret' waiting general' new'))
     (OutpostEvent trace seen backend window app timing (CaretMoved node caret changes general new)) =
     OutpostEvent trace seen backend window app timing (CaretMoved node caret (waiting @ changes) general new)"
| "merged older newer = newer"

definition outpost_merge :: "('x outpost_to_core, event_key) merge_ops" where
  "outpost_merge = \<lparr>mg_key = merge_key, mg_barrier = message_barrier, mg_may_merge = may_merge, mg_merged = merged\<rparr>"

section \<open>What waits\<close>

datatype carried = CarriedNode u64 | CarriedAnchor u64

fun carried_rank :: "carried \<Rightarrow> nat \<times> u64" where
  "carried_rank (CarriedNode n) = (0, n)"
| "carried_rank (CarriedAnchor n) = (1, n)"

instantiation carried :: linorder
begin

definition less_carried :: "carried \<Rightarrow> carried \<Rightarrow> bool" where
  "less_carried a b \<longleftrightarrow>
     fst (carried_rank a) < fst (carried_rank b) \<or>
     fst (carried_rank a) = fst (carried_rank b) \<and> snd (carried_rank a) < snd (carried_rank b)"

definition less_eq_carried :: "carried \<Rightarrow> carried \<Rightarrow> bool" where
  "less_eq_carried a b \<longleftrightarrow> a = b \<or> a < b"

instance
proof
  fix a b :: carried
  show "a \<le> b \<or> b \<le> a"
    by (cases a; cases b) (auto simp: less_eq_carried_def less_carried_def)
qed (auto simp: less_eq_carried_def less_carried_def)

end

datatype urgent =
    UrgentPong u64 usize usize
  | UrgentReady pid pid
  | UrgentTargetExited
  | UrgentSpareReady pid

fun urgent_message :: "urgent \<Rightarrow> 'x outpost_to_core" where
  "urgent_message (UrgentPong seq parked hung) = OutpostPong seq parked hung 0"
| "urgent_message (UrgentReady outpost_pid target_pid) = OutpostReady outpost_pid target_pid"
| "urgent_message UrgentTargetExited = TargetGone"
| "urgent_message (UrgentSpareReady outpost_pid) = SpareReady outpost_pid"

datatype 'x outpost_item =
    OutUrgent urgent
  | OutMessage "'x outpost_to_core" "carried list"
  | OutFlushed nat

datatype 'x outpost_waiting =
    WaitMessage "'x outpost_to_core" "carried list"
  | WaitFlushed nat

record report =
  rp_position :: u64
  rp_waiting :: u32

record 'x pending =
  pd_urgent :: "urgent list"
  pd_ordinary :: "'x outpost_waiting list"
  pd_position :: u64
  pd_reported :: "(carried, report) btree"
  pd_answered :: "nat list"
  pd_clock :: "nat \<Rightarrow> u64"

definition pending_new :: "(nat \<Rightarrow> u64) \<Rightarrow> 'x pending" where
  "pending_new clock =
     \<lparr>pd_urgent = [], pd_ordinary = [], pd_position = 0, pd_reported = bt_empty, pd_answered = [], pd_clock = clock\<rparr>"

fun is_flushed :: "'x outpost_waiting \<Rightarrow> bool" where
  "is_flushed (WaitFlushed channel) = True"
| "is_flushed (WaitMessage message touched) = False"

text \<open>The messages that wait, each with its place, \<open>place\<close> being that of the first entry.\<close>

fun messages_at :: "nat \<Rightarrow> 'x outpost_waiting list \<Rightarrow> (nat \<times> 'x outpost_to_core) list" where
  "messages_at place [] = []"
| "messages_at place (WaitMessage message touched # ws) = (place, message) # messages_at (Suc place) ws"
| "messages_at place (WaitFlushed channel # ws) = messages_at (Suc place) ws"

text \<open>\<open>entry(number).or_default().waiting += 1\<close>.\<close>

definition one_more :: "carried \<Rightarrow> (carried, report) btree \<Rightarrow> (carried, report) btree" where
  "one_more c m =
     (let rep = (case bt_get m c of Some rep \<Rightarrow> rep | None \<Rightarrow> \<lparr>rp_position = 0, rp_waiting = 0\<rparr>)
      in bt_put c (rep\<lparr>rp_waiting := rp_waiting rep + 1\<rparr>) m)"

fun waiting_removed :: "nat \<Rightarrow> 'x outpost_waiting list \<Rightarrow> 'x outpost_waiting list \<times> 'x outpost_waiting option" where
  "waiting_removed place [] = ([], None)"
| "waiting_removed 0 (w # ws) = (ws, Some w)"
| "waiting_removed (Suc place) (w # ws) = (let (rest, taken) = waiting_removed place ws in (w # rest, taken))"

definition push_message :: "'x outpost_to_core \<Rightarrow> carried list \<Rightarrow> 'x pending \<Rightarrow> 'x pending" where
  "push_message message touched p =
     (let reported = fold one_more touched (pd_reported p);
          since_flush = after_last is_flushed (pd_ordinary p);
          waiting = messages_at since_flush (drop since_flush (pd_ordinary p));
          (rest, last_entry) =
            (case merge_into outpost_merge waiting message of
               Some place \<Rightarrow>
                 (case waiting_removed place (pd_ordinary p) of
                    (rest, Some (WaitMessage older older_touched)) \<Rightarrow>
                      (rest, WaitMessage (mg_merged outpost_merge older message) (touched @ older_touched))
                  | (rest, _) \<Rightarrow> (rest, WaitMessage message touched))
             | None \<Rightarrow> (pd_ordinary p, WaitMessage message touched))
      in p\<lparr>pd_reported := reported, pd_ordinary := rest @ [last_entry]\<rparr>)"

definition report_written :: "u64 \<Rightarrow> carried \<Rightarrow> (carried, report) btree \<Rightarrow> (carried, report) btree" where
  "report_written pos c m =
     (case bt_get m c of
        Some rep \<Rightarrow> bt_put c (rep\<lparr>rp_waiting := sat_sub (rp_waiting rep) 1, rp_position := pos\<rparr>) m
      | None \<Rightarrow> m)"

definition number_message :: "'x outpost_to_core \<Rightarrow> carried list \<Rightarrow> 'x pending \<Rightarrow> 'x pending" where
  "number_message message touched p =
     (let pos = (if carries_nodes message then pd_position p + 1 else pd_position p)
      in p\<lparr>pd_position := pos, pd_reported := fold (report_written pos) touched (pd_reported p)\<rparr>)"

definition pending_report :: "carried \<Rightarrow> 'x pending \<Rightarrow> (u64 \<times> u32) option" where
  "pending_report c p = map_option (\<lambda>rep. (rp_position rep, rp_waiting rep)) (bt_get (pd_reported p) c)"

definition pending_forget :: "(carried \<Rightarrow> bool) \<Rightarrow> 'x pending \<Rightarrow> 'x pending" where
  "pending_forget gone p = p\<lparr>pd_reported := bt_retain (\<lambda>c. \<not> gone c) (pd_reported p)\<rparr>"

fun carried_nodes :: "carried \<Rightarrow> u64 list" where
  "carried_nodes (CarriedNode n) = [n]"
| "carried_nodes (CarriedAnchor n) = []"

definition waiting_nodes :: "'x pending \<Rightarrow> u64 list" where
  "waiting_nodes p =
     concat (map (\<lambda>(c, rep). carried_nodes c) (filter (\<lambda>(c, rep). rp_waiting rep > 0) (bt_entries (pd_reported p))))"

fun pending_push :: "'x outpost_item \<Rightarrow> 'x pending \<Rightarrow> 'x pending" where
  "pending_push (OutUrgent message) p = p\<lparr>pd_urgent := pd_urgent p @ [message]\<rparr>"
| "pending_push (OutMessage message touched) p = push_message message touched p"
| "pending_push (OutFlushed channel) p = p\<lparr>pd_ordinary := pd_ordinary p @ [WaitFlushed channel]\<rparr>"

fun waiting_item :: "'x outpost_waiting \<Rightarrow> 'x outpost_item" where
  "waiting_item (WaitMessage message touched) = OutMessage message touched"
| "waiting_item (WaitFlushed channel) = OutFlushed channel"

definition pending_pop :: "'x pending \<Rightarrow> 'x pending \<times> 'x outpost_item option" where
  "pending_pop p =
     (case pd_urgent p of
        message # urgent \<Rightarrow> (p\<lparr>pd_urgent := urgent\<rparr>, Some (OutUrgent message))
      | [] \<Rightarrow>
          case pd_ordinary p of
            w # ws \<Rightarrow> (p\<lparr>pd_ordinary := ws\<rparr>, Some (waiting_item w))
          | [] \<Rightarrow> (p, None))"

definition pending_is_empty :: "'x pending \<Rightarrow> bool" where
  "pending_is_empty p \<longleftrightarrow> pd_urgent p = [] \<and> pd_ordinary p = []"

text \<open>A message stamped with the time and framed, just before it is written.\<close>

definition stamp_and_put ::
  "('x outpost_to_core \<Rightarrow> u8 list io_result) \<Rightarrow> 'x outpost_to_core \<Rightarrow> 'x pending \<Rightarrow> 'x pending \<times> u8 list io_result" where
  "stamp_and_put put_message message p =
     (p\<lparr>pd_clock := (\<lambda>n. pd_clock p (Suc n))\<rparr>, put_message (outpost_written (pd_clock p 0) message))"

fun pending_encode ::
  "('x outpost_to_core \<Rightarrow> u8 list io_result) \<Rightarrow> 'x outpost_item \<Rightarrow> 'x pending \<Rightarrow> 'x pending \<times> u8 list io_result" where
  "pending_encode put_message (OutUrgent message) p = stamp_and_put put_message (urgent_message message) p"
| "pending_encode put_message (OutMessage message touched) p =
     stamp_and_put put_message message (number_message message touched p)"
| "pending_encode put_message (OutFlushed channel) p = (p\<lparr>pd_answered := pd_answered p @ [channel]\<rparr>, Inr [])"

definition pending_ops ::
  "('x outpost_to_core \<Rightarrow> u8 list io_result) \<Rightarrow> ('x pending, 'x outpost_item, unit) backlog_ops" where
  "pending_ops put_message =
     \<lparr>bl_push = (\<lambda>p item. (pending_push item p, None)), bl_pop = pending_pop, bl_is_empty = pending_is_empty,
      bl_encode = (\<lambda>p item. pending_encode put_message item p)\<rparr>"

section \<open>What a push does to what waits\<close>

lemma merge_scan_some:
  assumes "merge_scan ops key newer crossed (rev xs) = Some place"
  shows "\<exists>ys older zs c. xs = ys @ (place, older) # zs \<and> mg_key ops older = Some key \<and>
    mg_may_merge ops older newer c \<and> crossed \<le> c \<and>
    list_all (\<lambda>(_, z). mg_key ops z \<noteq> Some key \<and> mg_barrier ops z \<noteq> AllBarrier \<and> mg_barrier ops z \<le> c) zs"
  using assms
proof (induction xs arbitrary: crossed rule: rev_induct)
  case (snoc x xs)
  obtain q m where x: "x = (q, m)" by fastforce
  show ?case
  proof (cases "mg_key ops m = Some key")
    case True
    then have "mg_may_merge ops m newer crossed" "place = q" using snoc.prems x by (auto split: if_splits)
    then show ?thesis using True x by (intro exI [of _ xs] exI [of _ m] exI [of _ "[]"] exI [of _ crossed]) simp
  next
    case False
    then have scan: "merge_scan ops key newer (max crossed (mg_barrier ops m)) (rev xs) = Some place" "mg_barrier ops m \<noteq> AllBarrier"
      using snoc.prems x by (auto split: if_splits)
    then obtain ys older zs c where "xs = ys @ (place, older) # zs" "mg_key ops older = Some key"
      "mg_may_merge ops older newer c" "max crossed (mg_barrier ops m) \<le> c"
      "list_all (\<lambda>(_, z). mg_key ops z \<noteq> Some key \<and> mg_barrier ops z \<noteq> AllBarrier \<and> mg_barrier ops z \<le> c) zs"
      using snoc.IH by blast
    then show ?thesis
      using False scan(2) x by (intro exI [of _ ys] exI [of _ older] exI [of _ "zs @ [x]"] exI [of _ c]) simp
  qed
qed simp

lemma messages_at_split:
  assumes "messages_at n ws = ys @ (place, older) # zs"
  shows "\<exists>a t b. ws = a @ WaitMessage older t # b \<and> place = n + length a \<and> zs = messages_at (Suc place) b"
  using assms
proof (induction n ws arbitrary: ys rule: messages_at.induct)
  case (2 n message touched ws)
  show ?case
  proof (cases ys)
    case Nil
    then show ?thesis using 2(2) by (intro exI [of _ "[]"] exI [of _ touched] exI [of _ ws]) auto
  next
    case (Cons y ys')
    then obtain a t b where "ws = a @ WaitMessage older t # b" "place = Suc n + length a" "zs = messages_at (Suc place) b"
      using 2 by auto
    then show ?thesis by (intro exI [of _ "WaitMessage message touched # a"] exI [of _ t] exI [of _ b]) simp
  qed
next
  case (3 n channel ws)
  then obtain a t b where "ws = a @ WaitMessage older t # b" "place = Suc n + length a" "zs = messages_at (Suc place) b"
    by auto
  then show ?case by (intro exI [of _ "WaitFlushed channel # a"] exI [of _ t] exI [of _ b]) simp
qed simp

lemma waiting_removed_at [simp]: "waiting_removed (length a) (a @ w # b) = (a @ b, Some w)"
  by (induction a) simp_all

text \<open>What a message may be merged across.\<close>

fun passable :: "event_key \<Rightarrow> barrier \<Rightarrow> 'x outpost_waiting \<Rightarrow> bool" where
  "passable key c (WaitMessage m touched) \<longleftrightarrow>
     merge_key m \<noteq> Some key \<and> message_barrier m \<noteq> AllBarrier \<and> message_barrier m \<le> c"
| "passable key c (WaitFlushed channel) \<longleftrightarrow> False"

lemma passable_messages:
  assumes "\<forall>w \<in> set b. \<not> is_flushed w"
    and "list_all (\<lambda>(_, z). merge_key z \<noteq> Some key \<and> message_barrier z \<noteq> AllBarrier \<and> message_barrier z \<le> c) (messages_at n b)"
  shows "list_all (passable key c) b"
  using assms by (induction n b rule: messages_at.induct) auto

lemma push_message_cases:
  obtains (queued) "pd_ordinary (push_message message touched p) = pd_ordinary p @ [WaitMessage message touched]"
    | (merged) a older t b key c where
      "pd_ordinary p = a @ WaitMessage older t # b"
      "pd_ordinary (push_message message touched p) = a @ b @ [WaitMessage (merged older message) (touched @ t)]"
      "merge_key older = Some key" "merge_key message = Some key" "may_merge older message c"
      "list_all (passable key c) b"
proof -
  let ?since = "after_last is_flushed (pd_ordinary p)"
  let ?ws = "drop ?since (pd_ordinary p)"
  let ?waiting = "messages_at ?since ?ws"
  show thesis
  proof (cases "merge_into outpost_merge ?waiting message")
    case None
    then show thesis using queued by (simp add: push_message_def Let_def)
  next
    case (Some place)
    then obtain key where key: "merge_key message = Some key"
      "merge_scan outpost_merge key message NoBarrier (rev ?waiting) = Some place"
      by (auto simp: merge_into_def outpost_merge_def split: option.splits)
    from merge_scan_some [OF this(2)] obtain ys older zs c where
      scan: "?waiting = ys @ (place, older) # zs" "merge_key older = Some key" "may_merge older message c"
        "list_all (\<lambda>(_, z). merge_key z \<noteq> Some key \<and> message_barrier z \<noteq> AllBarrier \<and> message_barrier z \<le> c) zs"
      by (auto simp: outpost_merge_def)
    from messages_at_split [OF scan(1)] obtain a t b where
      split: "?ws = a @ WaitMessage older t # b" "place = ?since + length a" "zs = messages_at (Suc place) b"
      by blast
    let ?a = "take ?since (pd_ordinary p) @ a"
    have whole: "pd_ordinary p = ?a @ WaitMessage older t # b"
      using split(1) append_take_drop_id [of ?since "pd_ordinary p"] by simp
    have place: "place = length ?a" using split(2) after_last_le [of is_flushed "pd_ordinary p"] by simp
    have "\<forall>w \<in> set b. \<not> is_flushed w"
      using after_last_drop [of is_flushed "pd_ordinary p"] split(1) by simp
    then have b: "list_all (passable key c) b"
      using scan(4) split(3) by (intro passable_messages) auto
    have "waiting_removed place (pd_ordinary p) = (?a @ b, Some (WaitMessage older t))"
      unfolding place by (subst whole) (rule waiting_removed_at)
    then have "pd_ordinary (push_message message touched p) = ?a @ b @ [WaitMessage (merged older message) (touched @ t)]"
      using Some by (simp add: push_message_def Let_def outpost_merge_def)
    then show thesis using merged [OF whole _ scan(2) key(1) scan(3) b] by simp
  qed
qed

section \<open>What is kept of what was sent\<close>

fun never_merged :: "'x outpost_waiting \<Rightarrow> 'x outpost_waiting list" where
  "never_merged (WaitMessage m touched) = (if merge_key m = None then [WaitMessage m touched] else [])"
| "never_merged (WaitFlushed channel) = [WaitFlushed channel]"

definition caret_key :: "node_id \<Rightarrow> event_key" where
  "caret_key node = \<lparr>ek_node = node, ek_kind = CaretMovedKind, ek_detail = NoDetail\<rparr>"

text \<open>What a node's caret reports and the messages they may not cross say, change by change.\<close>

fun caret_says :: "node_id \<Rightarrow> 'x outpost_waiting \<Rightarrow> ('x outpost_waiting + selection_change) list" where
  "caret_says node (WaitMessage m touched) =
     (if message_barrier m \<noteq> NoBarrier then [Inl (WaitMessage m touched)]
      else if merge_key m = Some (caret_key node) then map Inr (selection_changes m) else [])"
| "caret_says node (WaitFlushed channel) = [Inl (WaitFlushed channel)]"

fun without_changes :: "'x outpost_to_core \<Rightarrow> 'x outpost_to_core" where
  "without_changes (OutpostEvent trace seen backend window app timing (CaretMoved node caret changes general new)) =
     OutpostEvent trace seen backend window app timing (CaretMoved node caret [] general new)"
| "without_changes m = m"

fun keyed :: "'x outpost_waiting \<Rightarrow> (event_key \<times> 'x outpost_to_core) list" where
  "keyed (WaitMessage m touched) = (case merge_key m of Some key \<Rightarrow> [(key, without_changes m)] | None \<Rightarrow> [])"
| "keyed (WaitFlushed channel) = []"

definition kept_merged :: "'x outpost_waiting list \<Rightarrow> 'x outpost_waiting list \<Rightarrow> bool" where
  "kept_merged out sent \<longleftrightarrow>
     all_of never_merged out = all_of never_merged sent \<and>
     (\<forall>node. all_of (caret_says node) out = all_of (caret_says node) sent) \<and>
     map_of (rev (all_of keyed out)) = map_of (rev (all_of keyed sent))"

lemma merge_key_event: "merge_key m = Some key \<Longrightarrow> message_barrier m = NoBarrier"
  by (cases m) simp_all

lemma merge_key_kind:
  "merge_key m = Some key \<Longrightarrow> \<exists>trace seen backend window app timing event.
     m = OutpostEvent trace seen backend window app timing event \<and> ek_kind key = event_discriminant event"
  by (cases m) (auto split: option.splits)

lemma caret_event:
  "event_discriminant event = CaretMovedKind \<longleftrightarrow> (\<exists>node caret changes general new. event = CaretMoved node caret changes general new)"
  by (cases event) simp_all

lemma other_event:
  assumes "event_discriminant event \<noteq> CaretMovedKind"
  shows "merged (OutpostEvent trace seen backend window app timing event) newer = newer"
    and "selection_changes (OutpostEvent trace seen backend window app timing event) = []"
  using assms by (cases event; simp)+

lemma merged_simps:
  assumes "merge_key older = Some key" and "merge_key newer = Some key"
  shows "merge_key (merged older newer) = Some key \<and>
    without_changes (merged older newer) = without_changes newer \<and>
    selection_changes (merged older newer) = selection_changes older @ selection_changes newer"
proof -
  obtain trace seen backend window app timing event trace' seen' backend' window' app' timing' event' where
    older: "older = OutpostEvent trace seen backend window app timing event" and
    newer: "newer = OutpostEvent trace' seen' backend' window' app' timing' event'" and
    kind: "event_discriminant event = event_discriminant event'"
    using merge_key_kind [OF assms(1)] merge_key_kind [OF assms(2)] by auto
  show ?thesis
  proof (cases "event_discriminant event = CaretMovedKind")
    case True
    then have "event_discriminant event' = CaretMovedKind" using kind by simp
    then show ?thesis using True assms older newer by (auto simp: caret_event)
  next
    case False
    then show ?thesis using assms(2) older by (simp add: other_event)
  qed
qed

lemma passable_silent:
  assumes "list_all (passable key c) b" and "c < ReplyBarrier" and "key = caret_key node"
  shows "all_of (caret_says node) b = []"
proof -
  have "caret_says node w = []" if "passable key c w" for w :: "'x outpost_waiting"
    using that assms(2,3)
    by (cases w) (auto simp: less_barrier_def less_eq_barrier_def intro: barrier_rank_zero)
  then show ?thesis using assms(1) by (auto simp: list_all_iff)
qed

lemma kept_merged_push:
  assumes "kept_merged (out @ pd_ordinary p) sent"
  shows "kept_merged (out @ pd_ordinary (push_message message touched p)) (sent @ [WaitMessage message touched])"
proof (cases rule: push_message_cases [where message = message and touched = touched and p = p])
  case queued
  then show ?thesis using assms by (simp add: kept_merged_def)
next
  case (merged a older t b key c)
  note m = merged_simps [OF merged(3,4)] merge_key_event [OF merged(3)] merge_key_event [OF merged(4)]
  have barrier: "message_barrier (merged older message) = NoBarrier"
    using m(1) merge_key_event by blast
  show ?thesis
    unfolding kept_merged_def
  proof (intro conjI allI)
    show "all_of never_merged (out @ pd_ordinary (push_message message touched p)) =
        all_of never_merged (sent @ [WaitMessage message touched])"
      using assms merged(1-4) m by (simp add: kept_merged_def)
  next
    fix node
    have "caret_says node (WaitMessage older t) @ all_of (caret_says node) b @ caret_says node (WaitMessage message touched) =
        all_of (caret_says node) b @ caret_says node (WaitMessage (merged older message) (touched @ t))"
    proof (cases "key = caret_key node \<and> selection_changes older \<noteq> []")
      case True
      then have "c < ReplyBarrier" using merged(5) by (simp add: may_merge_def carries_selection_changes_def not_le)
      then have silent: "all_of (caret_says node) b = []" using passable_silent [OF merged(6)] True by simp
      show ?thesis unfolding silent using True m merged(3,4) barrier by simp
    next
      case False
      then show ?thesis using m merged(3,4) barrier by auto
    qed
    moreover have "all_of (caret_says node) sent =
        all_of (caret_says node) out @ all_of (caret_says node) a @ caret_says node (WaitMessage older t) @ all_of (caret_says node) b"
      using assms merged(1) by (simp add: kept_merged_def del: caret_says.simps)
    ultimately show "all_of (caret_says node) (out @ pd_ordinary (push_message message touched p)) =
        all_of (caret_says node) (sent @ [WaitMessage message touched])"
      using merged(2) by (simp del: caret_says.simps)
  next
    have "(map_of (rev (all_of keyed (out @ a @ WaitMessage older t # b))))(key \<mapsto> v) =
        (map_of (rev (all_of keyed (out @ a @ b))))(key \<mapsto> v)" for v
      using merged(3) by (auto simp: map_add_def fun_eq_iff split: option.split)
    then show "map_of (rev (all_of keyed (out @ pd_ordinary (push_message message touched p)))) =
        map_of (rev (all_of keyed (sent @ [WaitMessage message touched])))"
      using assms merged(1-4) m by (simp add: kept_merged_def)
  qed
qed

section \<open>The outpost's calls\<close>

text \<open>
  A message sent (\<open>Outbound::urgent\<close>, \<open>publish\<close> and \<open>flush\<close>), and the write of what waits first, which the
  sender makes of a pop and an encoding.
\<close>

datatype 'x outbound_call = OutboundSend "'x outpost_item" | OutboundWrite

datatype 'x outbound_effect =
    Sent "'x outpost_waiting"
  | SentAhead urgent
  | Wrote "'x outpost_waiting"
  | WroteAhead urgent

fun sent_effect :: "'x outpost_item \<Rightarrow> 'x outbound_effect" where
  "sent_effect (OutUrgent message) = SentAhead message"
| "sent_effect (OutMessage message touched) = Sent (WaitMessage message touched)"
| "sent_effect (OutFlushed channel) = Sent (WaitFlushed channel)"

fun wrote_effect :: "'x outpost_item \<Rightarrow> 'x outbound_effect" where
  "wrote_effect (OutUrgent message) = WroteAhead message"
| "wrote_effect (OutMessage message touched) = Wrote (WaitMessage message touched)"
| "wrote_effect (OutFlushed channel) = Wrote (WaitFlushed channel)"

fun outbound_step ::
  "('x outpost_to_core \<Rightarrow> u8 list io_result) \<Rightarrow> 'x pending \<Rightarrow> 'x outbound_call \<Rightarrow> 'x pending \<times> 'x outbound_effect list" where
  "outbound_step put_message p (OutboundSend item) = (pending_push item p, [sent_effect item])"
| "outbound_step put_message p OutboundWrite =
     (case pending_pop p of
        (p', None) \<Rightarrow> (p', [])
      | (p', Some item) \<Rightarrow> (fst (pending_encode put_message item p'), [wrote_effect item]))"

fun sent_entry :: "'x outbound_effect \<Rightarrow> 'x outpost_waiting list" where
  "sent_entry (Sent w) = [w]"
| "sent_entry e = []"

fun wrote_waiting :: "'x outbound_effect \<Rightarrow> 'x outpost_waiting list" where
  "wrote_waiting (Wrote w) = [w]"
| "wrote_waiting e = []"

fun sent_ahead :: "'x outbound_effect \<Rightarrow> urgent list" where
  "sent_ahead (SentAhead u) = [u]"
| "sent_ahead e = []"

fun wrote_ahead :: "'x outbound_effect \<Rightarrow> urgent list" where
  "wrote_ahead (WroteAhead u) = [u]"
| "wrote_ahead e = []"

lemma encode_keeps:
  "pd_ordinary (fst (pending_encode put_message item p)) = pd_ordinary p"
  "pd_urgent (fst (pending_encode put_message item p)) = pd_urgent p"
  by (cases item; simp add: stamp_and_put_def number_message_def Let_def)+

lemma push_urgent: "pd_urgent (push_message message touched p) = pd_urgent p"
  by (simp add: push_message_def Let_def split_beta)

lemma outbound_write_cases:
  obtains (empty) "outbound_step put_message p OutboundWrite = (p, [])" "pd_urgent p = []" "pd_ordinary p = []"
    | (ahead) u us p' where "pd_urgent p = u # us" "outbound_step put_message p OutboundWrite = (p', [WroteAhead u])"
      "pd_urgent p' = us" "pd_ordinary p' = pd_ordinary p"
    | (ordinary) w ws p' where "pd_ordinary p = w # ws" "outbound_step put_message p OutboundWrite = (p', [Wrote w])"
      "pd_urgent p = []" "pd_urgent p' = []" "pd_ordinary p' = ws"
proof (cases "pd_urgent p")
  case Nil
  show thesis
  proof (cases "pd_ordinary p")
    case Nil': Nil
    then show thesis using Nil empty by (simp add: pending_pop_def)
  next
    case (Cons w ws)
    then show thesis using Nil ordinary [of w ws] encode_keeps [of put_message "waiting_item w"]
      by (cases w) (simp_all add: pending_pop_def)
  qed
next
  case (Cons u us)
  then show thesis using ahead [of u us] encode_keeps [of put_message "OutUrgent u"] by (simp add: pending_pop_def)
qed

lemma kept_merged_step:
  assumes "kept_merged (out @ pd_ordinary p) sent"
  shows "kept_merged ((out @ all_of wrote_waiting (snd (outbound_step put_message p call))) @
      pd_ordinary (fst (outbound_step put_message p call))) (sent @ all_of sent_entry (snd (outbound_step put_message p call)))"
proof (cases call)
  case (OutboundSend item)
  show ?thesis
  proof (cases item)
    case (OutMessage message touched)
    then show ?thesis using OutboundSend kept_merged_push [OF assms] by simp
  qed (use OutboundSend assms in \<open>simp_all add: kept_merged_def\<close>)
next
  case OutboundWrite
  then show ?thesis
    using assms by (cases rule: outbound_write_cases [where put_message = put_message and p = p]) simp_all
qed

interpretation outbound_queue: queueing_machine "outbound_step put_message" "\<lambda>_ _. True" "\<lambda>_. True" pd_ordinary
    wrote_waiting sent_entry kept_merged for put_message
  by unfold_locales (simp, rule kept_merged_step)

interpretation outbound_ahead: queueing_machine "outbound_step put_message" "\<lambda>_ _. True" "\<lambda>_. True" pd_urgent
    wrote_ahead sent_ahead "(=)" for put_message
proof unfold_locales
  fix p :: "'a pending" and call out every
  assume "out @ pd_urgent p = every"
  then show "(out @ all_of wrote_ahead (snd (outbound_step put_message p call))) @ pd_urgent (fst (outbound_step put_message p call)) =
      every @ all_of sent_ahead (snd (outbound_step put_message p call))"
  proof (cases call)
    case (OutboundSend item)
    then show ?thesis using \<open>out @ pd_urgent p = every\<close> by (cases item) (auto simp: push_urgent)
  next
    case OutboundWrite
    then show ?thesis using \<open>out @ pd_urgent p = every\<close>
      by (cases rule: outbound_write_cases [where put_message = put_message and p = p]) auto
  qed
qed

text \<open>
  C6. What an outpost tells Core: of everything sent, in any order of messages, flushes and writes, what
  was written and what waits keep every message that is never merged and every flush, each once and in
  order; for each node, the changes of the selection come all, in order, and in their places among the
  replies, the idle answers and the flushes; of the events of one key the latest is written or
  waits, carrying what it said; and the messages sent ahead are all kept, in order.
\<close>

theorem outbound_kept:
  "let (p, es) = run (outbound_step put_message) (pending_new clock) calls;
       out = all_of wrote_waiting es @ pd_ordinary p; sent = all_of sent_entry es
   in all_of never_merged out = all_of never_merged sent \<and>
      (\<forall>node. all_of (caret_says node) out = all_of (caret_says node) sent) \<and>
      map_of (rev (all_of keyed out)) = map_of (rev (all_of keyed sent)) \<and>
      all_of wrote_ahead es @ pd_urgent p = all_of sent_ahead es"
  using outbound_queue.run_rel [where s = "pending_new clock" and xs = calls and out = "[]" and every = "[]"]
    outbound_ahead.run_rel [where s = "pending_new clock" and xs = calls and out = "[]" and every = "[]"]
  by (simp add: kept_merged_def pending_new_def split_beta Let_def)

section \<open>The outpost's sender\<close>

definition pending_waits :: "'x pending \<Rightarrow> nat" where
  "pending_waits p = length (pd_urgent p) + length (pd_ordinary p)"

lemma encode_pending_waits: "pending_encode put_message item p = (p', put) \<Longrightarrow> pending_waits p' = pending_waits p"
  using encode_keeps [of put_message item p] by (simp add: pending_waits_def)

interpretation outpost_sender: backlog "pending_ops put_message" pending_waits for put_message
proof unfold_locales
  fix p :: "'a pending" and item p' put
  assume "bl_encode (pending_ops put_message) p item = (p', put)"
  then show "pending_waits p' = pending_waits p" by (simp add: pending_ops_def encode_pending_waits)
qed (auto simp: pending_waits_def pending_ops_def pending_pop_def pending_is_empty_def split: list.splits if_splits)

end
