(* ===== verification/Node_Registries.thy ===== *)
theory Node_Registries
  imports BTree Frames
begin

text \<open>
  The numbers an outpost gives the objects of its application: the registry of UIA elements
  (\<^verbatim>\<open>verbatim-uia/src/registry.rs\<close>), by runtime id, and that of MSAA objects (\<^verbatim>\<open>verbatim-ia2/src/registry.rs\<close>),
  by address and by COM identity. Both mint from one counter, which every operation that may issue
  takes and returns.

  A node id of the registries has no outpost yet (\<open>NodeId::new\<close>), so it is its number here. The elements
  and objects are COM references, the type \<open>'o\<close>; roles are \<open>'r\<close>. A map nothing goes through is a
  partial function, and one that is gone through is an ordered map, whose order nothing observes.
\<close>

section \<open>UIA elements\<close>

record 'o uia_registry =
  ur_forward :: "i32 list \<rightharpoonup> u64"
  ur_reverse :: "(u64, i32 list) btree"
  ur_elements :: "u64 \<rightharpoonup> 'o"

definition uia_new :: "'o uia_registry" where
  "uia_new = \<lparr>ur_forward = Map.empty, ur_reverse = bt_empty, ur_elements = Map.empty\<rparr>"

definition id_for_locked :: "i32 list \<Rightarrow> u64 \<times> 'o uia_registry \<Rightarrow> (u64 \<times> 'o uia_registry) \<times> u64" where
  "id_for_locked runtime_id = (\<lambda>(counter, r).
     case (if runtime_id = [] then None else ur_forward r runtime_id) of
       Some n \<Rightarrow> ((counter, r), n)
     | None \<Rightarrow>
         let r = (if runtime_id = [] then r
                  else r\<lparr>ur_forward := (ur_forward r)(runtime_id \<mapsto> counter),
                         ur_reverse := bt_put counter runtime_id (ur_reverse r)\<rparr>)
         in ((counter + 1, r), counter))"

definition uia_keep ::
  "i32 list \<Rightarrow> 'o option \<Rightarrow> u64 \<times> 'o uia_registry \<Rightarrow> (u64 \<times> 'o uia_registry) \<times> u64 \<times> 'o option" where
  "uia_keep runtime_id element cr =
     (let ((counter, r), n) = id_for_locked runtime_id cr
      in case element of
           Some e \<Rightarrow>
             if runtime_id \<noteq> [] then ((counter, r\<lparr>ur_elements := (ur_elements r)(n \<mapsto> e)\<rparr>), n, ur_elements r n)
             else ((counter, r), n, None)
         | None \<Rightarrow> ((counter, r), n, None))"

definition uia_existing :: "i32 list \<Rightarrow> 'o uia_registry \<Rightarrow> u64 option" where
  "uia_existing runtime_id r = ur_forward r runtime_id"

definition uia_holds :: "u64 \<Rightarrow> 'o uia_registry \<Rightarrow> bool" where
  "uia_holds n r \<longleftrightarrow> bt_get (ur_reverse r) n \<noteq> None"

definition uia_ids :: "'o uia_registry \<Rightarrow> u64 list" where
  "uia_ids r = bt_keys (ur_reverse r)"

definition uia_drop :: "u64 \<Rightarrow> 'o uia_registry \<Rightarrow> 'o uia_registry" where
  "uia_drop n r =
     (let r = (case bt_get (ur_reverse r) n of
                 Some runtime_id \<Rightarrow>
                   r\<lparr>ur_reverse := bt_remove n (ur_reverse r), ur_forward := (ur_forward r)(runtime_id := None)\<rparr>
               | None \<Rightarrow> r)
      in r\<lparr>ur_elements := (ur_elements r)(n := None)\<rparr>)"

definition uia_retain :: "(u64 \<Rightarrow> bool) \<Rightarrow> 'o uia_registry \<Rightarrow> 'o uia_registry" where
  "uia_retain keeps r = fold uia_drop (filter (\<lambda>n. \<not> keeps n) (uia_ids r)) r"

definition runtime_id_of :: "u64 \<Rightarrow> 'o uia_registry \<Rightarrow> i32 list option" where
  "runtime_id_of n r = bt_get (ur_reverse r) n"

definition element_of :: "u64 \<Rightarrow> 'o uia_registry \<Rightarrow> 'o option" where
  "element_of n r = ur_elements r n"

definition evict_element :: "u64 \<Rightarrow> 'o uia_registry \<Rightarrow> 'o uia_registry \<times> 'o option" where
  "evict_element n r = (r\<lparr>ur_elements := (ur_elements r)(n := None)\<rparr>, ur_elements r n)"

definition evict_element_if :: "u64 \<Rightarrow> 'o \<Rightarrow> 'o uia_registry \<Rightarrow> 'o uia_registry \<times> 'o option" where
  "evict_element_if n e r =
     (if ur_elements r n = Some e then (r\<lparr>ur_elements := (ur_elements r)(n := None)\<rparr>, Some e) else (r, None))"

section \<open>MSAA objects\<close>

type_synonym msaa_key = "isize \<times> i32 \<times> i32"

record 'o msaa_held =
  mh_object :: 'o
  mh_child :: i32
  mh_identity :: usize

record msaa_facts =
  mf_event :: "isize \<times> i32 option \<times> i32"
  mf_identity :: "u8 list option option"
  mf_raw_role :: "i32 option"
  mf_name :: "string option"

record ('o, 'r) msaa_node =
  mn_key :: msaa_key
  mn_held :: "'o msaa_held option"
  mn_role :: "'r option"
  mn_at_address :: bool
  mn_facts :: "msaa_facts option"

record ('o, 'r) msaa_registry =
  mr_nodes :: "(u64, ('o, 'r) msaa_node) btree"
  mr_by_key :: "msaa_key \<rightharpoonup> u64"
  mr_by_object :: "usize \<times> i32 \<rightharpoonup> u64"

definition msaa_new :: "('o, 'r) msaa_registry" where
  "msaa_new = \<lparr>mr_nodes = bt_empty, mr_by_key = Map.empty, mr_by_object = Map.empty\<rparr>"

definition insert_locked ::
  "('o, 'r) msaa_node \<Rightarrow> u64 \<times> ('o, 'r) msaa_registry \<Rightarrow> (u64 \<times> ('o, 'r) msaa_registry) \<times> u64" where
  "insert_locked node = (\<lambda>(counter, r).
     let by_object = (case mn_held node of
                        Some held \<Rightarrow> (mr_by_object r)((mh_identity held, mh_child held) \<mapsto> counter)
                      | None \<Rightarrow> mr_by_object r);
         by_key = (if mn_at_address node then (mr_by_key r)(mn_key node \<mapsto> counter) else mr_by_key r)
     in ((counter + 1, \<lparr>mr_nodes = bt_put counter node (mr_nodes r), mr_by_key = by_key, mr_by_object = by_object\<rparr>), counter))"

definition msaa_insert ::
  "msaa_key \<Rightarrow> 'o msaa_held option \<Rightarrow> 'r \<times> msaa_facts \<Rightarrow> bool \<Rightarrow> u64 \<times> ('o, 'r) msaa_registry \<Rightarrow>
     (u64 \<times> ('o, 'r) msaa_registry) \<times> u64" where
  "msaa_insert key held role_facts at_address =
     insert_locked \<lparr>mn_key = key, mn_held = held, mn_role = Some (fst role_facts), mn_at_address = at_address,
       mn_facts = Some (snd role_facts)\<rparr>"

definition msaa_id_for :: "msaa_key \<Rightarrow> u64 \<times> ('o, 'r) msaa_registry \<Rightarrow> (u64 \<times> ('o, 'r) msaa_registry) \<times> u64" where
  "msaa_id_for key cr =
     (case mr_by_key (snd cr) key of
        Some n \<Rightarrow> (cr, n)
      | None \<Rightarrow>
          insert_locked \<lparr>mn_key = key, mn_held = None, mn_role = None, mn_at_address = True, mn_facts = None\<rparr> cr)"

type_synonym 'o kept_object = "'o \<times> i32"

datatype ('o, 'r) found =
    FoundObject u64 "'o kept_object option"
  | FoundKey u64 "'o kept_object option" "'r option"
  | FoundNothing

definition kept_object :: "('o, 'r) msaa_node \<Rightarrow> 'o kept_object option" where
  "kept_object node = map_option (\<lambda>held. (mh_object held, mh_child held)) (mn_held node)"

text \<open>The node of the same COM object in the same window.\<close>

definition same_object :: "msaa_key \<Rightarrow> usize option \<Rightarrow> i32 \<Rightarrow> ('o, 'r) msaa_registry \<Rightarrow> (u64 \<times> ('o, 'r) msaa_node) option" where
  "same_object key identity child r =
     (case identity of
        None \<Rightarrow> None
      | Some i \<Rightarrow>
          case mr_by_object r (i, child) of
            None \<Rightarrow> None
          | Some n \<Rightarrow>
              case bt_get (mr_nodes r) n of
                None \<Rightarrow> None
              | Some node \<Rightarrow> if fst (mn_key node) = fst key then Some (n, node) else None)"

text \<open>\<open>find\<close>, without a result where \<open>inner.nodes[&id]\<close> would panic.\<close>

definition msaa_find ::
  "msaa_key \<Rightarrow> usize option \<Rightarrow> i32 \<Rightarrow> bool \<Rightarrow> ('o, 'r) msaa_registry \<Rightarrow> ('o, 'r) found option" where
  "msaa_find key identity child at_address r =
     (case same_object key identity child r of
        Some (n, node) \<Rightarrow> Some (FoundObject n (kept_object node))
      | None \<Rightarrow>
          if \<not> at_address then Some FoundNothing
          else
            case mr_by_key r key of
              None \<Rightarrow> Some FoundNothing
            | Some n \<Rightarrow>
                case bt_get (mr_nodes r) n of
                  None \<Rightarrow> None
                | Some node \<Rightarrow> Some (FoundKey n (kept_object node) (mn_role node)))"

definition msaa_holds :: "u64 \<Rightarrow> ('o, 'r) msaa_registry \<Rightarrow> bool" where
  "msaa_holds n r \<longleftrightarrow> bt_get (mr_nodes r) n \<noteq> None"

record ('o, 'r) kept_node =
  kn_key :: msaa_key
  kn_object :: "'o kept_object option"
  kn_role :: "'r option"
  kn_facts :: msaa_facts

definition facts_of :: "u64 \<Rightarrow> ('o, 'r) msaa_registry \<Rightarrow> ('o, 'r) kept_node option" where
  "facts_of n r =
     (case bt_get (mr_nodes r) n of
        None \<Rightarrow> None
      | Some node \<Rightarrow>
          map_option (\<lambda>facts. \<lparr>kn_key = mn_key node, kn_object = kept_object node, kn_role = mn_role node, kn_facts = facts\<rparr>)
            (mn_facts node))"

definition reissue :: "u64 \<Rightarrow> string option \<Rightarrow> ('o, 'r) msaa_registry \<Rightarrow> ('o, 'r) msaa_registry" where
  "reissue n name r =
     (case bt_get (mr_nodes r) n of
        None \<Rightarrow> r
      | Some node \<Rightarrow>
          r\<lparr>mr_nodes := bt_put n (node\<lparr>mn_facts := map_option (\<lambda>f. f\<lparr>mf_name := name\<rparr>) (mn_facts node)\<rparr>) (mr_nodes r)\<rparr>)"

definition key_of :: "u64 \<Rightarrow> ('o, 'r) msaa_registry \<Rightarrow> msaa_key option" where
  "key_of n r = map_option mn_key (bt_get (mr_nodes r) n)"

definition locate :: "u64 \<Rightarrow> ('o, 'r) msaa_registry \<Rightarrow> (msaa_key \<times> 'o kept_object option \<times> bool) option" where
  "locate n r = map_option (\<lambda>node. (mn_key node, kept_object node, mn_at_address node)) (bt_get (mr_nodes r) n)"

definition msaa_ids :: "('o, 'r) msaa_registry \<Rightarrow> u64 list" where
  "msaa_ids r = bt_keys (mr_nodes r)"

text \<open>One round of \<open>remove\<close>.\<close>

definition msaa_drop :: "u64 \<Rightarrow> ('o, 'r) msaa_registry \<Rightarrow> ('o, 'r) msaa_registry" where
  "msaa_drop n r =
     (case bt_get (mr_nodes r) n of
        None \<Rightarrow> r
      | Some node \<Rightarrow>
          \<lparr>mr_nodes = bt_remove n (mr_nodes r),
           mr_by_key = (if mr_by_key r (mn_key node) = Some n then (mr_by_key r)(mn_key node := None) else mr_by_key r),
           mr_by_object =
             (case mn_held node of
                Some held \<Rightarrow>
                  if mr_by_object r (mh_identity held, mh_child held) = Some n
                  then (mr_by_object r)((mh_identity held, mh_child held) := None) else mr_by_object r
              | None \<Rightarrow> mr_by_object r)\<rparr>)"

definition msaa_remove :: "u64 list \<Rightarrow> ('o, 'r) msaa_registry \<Rightarrow> ('o, 'r) msaa_registry" where
  "msaa_remove gone r = fold msaa_drop gone r"

definition msaa_retain :: "(u64 \<Rightarrow> bool) \<Rightarrow> ('o, 'r) msaa_registry \<Rightarrow> ('o, 'r) msaa_registry" where
  "msaa_retain keeps r = msaa_remove (filter (\<lambda>n. \<not> keeps n) (msaa_ids r)) r"

definition forget_window :: "isize \<Rightarrow> ('o, 'r) msaa_registry \<Rightarrow> ('o, 'r) msaa_registry \<times> u64 list" where
  "forget_window hwnd r =
     (let gone = map fst (filter (\<lambda>(n, node). fst (mn_key node) = hwnd) (bt_entries (mr_nodes r)))
      in (msaa_remove gone r, gone))"

section \<open>What the maps say of each other\<close>

lemma bt_keys_mem: "k \<in> set (bt_keys m) \<longleftrightarrow> bt_get m k \<noteq> None"
  by (simp add: bt_keys_def bt_get_entries map_of_eq_None_iff)

definition uia_inv :: "u64 \<Rightarrow> 'o uia_registry \<Rightarrow> bool" where
  "uia_inv counter r \<longleftrightarrow>
     (\<forall>k n. ur_forward r k = Some n \<longleftrightarrow> bt_get (ur_reverse r) n = Some k) \<and>
     (\<forall>n k. bt_get (ur_reverse r) n = Some k \<longrightarrow> n < counter \<and> k \<noteq> []) \<and>
     (\<forall>n. ur_elements r n \<noteq> None \<longrightarrow> uia_holds n r)"

definition msaa_inv :: "u64 \<Rightarrow> ('o, 'r) msaa_registry \<Rightarrow> bool" where
  "msaa_inv counter r \<longleftrightarrow>
     (\<forall>n. msaa_holds n r \<longrightarrow> n < counter) \<and>
     (\<forall>key n. mr_by_key r key = Some n \<longrightarrow>
        (\<exists>node. bt_get (mr_nodes r) n = Some node \<and> mn_key node = key \<and> mn_at_address node)) \<and>
     (\<forall>i child n. mr_by_object r (i, child) = Some n \<longrightarrow>
        (\<exists>node held. bt_get (mr_nodes r) n = Some node \<and> mn_held node = Some held \<and>
           mh_identity held = i \<and> mh_child held = child))"

lemma uia_inv_new: "uia_inv counter uia_new"
  by (simp add: uia_inv_def uia_new_def)

lemma msaa_inv_new: "msaa_inv counter msaa_new"
  by (simp add: msaa_inv_def msaa_new_def msaa_holds_def)

lemma uia_invD:
  assumes "uia_inv counter r"
  shows "ur_forward r k = Some n \<longleftrightarrow> bt_get (ur_reverse r) n = Some k"
    and "bt_get (ur_reverse r) n = Some k \<Longrightarrow> n < counter"
    and "bt_get (ur_reverse r) n \<noteq> Some []"
    and "ur_elements r n = Some e \<Longrightarrow> uia_holds n r"
  using assms unfolding uia_inv_def by (blast, blast, blast, metis option.distinct(1))

lemma uia_invI:
  assumes "\<And>k n. ur_forward r k = Some n \<longleftrightarrow> bt_get (ur_reverse r) n = Some k"
    and "\<And>k n. bt_get (ur_reverse r) n = Some k \<Longrightarrow> n < counter"
    and "\<And>n. bt_get (ur_reverse r) n \<noteq> Some []"
    and "\<And>n e. ur_elements r n = Some e \<Longrightarrow> uia_holds n r"
  shows "uia_inv counter r"
  using assms unfolding uia_inv_def by blast

lemma uia_inv_mono: "uia_inv counter r \<Longrightarrow> counter \<le> counter' \<Longrightarrow> uia_inv counter' r"
  by (rule uia_invI) (auto simp: uia_invD(1,3) intro: uia_invD(4) dest: uia_invD(2))

lemma msaa_inv_mono: "msaa_inv counter r \<Longrightarrow> counter \<le> counter' \<Longrightarrow> msaa_inv counter' r"
  unfolding msaa_inv_def by (blast intro: order_less_le_trans)

lemma word_succ:
  assumes "(counter :: u64) \<noteq> - 1"
  shows "counter < counter + 1"
proof -
  have "1 + counter \<noteq> 0" using assms by (metis add.commute eq_neg_iff_add_eq_0)
  then have "unat (counter + 1) = Suc (unat counter)" using unatSuc [of counter] by (simp add: add.commute)
  then show ?thesis by (simp add: word_less_nat_alt)
qed

text \<open>An element's node: looked up, or issued at the counter, and then never seen before.\<close>

lemma id_for_locked_cases:
  obtains (known) n where "ur_forward r runtime_id = Some n" "id_for_locked runtime_id (counter, r) = ((counter, r), n)"
    | (unnamed) "runtime_id = []" "id_for_locked runtime_id (counter, r) = ((counter + 1, r), counter)"
    | (issued) "runtime_id \<noteq> []" "ur_forward r runtime_id = None"
      "id_for_locked runtime_id (counter, r) =
         ((counter + 1, r\<lparr>ur_forward := (ur_forward r)(runtime_id \<mapsto> counter),
            ur_reverse := bt_put counter runtime_id (ur_reverse r)\<rparr>), counter)"
  by (cases "runtime_id = []"; cases "ur_forward r runtime_id") (simp_all add: id_for_locked_def)

lemma uia_issued_inv:
  assumes "uia_inv counter r" and "counter \<noteq> - 1" and "runtime_id \<noteq> []" and "ur_forward r runtime_id = None"
  shows "uia_inv (counter + 1) (r\<lparr>ur_forward := (ur_forward r)(runtime_id \<mapsto> counter),
            ur_reverse := bt_put counter runtime_id (ur_reverse r)\<rparr>)" (is "uia_inv _ ?r")
proof (rule uia_invI)
  have fresh: "bt_get (ur_reverse r) counter = None"
    using uia_invD(2) [OF assms(1), of counter] by (cases "bt_get (ur_reverse r) counter") auto
  have new: "bt_get (ur_reverse r) m \<noteq> Some runtime_id" for m
    using assms(4) uia_invD(1) [OF assms(1)] by force
  have elements: "ur_elements r counter = None"
    using fresh uia_invD(4) [OF assms(1), of counter] by (cases "ur_elements r counter") (auto simp: uia_holds_def)
  show "ur_forward ?r k = Some n \<longleftrightarrow> bt_get (ur_reverse ?r) n = Some k" for k n
    using fresh new uia_invD(1) [OF assms(1)] by auto
  show "n < counter + 1" if "bt_get (ur_reverse ?r) n = Some k" for k n
    using that uia_invD(2) [OF assms(1), of n k] word_succ [OF assms(2)] by (auto split: if_splits)
  show "bt_get (ur_reverse ?r) n \<noteq> Some []" for n
    using assms(3) uia_invD(3) [OF assms(1)] by simp
  show "uia_holds n ?r" if "ur_elements ?r n = Some e" for n e
    using that uia_invD(4) [OF assms(1), of n e] by (simp add: uia_holds_def)
qed

lemma id_for_locked_inv:
  assumes "uia_inv counter r" and "counter \<noteq> - 1" and "id_for_locked runtime_id (counter, r) = ((counter', r'), n)"
  shows "uia_inv counter' r' \<and> counter \<le> counter' \<and> n < counter' \<and> (n = counter \<or> uia_holds n r \<and> counter' = counter) \<and>
    (\<forall>m. uia_holds m r' \<longrightarrow> m = n \<or> uia_holds m r) \<and> (runtime_id \<noteq> [] \<longrightarrow> uia_holds n r')"
proof (cases rule: id_for_locked_cases [of r runtime_id counter])
  case (known m)
  then have eq: "n = m" "counter' = counter" "r' = r" using assms(3) by simp_all
  have "bt_get (ur_reverse r) m = Some runtime_id" using known(1) uia_invD(1) [OF assms(1)] by simp
  then show ?thesis using assms(1) uia_invD(2) [OF assms(1)] unfolding eq by (auto simp: uia_holds_def)
next
  case unnamed
  then show ?thesis using assms word_succ [OF assms(2)] by (auto intro: uia_inv_mono)
next
  case issued
  then have "counter' = counter + 1" "n = counter"
    "r' = r\<lparr>ur_forward := (ur_forward r)(runtime_id \<mapsto> counter), ur_reverse := bt_put counter runtime_id (ur_reverse r)\<rparr>"
    using assms(3) by simp_all
  then show ?thesis
    using uia_issued_inv [OF assms(1,2) issued(1,2)] issued(1) word_succ [OF assms(2)] by (simp add: uia_holds_def)
qed

lemma uia_element_inv:
  assumes "uia_inv counter r" and "uia_holds n r"
  shows "uia_inv counter (r\<lparr>ur_elements := (ur_elements r)(n \<mapsto> e)\<rparr>)"
  by (rule uia_invI)
    (use assms uia_invD [OF assms(1)] in \<open>auto simp: uia_holds_def split: if_splits\<close>)

lemma uia_keep_inv:
  assumes "uia_inv counter r" and "counter \<noteq> - 1" and "uia_keep runtime_id element (counter, r) = ((counter', r'), n, replaced)"
  shows "uia_inv counter' r' \<and> counter \<le> counter' \<and> n < counter' \<and> (n = counter \<or> uia_holds n r \<and> counter' = counter) \<and>
    (\<forall>m. uia_holds m r' \<longrightarrow> m = n \<or> uia_holds m r)"
proof -
  obtain c1 r1 n1 where i: "id_for_locked runtime_id (counter, r) = ((c1, r1), n1)" by (metis surj_pair)
  note inv = id_for_locked_inv [OF assms(1,2) i]
  have eq: "counter' = c1" "n = n1" and
    "r' = r1 \<or> runtime_id \<noteq> [] \<and> (\<exists>e. r' = r1\<lparr>ur_elements := (ur_elements r1)(n1 \<mapsto> e)\<rparr>)"
    using assms(3) i by (auto simp: uia_keep_def split: option.splits if_splits)
  then consider "r' = r1" | e where "runtime_id \<noteq> []" "r' = r1\<lparr>ur_elements := (ur_elements r1)(n1 \<mapsto> e)\<rparr>" by blast
  then have "uia_inv c1 r' \<and> (\<forall>m. uia_holds m r' = uia_holds m r1)"
  proof cases
    case 2
    then show ?thesis using inv uia_element_inv [of c1 r1 n1] by (simp add: uia_holds_def)
  qed (use inv in simp)
  then show ?thesis using inv eq by simp
qed

lemma uia_drop_inv:
  assumes "uia_inv counter r"
  shows "uia_inv counter (uia_drop n r) \<and> (\<forall>m. uia_holds m (uia_drop n r) \<longleftrightarrow> m \<noteq> n \<and> uia_holds m r)"
proof
  let ?r = "uia_drop n r"
  have reverse: "bt_get (ur_reverse ?r) m = (if m = n then None else bt_get (ur_reverse r) m)" for m
    by (simp add: uia_drop_def Let_def split: option.split)
  have forward: "ur_forward ?r k = Some m \<longleftrightarrow> ur_forward r k = Some m \<and> m \<noteq> n" for k m
  proof (cases "bt_get (ur_reverse r) n")
    case None
    then show ?thesis using uia_invD(1) [OF assms, of k m] by (auto simp: uia_drop_def)
  next
    case (Some runtime_id)
    then have known: "ur_forward r runtime_id = Some n" using uia_invD(1) [OF assms] by simp
    have dropped: "ur_forward ?r = (ur_forward r)(runtime_id := None)" using Some by (simp add: uia_drop_def)
    show ?thesis
    proof (cases "k = runtime_id")
      case True
      then show ?thesis using known dropped by simp
    next
      case False
      then have "ur_forward r k \<noteq> Some n" using Some uia_invD(1) [OF assms, of k n] by simp
      then show ?thesis using False dropped by auto
    qed
  qed
  have elements: "ur_elements ?r m = (if m = n then None else ur_elements r m)" for m
    by (simp add: uia_drop_def Let_def split: option.split)
  show "\<forall>m. uia_holds m ?r \<longleftrightarrow> m \<noteq> n \<and> uia_holds m r"
    by (simp add: uia_holds_def reverse)
  show "uia_inv counter ?r"
  proof (rule uia_invI)
    show "ur_forward ?r k = Some m \<longleftrightarrow> bt_get (ur_reverse ?r) m = Some k" for k m
      using forward reverse uia_invD(1) [OF assms, of k m] by simp
    show "m < counter" if "bt_get (ur_reverse ?r) m = Some k" for k m
      using that reverse uia_invD(2) [OF assms, of m k] by (simp split: if_splits)
    show "bt_get (ur_reverse ?r) m \<noteq> Some []" for m
      using reverse uia_invD(3) [OF assms, of m] by simp
    show "uia_holds m ?r" if "ur_elements ?r m = Some e" for m e
      using that elements reverse uia_invD(4) [OF assms, of m e] by (simp add: uia_holds_def split: if_splits)
  qed
qed

lemma fold_uia_drop:
  assumes "uia_inv counter r"
  shows "uia_inv counter (fold uia_drop ns r) \<and> (\<forall>m. uia_holds m (fold uia_drop ns r) \<longleftrightarrow> m \<notin> set ns \<and> uia_holds m r)"
  using assms
proof (induction ns arbitrary: r)
  case (Cons n ns)
  then show ?case using uia_drop_inv [OF Cons.prems, of n] Cons.IH [of "uia_drop n r"] by auto
qed simp

lemma uia_retain_inv:
  assumes "uia_inv counter r"
  shows "uia_inv counter (uia_retain keeps r) \<and> (\<forall>m. uia_holds m (uia_retain keeps r) \<longleftrightarrow> keeps m \<and> uia_holds m r)"
proof -
  have "m \<in> set (uia_ids r) \<longleftrightarrow> uia_holds m r" for m
    by (simp add: uia_ids_def uia_holds_def bt_keys_mem)
  then show ?thesis using fold_uia_drop [OF assms] by (auto simp: uia_retain_def)
qed

lemma insert_locked_inv:
  assumes "msaa_inv counter r" and "counter \<noteq> - 1" and "insert_locked node (counter, r) = ((counter', r'), n)"
  shows "msaa_inv counter' r' \<and> counter < counter' \<and> n = counter \<and> (\<forall>m. msaa_holds m r' \<longleftrightarrow> m = counter \<or> msaa_holds m r)"
proof -
  have fresh: "bt_get (mr_nodes r) counter = None"
    using assms(1) by (auto simp: msaa_inv_def msaa_holds_def)
  have eq: "counter' = counter + 1" "n = counter"
    "mr_nodes r' = bt_put counter node (mr_nodes r)"
    "mr_by_key r' = (if mn_at_address node then (mr_by_key r)(mn_key node \<mapsto> counter) else mr_by_key r)"
    "mr_by_object r' = (case mn_held node of
        Some held \<Rightarrow> (mr_by_object r)((mh_identity held, mh_child held) \<mapsto> counter) | None \<Rightarrow> mr_by_object r)"
    using assms(3) by (auto simp: insert_locked_def Let_def)
  have holds: "msaa_holds m r' \<longleftrightarrow> m = counter \<or> msaa_holds m r" for m
    by (simp add: msaa_holds_def eq)
  have other: "bt_get (mr_nodes r') m = bt_get (mr_nodes r) m" if "bt_get (mr_nodes r) m \<noteq> None" for m
    using that fresh eq by auto
  have "msaa_inv counter' r'"
    unfolding msaa_inv_def
  proof (intro conjI allI impI)
    fix m assume "msaa_holds m r'"
    then show "m < counter'"
      using holds assms(1) word_succ [OF assms(2)] eq by (auto simp: msaa_inv_def intro: order_less_trans)
  next
    fix key m assume k: "mr_by_key r' key = Some m"
    show "\<exists>node. bt_get (mr_nodes r') m = Some node \<and> mn_key node = key \<and> mn_at_address node"
    proof (cases "mn_at_address node \<and> key = mn_key node")
      case True
      then show ?thesis using k eq by auto
    next
      case False
      then have "mr_by_key r key = Some m" using k eq by (auto split: if_splits)
      then obtain node' where "bt_get (mr_nodes r) m = Some node'" "mn_key node' = key" "mn_at_address node'"
        using assms(1) unfolding msaa_inv_def by blast
      then show ?thesis using other [of m] by simp
    qed
  next
    fix i child m assume k: "mr_by_object r' (i, child) = Some m"
    show "\<exists>node held. bt_get (mr_nodes r') m = Some node \<and> mn_held node = Some held \<and> mh_identity held = i \<and> mh_child held = child"
    proof (cases "mr_by_object r (i, child) = Some m \<and> m \<noteq> counter")
      case True
      then obtain node' held where "bt_get (mr_nodes r) m = Some node'" "mn_held node' = Some held"
        "mh_identity held = i" "mh_child held = child"
        using assms(1) unfolding msaa_inv_def by blast
      then show ?thesis using other [of m] by simp
    next
      case False
      have "mr_by_object r (i, child) \<noteq> Some counter"
        using assms(1) fresh unfolding msaa_inv_def by (metis option.distinct(1))
      then show ?thesis using k False eq by (auto split: option.splits if_splits)
    qed
  qed
  then show ?thesis using eq holds word_succ [OF assms(2)] by simp
qed

lemma msaa_invD:
  assumes "msaa_inv counter r"
  shows "msaa_holds n r \<Longrightarrow> n < counter"
    and "mr_by_key r key = Some n \<Longrightarrow> \<exists>node. bt_get (mr_nodes r) n = Some node \<and> mn_key node = key \<and> mn_at_address node"
    and "mr_by_object r (i, child) = Some n \<Longrightarrow> \<exists>node held. bt_get (mr_nodes r) n = Some node \<and>
      mn_held node = Some held \<and> mh_identity held = i \<and> mh_child held = child"
  using assms unfolding msaa_inv_def by blast+

lemma msaa_drop_inv:
  assumes "msaa_inv counter r"
  shows "msaa_inv counter (msaa_drop n r) \<and> (\<forall>m. msaa_holds m (msaa_drop n r) \<longleftrightarrow> m \<noteq> n \<and> msaa_holds m r)"
proof (cases "bt_get (mr_nodes r) n")
  case None
  then show ?thesis using assms by (auto simp: msaa_drop_def msaa_holds_def)
next
  case (Some node)
  let ?r = "msaa_drop n r"
  have nodes: "bt_get (mr_nodes ?r) m = (if m = n then None else bt_get (mr_nodes r) m)" for m
    using Some by (simp add: msaa_drop_def)
  have by_key: "mr_by_key r key = Some m \<and> m \<noteq> n" if "mr_by_key ?r key = Some m" for key m
    using that Some msaa_invD(2) [OF assms, of key m] by (auto simp: msaa_drop_def split: if_splits)
  have by_object: "mr_by_object r (i, child) = Some m \<and> m \<noteq> n" if o: "mr_by_object ?r (i, child) = Some m" for i child m
  proof -
    have r: "mr_by_object r (i, child) = Some m"
      using o Some by (auto simp: msaa_drop_def split: if_splits option.splits)
    moreover have "m \<noteq> n"
    proof
      assume "m = n"
      then obtain held where "mn_held node = Some held" "mh_identity held = i" "mh_child held = child"
        using msaa_invD(3) [OF assms r] Some by auto
      then show False using o Some r \<open>m = n\<close> by (simp add: msaa_drop_def)
    qed
    ultimately show ?thesis by simp
  qed
  have "msaa_inv counter ?r"
    unfolding msaa_inv_def
  proof (intro conjI allI impI)
    show "m < counter" if "msaa_holds m ?r" for m
      using that nodes msaa_invD(1) [OF assms, of m] by (simp add: msaa_holds_def split: if_splits)
    show "\<exists>node. bt_get (mr_nodes ?r) m = Some node \<and> mn_key node = key \<and> mn_at_address node"
      if "mr_by_key ?r key = Some m" for key m
      using by_key [OF that] nodes msaa_invD(2) [OF assms, of key m] by simp
    show "\<exists>node held. bt_get (mr_nodes ?r) m = Some node \<and> mn_held node = Some held \<and> mh_identity held = i \<and> mh_child held = child"
      if "mr_by_object ?r (i, child) = Some m" for i child m
      using by_object [OF that] nodes msaa_invD(3) [OF assms, of i child m] by simp
  qed
  then show ?thesis using nodes by (simp add: msaa_holds_def)
qed

lemma msaa_remove_inv:
  assumes "msaa_inv counter r"
  shows "msaa_inv counter (msaa_remove gone r) \<and> (\<forall>m. msaa_holds m (msaa_remove gone r) \<longleftrightarrow> m \<notin> set gone \<and> msaa_holds m r)"
  using assms
proof (induction gone arbitrary: r)
  case (Cons n gone)
  then show ?case
    using msaa_drop_inv [OF Cons.prems, of n] Cons.IH [of "msaa_drop n r"] by (auto simp: msaa_remove_def)
qed (simp add: msaa_remove_def)

lemma msaa_retain_inv:
  assumes "msaa_inv counter r"
  shows "msaa_inv counter (msaa_retain keeps r) \<and> (\<forall>m. msaa_holds m (msaa_retain keeps r) \<longleftrightarrow> keeps m \<and> msaa_holds m r)"
proof -
  have "m \<in> set (msaa_ids r) \<longleftrightarrow> msaa_holds m r" for m
    by (simp add: msaa_ids_def msaa_holds_def bt_keys_mem)
  then show ?thesis using msaa_remove_inv [OF assms] by (auto simp: msaa_retain_def)
qed

lemma forget_window_inv:
  assumes "msaa_inv counter r" and "forget_window hwnd r = (r', gone)"
  shows "msaa_inv counter r' \<and> (\<forall>m. msaa_holds m r' \<longleftrightarrow> m \<notin> set gone \<and> msaa_holds m r)"
  using assms msaa_remove_inv [OF assms(1)] by (auto simp: forget_window_def Let_def)

text \<open>A destroyed window's handle names nothing that is kept.\<close>

lemma forget_window_all:
  assumes "msaa_inv counter r" and "forget_window hwnd r = (r', gone)"
  shows "mr_by_key r' (hwnd, object, child) = None"
proof (rule ccontr)
  assume "mr_by_key r' (hwnd, object, child) \<noteq> None"
  moreover have inv: "msaa_inv counter r'" and held: "\<And>m. msaa_holds m r' \<Longrightarrow> m \<notin> set gone"
    using forget_window_inv [OF assms] by auto
  ultimately obtain n node where n: "bt_get (mr_nodes r') n = Some node" "mn_key node = (hwnd, object, child)"
    using msaa_invD(2) [OF inv] by blast
  have "bt_get (mr_nodes (fold msaa_drop ns s)) n = Some node \<Longrightarrow> bt_get (mr_nodes s) n = Some node" for ns and s :: "('a, 'b) msaa_registry"
  proof (induction ns arbitrary: s)
    case (Cons m ns)
    then have "bt_get (mr_nodes (msaa_drop m s)) n = Some node" by simp
    then show ?case by (auto simp: msaa_drop_def split: option.splits if_splits)
  qed simp
  then have "bt_get (mr_nodes r) n = Some node" using n(1) assms(2) by (auto simp: forget_window_def Let_def msaa_remove_def)
  then have "(n, node) \<in> set (bt_entries (mr_nodes r))" by (simp add: bt_mem_entries)
  then have "n \<in> set gone" using n(2) assms(2) by (force simp: forget_window_def Let_def)
  then show False using held n(1) by (auto simp: msaa_holds_def)
qed

lemma msaa_id_for_inv:
  assumes "msaa_inv counter r" and "counter \<noteq> - 1" and "msaa_id_for key (counter, r) = ((counter', r'), n)"
  shows "msaa_inv counter' r' \<and> counter \<le> counter' \<and> n < counter' \<and> (n = counter \<or> msaa_holds n r \<and> counter' = counter) \<and>
    (\<forall>m. msaa_holds m r' \<longrightarrow> m = n \<or> msaa_holds m r)"
proof (cases "mr_by_key r key")
  case None
  then have "insert_locked \<lparr>mn_key = key, mn_held = None, mn_role = None, mn_at_address = True, mn_facts = None\<rparr> (counter, r) =
      ((counter', r'), n)"
    using assms(3) by (simp add: msaa_id_for_def)
  from insert_locked_inv [OF assms(1,2) this] show ?thesis by auto
next
  case (Some m)
  then have "counter' = counter" "r' = r" "n = m" using assms(3) by (simp_all add: msaa_id_for_def)
  moreover have "msaa_holds m r" using msaa_invD(2) [OF assms(1) Some] by (auto simp: msaa_holds_def)
  ultimately show ?thesis using assms(1) msaa_invD(1) [OF assms(1)] by simp
qed

lemma reissue_inv:
  assumes "msaa_inv counter r"
  shows "msaa_inv counter (reissue n name r) \<and> (\<forall>m. msaa_holds m (reissue n name r) \<longleftrightarrow> msaa_holds m r)"
proof (cases "bt_get (mr_nodes r) n")
  case None
  then show ?thesis using assms by (simp add: reissue_def)
next
  case (Some node)
  let ?node = "node\<lparr>mn_facts := map_option (\<lambda>f. f\<lparr>mf_name := name\<rparr>) (mn_facts node)\<rparr>"
  have nodes: "bt_get (mr_nodes (reissue n name r)) m = (if m = n then Some ?node else bt_get (mr_nodes r) m)" for m
    using Some by (simp add: reissue_def)
  have maps: "mr_by_key (reissue n name r) = mr_by_key r" "mr_by_object (reissue n name r) = mr_by_object r"
    using Some by (simp_all add: reissue_def)
  have holds: "msaa_holds m (reissue n name r) \<longleftrightarrow> msaa_holds m r" for m
    using Some by (simp add: msaa_holds_def nodes)
  have "msaa_inv counter (reissue n name r)"
    unfolding msaa_inv_def maps holds
  proof (intro conjI allI impI)
    show "m < counter" if "msaa_holds m r" for m using msaa_invD(1) [OF assms that] .
    show "\<exists>node. bt_get (mr_nodes (reissue n name r)) m = Some node \<and> mn_key node = key \<and> mn_at_address node"
      if "mr_by_key r key = Some m" for key m
      using msaa_invD(2) [OF assms that] Some by (auto simp: nodes)
    show "\<exists>node held. bt_get (mr_nodes (reissue n name r)) m = Some node \<and> mn_held node = Some held \<and>
        mh_identity held = i \<and> mh_child held = child"
      if "mr_by_object r (i, child) = Some m" for i child m
      using msaa_invD(3) [OF assms that] Some by (auto simp: nodes)
  qed
  then show ?thesis using holds by simp
qed

text \<open>A lookup never panics, and what it finds is kept.\<close>

lemma msaa_find_kept:
  assumes "msaa_inv counter r"
  shows "\<exists>found. msaa_find key identity child at_address r = Some found \<and>
    (case found of FoundObject n object \<Rightarrow> msaa_holds n r | FoundKey n object role \<Rightarrow> msaa_holds n r | FoundNothing \<Rightarrow> True)"
proof (cases "same_object key identity child r")
  case (Some nn)
  then show ?thesis
    by (auto simp: msaa_find_def same_object_def msaa_holds_def split: option.splits if_splits)
next
  case None
  then show ?thesis
    using msaa_invD(2) [OF assms, of key] by (cases "mr_by_key r key") (auto simp: msaa_find_def msaa_holds_def)
qed

end
