(* ===== verification/Object_Store.thy ===== *)
theory Object_Store
  imports Outpost_Backlog Node_Registries
begin

text \<open>
  The outpost's object store (\<^verbatim>\<open>verbatim-outpost/src/outpost/store/mod.rs\<close>): every node and text anchor it
  gives a number is tagged with the requests that may name it, every message is recorded with what
  it names, and what no request, no message on its way and not Core may still name is released.

  The store is modelled as far as identity and release go: the registries, the tags and the anchors'
  nodes. The other objects it keeps for a node (text patterns, ranges, terminals, parked events) are
  references it only puts in and takes out, and are left out.
\<close>

section \<open>Tags\<close>

record tag =
  tg_generation :: u64
  tg_request :: u64

record ('o, 'r) store =
  so_counter :: u64
  so_uia :: "'o uia_registry"
  so_msaa :: "('o, 'r) msaa_registry"
  so_nodes :: "(u64, tag list) btree"
  so_anchors :: "(u64, tag list) btree"
  so_anchor_nodes :: "(u64, u64) btree"

definition store_new :: "('o, 'r) store" where
  "store_new =
     \<lparr>so_counter = 1, so_uia = uia_new, so_msaa = msaa_new, so_nodes = bt_empty, so_anchors = bt_empty,
      so_anchor_nodes = bt_empty\<rparr>"

definition add_tag :: "tag \<Rightarrow> tag list \<Rightarrow> tag list" where
  "add_tag t tags = (if t \<in> set tags then tags else tags @ [t])"

definition tag_entry :: "u64 \<Rightarrow> tag \<Rightarrow> (u64, tag list) btree \<Rightarrow> (u64, tag list) btree" where
  "tag_entry n t m = bt_put n (add_tag t (case bt_get m n of Some tags \<Rightarrow> tags | None \<Rightarrow> [])) m"

definition tag_node :: "u64 \<Rightarrow> tag \<Rightarrow> ('o, 'r) store \<Rightarrow> ('o, 'r) store" where
  "tag_node n t s = s\<lparr>so_nodes := tag_entry n t (so_nodes s)\<rparr>"

definition tag_anchor :: "u64 \<Rightarrow> tag \<Rightarrow> u64 \<Rightarrow> ('o, 'r) store \<Rightarrow> ('o, 'r) store" where
  "tag_anchor node t a s =
     s\<lparr>so_anchors := tag_entry a t (so_anchors s), so_anchor_nodes := bt_put a node (so_anchor_nodes s)\<rparr>"

definition tag_anchors :: "u64 \<Rightarrow> u64 list \<Rightarrow> tag \<Rightarrow> ('o, 'r) store \<Rightarrow> ('o, 'r) store" where
  "tag_anchors node anchors t s = fold (tag_anchor node t) anchors s"

text \<open>Whether an anchor's node is among those that go.\<close>

definition goes_with :: "u64 list \<Rightarrow> ('o, 'r) store \<Rightarrow> u64 \<Rightarrow> bool" where
  "goes_with gone s a \<longleftrightarrow> (case bt_get (so_anchor_nodes s) a of Some node \<Rightarrow> node \<in> set gone | None \<Rightarrow> False)"

definition forget_nodes :: "u64 list \<Rightarrow> ('o, 'r) store \<Rightarrow> ('o, 'r) store" where
  "forget_nodes gone s =
     s\<lparr>so_anchors := bt_retain (\<lambda>a. \<not> goes_with gone s a) (so_anchors s),
       so_anchor_nodes := bt_retain (\<lambda>a. \<not> goes_with gone s a) (so_anchor_nodes s),
       so_nodes := fold bt_remove gone (so_nodes s)\<rparr>"

definition store_holds :: "u64 \<Rightarrow> ('o, 'r) store \<Rightarrow> bool" where
  "store_holds n s \<longleftrightarrow> uia_holds n (so_uia s) \<or> msaa_holds n (so_msaa s)"

section \<open>A request's handle\<close>

definition nodes_existing :: "i32 list \<Rightarrow> tag \<Rightarrow> ('o, 'r) store \<Rightarrow> ('o, 'r) store \<times> u64 option" where
  "nodes_existing runtime_id t s =
     (case uia_existing runtime_id (so_uia s) of
        None \<Rightarrow> (s, None)
      | Some n \<Rightarrow> (tag_node n t s, Some n))"

definition nodes_keep :: "i32 list \<Rightarrow> 'o option \<Rightarrow> tag \<Rightarrow> ('o, 'r) store \<Rightarrow> ('o, 'r) store \<times> u64 \<times> 'o option" where
  "nodes_keep runtime_id element t s =
     (let ((counter, uia), n, replaced) = uia_keep runtime_id element (so_counter s, so_uia s)
      in (tag_node n t (s\<lparr>so_counter := counter, so_uia := uia\<rparr>), n, replaced))"

definition nodes_msaa_key :: "msaa_key \<Rightarrow> tag \<Rightarrow> ('o, 'r) store \<Rightarrow> ('o, 'r) store \<times> u64" where
  "nodes_msaa_key key t s =
     (let ((counter, msaa), n) = msaa_id_for key (so_counter s, so_msaa s)
      in (tag_node n t (s\<lparr>so_counter := counter, so_msaa := msaa\<rparr>), n))"

definition nodes_find ::
  "msaa_key \<Rightarrow> usize option \<Rightarrow> i32 \<Rightarrow> bool \<Rightarrow> tag \<Rightarrow> ('o, 'r) store \<Rightarrow> (('o, 'r) store \<times> ('o, 'r) found) option" where
  "nodes_find key identity child at_address t s =
     (case msaa_find key identity child at_address (so_msaa s) of
        None \<Rightarrow> None
      | Some found \<Rightarrow>
          Some (case found of
                  FoundObject n object \<Rightarrow> tag_node n t s
                | FoundKey n object role \<Rightarrow> tag_node n t s
                | FoundNothing \<Rightarrow> s, found))"

definition nodes_touch :: "u64 \<Rightarrow> tag \<Rightarrow> ('o, 'r) store \<Rightarrow> ('o, 'r) store" where
  "nodes_touch n t s = (if msaa_holds n (so_msaa s) then tag_node n t s else s)"

definition nodes_insert ::
  "msaa_key \<Rightarrow> 'o msaa_held option \<Rightarrow> 'r \<times> msaa_facts \<Rightarrow> bool \<Rightarrow> tag \<Rightarrow> ('o, 'r) store \<Rightarrow> ('o, 'r) store \<times> u64" where
  "nodes_insert key held role_facts at_address t s =
     (let ((counter, msaa), n) = msaa_insert key held role_facts at_address (so_counter s, so_msaa s)
      in (tag_node n t (s\<lparr>so_counter := counter, so_msaa := msaa\<rparr>), n))"

definition nodes_reissue :: "u64 \<Rightarrow> string option \<Rightarrow> tag \<Rightarrow> ('o, 'r) store \<Rightarrow> ('o, 'r) store" where
  "nodes_reissue n name t s =
     (if msaa_holds n (so_msaa s) then tag_node n t (s\<lparr>so_msaa := reissue n name (so_msaa s)\<rparr>) else s)"

fun held_count :: "u64 list \<Rightarrow> ('o, 'r) store \<Rightarrow> nat" where
  "held_count [] s = 0"
| "held_count (n # chain) s = (if store_holds n s then Suc (held_count chain s) else 0)"

definition held_prefix :: "tag \<Rightarrow> u64 list \<Rightarrow> ('o, 'r) store \<Rightarrow> ('o, 'r) store \<times> nat" where
  "held_prefix t chain s =
     (let held = held_count chain s in (fold (\<lambda>n. tag_node n t) (take held chain) s, held))"

definition tag_copied :: "tag \<Rightarrow> u64 list \<Rightarrow> ('o, 'r) store \<Rightarrow> ('o, 'r) store" where
  "tag_copied t nodes s = fold (\<lambda>n s. if store_holds n s then tag_node n t s else s) nodes s"

text \<open>The anchors of a text write, tagged unless the change adds to a node that is no longer held.\<close>

definition write_anchors :: "bool \<Rightarrow> u64 \<Rightarrow> u64 list \<Rightarrow> tag \<Rightarrow> ('o, 'r) store \<Rightarrow> ('o, 'r) store" where
  "write_anchors adds node touched t s =
     (if adds \<and> \<not> store_holds node s then s else tag_anchors node touched t s)"

section \<open>Messages and release\<close>

fun retain_first :: "'a list \<Rightarrow> 'a list \<Rightarrow> 'a list" where
  "retain_first seen [] = []"
| "retain_first seen (x # xs) = (if x \<in> set seen then retain_first seen xs else x # retain_first (x # seen) xs)"

definition carried_of :: "named \<Rightarrow> carried list" where
  "carried_of n = retain_first [] (map (\<lambda>node. CarriedNode (nid_number node)) (nm_nodes n) @ map CarriedAnchor (nm_anchors n))"

text \<open>\<open>Store::record\<close>, as \<open>Outbound::publish\<close> sends it.\<close>

definition record_message :: "'x outpost_to_core \<Rightarrow> 'x outpost_item" where
  "record_message message = OutMessage message (carried_of (named_by message))"

definition live_tags :: "tag list \<Rightarrow> tag list \<Rightarrow> tag list" where
  "live_tags live tags = filter (\<lambda>t. t \<in> set live) tags"

definition may_free :: "carried list \<Rightarrow> u64 \<Rightarrow> tag list \<Rightarrow> 'x pending \<Rightarrow> carried \<Rightarrow> tag list \<Rightarrow> bool" where
  "may_free held acknowledged live p c tags \<longleftrightarrow>
     live_tags live tags = [] \<and>
     (case pending_report c p of
        None \<Rightarrow> True
      | Some (pos, waiting) \<Rightarrow> waiting = 0 \<and> pos \<le> acknowledged \<and> c \<notin> set held)"

definition store_keeps :: "('o, 'r) store \<Rightarrow> carried \<Rightarrow> bool" where
  "store_keeps s c \<longleftrightarrow>
     (case c of
        CarriedNode n \<Rightarrow> bt_get (so_nodes s) n \<noteq> None
      | CarriedAnchor a \<Rightarrow> bt_get (so_anchors s) a \<noteq> None)"

definition freed_nodes :: "carried list \<Rightarrow> u64 \<Rightarrow> tag list \<Rightarrow> 'x pending \<Rightarrow> ('o, 'r) store \<Rightarrow> u64 list" where
  "freed_nodes held acknowledged live p s =
     map fst (filter (\<lambda>(n, tags). may_free held acknowledged live p (CarriedNode n) tags) (bt_entries (so_nodes s)))"

definition freed_anchors :: "carried list \<Rightarrow> u64 \<Rightarrow> tag list \<Rightarrow> 'x pending \<Rightarrow> ('o, 'r) store \<Rightarrow> u64 list" where
  "freed_anchors held acknowledged live p s =
     map fst (filter (\<lambda>(a, tags). may_free held acknowledged live p (CarriedAnchor a) tags) (bt_entries (so_anchors s)))"

record released =
  re_nodes :: "u64 list"
  re_anchors :: "u64 list"

definition release ::
  "carried list \<Rightarrow> u64 \<Rightarrow> tag list \<Rightarrow> 'x pending \<times> ('o, 'r) store \<Rightarrow> ('x pending \<times> ('o, 'r) store) \<times> released option" where
  "release held acknowledged live = (\<lambda>(p, s).
     let nodes = freed_nodes held acknowledged live p s;
         anchors = freed_anchors held acknowledged live p s;
         s = s\<lparr>so_nodes := bt_map (\<lambda>_. live_tags live) (so_nodes s), so_anchors := bt_map (\<lambda>_. live_tags live) (so_anchors s)\<rparr>
     in if nodes = [] \<and> anchors = [] then ((p, s), None)
        else
          let s = s\<lparr>so_uia := uia_retain (\<lambda>n. n \<notin> set nodes) (so_uia s), so_msaa := msaa_retain (\<lambda>n. n \<notin> set nodes) (so_msaa s)\<rparr>;
              s = forget_nodes nodes s;
              s = s\<lparr>so_anchors := fold bt_remove anchors (so_anchors s), so_anchor_nodes := fold bt_remove anchors (so_anchor_nodes s)\<rparr>;
              p = pending_forget (\<lambda>c. \<not> store_keeps s c) p
          in ((p, s), Some \<lparr>re_nodes = nodes, re_anchors = anchors\<rparr>))"

definition store_forget_window :: "isize \<Rightarrow> ('o, 'r) store \<Rightarrow> ('o, 'r) store \<times> u64 list" where
  "store_forget_window hwnd s =
     (let (msaa, gone) = forget_window hwnd (so_msaa s)
      in (forget_nodes gone (s\<lparr>so_msaa := msaa\<rparr>), gone))"

definition release_everything :: "('o, 'r) store \<Rightarrow> ('o, 'r) store \<times> nat" where
  "release_everything s =
     (let nodes = uia_ids (so_uia s) @ msaa_ids (so_msaa s);
          s = forget_nodes nodes
                (s\<lparr>so_uia := uia_retain (\<lambda>_. False) (so_uia s), so_msaa := msaa_retain (\<lambda>_. False) (so_msaa s)\<rparr>)
      in (s\<lparr>so_nodes := bt_empty, so_anchors := bt_empty, so_anchor_nodes := bt_empty\<rparr>, length (remdups nodes)))"

section \<open>The outpost's calls of the store and its queue\<close>

text \<open>
  Every call that changes the store or the queue, in any order. The state also keeps, for the theorems,
  what was written to Core, in order, and the highest position Core has acknowledged.
\<close>

record ('x, 'o, 'r) outpost_state =
  os_pending :: "'x pending"
  os_store :: "('o, 'r) store"
  os_written :: "'x outpost_waiting list"
  os_acknowledged :: nat

definition outpost_start :: "(nat \<Rightarrow> u64) \<Rightarrow> ('x, 'o, 'r) outpost_state" where
  "outpost_start clock =
     \<lparr>os_pending = pending_new clock, os_store = store_new, os_written = [], os_acknowledged = 0\<rparr>"

datatype ('x, 'o, 'r) store_call =
    CallExisting "i32 list" tag
  | CallKeep "i32 list" "'o option" tag
  | CallMsaaKey msaa_key tag
  | CallFind msaa_key "usize option" i32 bool tag
  | CallTouch u64 tag
  | CallInsert msaa_key "'o msaa_held option" "'r \<times> msaa_facts" bool tag
  | CallReissue u64 "string option" tag
  | CallHeldPrefix tag "u64 list"
  | CallTagCopied tag "u64 list"
  | CallWriteAnchors bool u64 "u64 list" tag
  | CallPublish "'x outpost_to_core"
  | CallUrgent urgent
  | CallFlush nat
  | CallWrite
  | CallRelease "carried list" u64 "tag list"
  | CallForgetWindow isize

definition on_store :: "(('o, 'r) store \<Rightarrow> ('o, 'r) store) \<Rightarrow> ('x, 'o, 'r) outpost_state \<Rightarrow> ('x, 'o, 'r) outpost_state" where
  "on_store f st = st\<lparr>os_store := f (os_store st)\<rparr>"

definition on_pending :: "('x pending \<Rightarrow> 'x pending) \<Rightarrow> ('x, 'o, 'r) outpost_state \<Rightarrow> ('x, 'o, 'r) outpost_state" where
  "on_pending f st = st\<lparr>os_pending := f (os_pending st)\<rparr>"

text \<open>The tag a lookup of the MSAA registry leaves; nothing where it would panic, which it never does.\<close>

definition found_tagged :: "msaa_key \<Rightarrow> usize option \<Rightarrow> i32 \<Rightarrow> bool \<Rightarrow> tag \<Rightarrow> ('o, 'r) store \<Rightarrow> ('o, 'r) store" where
  "found_tagged key identity child at_address t s =
     (case nodes_find key identity child at_address t s of Some (s', found) \<Rightarrow> s' | None \<Rightarrow> s)"

fun store_step ::
  "('x outpost_to_core \<Rightarrow> u8 list io_result) \<Rightarrow> ('x, 'o, 'r) outpost_state \<Rightarrow> ('x, 'o, 'r) store_call \<Rightarrow>
     ('x, 'o, 'r) outpost_state \<times> released list" where
  "store_step put st (CallExisting runtime_id t) = (on_store (\<lambda>s. fst (nodes_existing runtime_id t s)) st, [])"
| "store_step put st (CallKeep runtime_id element t) = (on_store (\<lambda>s. fst (nodes_keep runtime_id element t s)) st, [])"
| "store_step put st (CallMsaaKey key t) = (on_store (\<lambda>s. fst (nodes_msaa_key key t s)) st, [])"
| "store_step put st (CallFind key identity child at_address t) =
     (on_store (found_tagged key identity child at_address t) st, [])"
| "store_step put st (CallTouch n t) = (on_store (nodes_touch n t) st, [])"
| "store_step put st (CallInsert key held role_facts at_address t) =
     (on_store (\<lambda>s. fst (nodes_insert key held role_facts at_address t s)) st, [])"
| "store_step put st (CallReissue n name t) = (on_store (nodes_reissue n name t) st, [])"
| "store_step put st (CallHeldPrefix t chain) = (on_store (\<lambda>s. fst (held_prefix t chain s)) st, [])"
| "store_step put st (CallTagCopied t nodes) = (on_store (tag_copied t nodes) st, [])"
| "store_step put st (CallWriteAnchors adds node touched t) = (on_store (write_anchors adds node touched t) st, [])"
| "store_step put st (CallPublish message) = (on_pending (pending_push (record_message message)) st, [])"
| "store_step put st (CallUrgent message) = (on_pending (pending_push (OutUrgent message)) st, [])"
| "store_step put st (CallFlush channel) = (on_pending (pending_push (OutFlushed channel)) st, [])"
| "store_step put st CallWrite =
     (let (p, es) = outbound_step put (os_pending st) OutboundWrite
      in (st\<lparr>os_pending := p, os_written := os_written st @ all_of wrote_waiting es\<rparr>, []))"
| "store_step put st (CallRelease held acknowledged live) =
     (let ((p, s), freed) = release held acknowledged live (os_pending st, os_store st)
      in (st\<lparr>os_pending := p, os_store := s, os_acknowledged := max (os_acknowledged st) (unat acknowledged)\<rparr>,
          case freed of Some r \<Rightarrow> [r] | None \<Rightarrow> []))"
| "store_step put st (CallForgetWindow hwnd) = (on_store (\<lambda>s. fst (store_forget_window hwnd s)) st, [])"

text \<open>The numbers the written messages have as Core counts them, each with what the message names.\<close>

fun numbered :: "nat \<Rightarrow> 'x outpost_waiting list \<Rightarrow> (nat \<times> carried list) list" where
  "numbered k [] = []"
| "numbered k (WaitMessage m touched # ws) =
     (let k' = (if carries_nodes m then Suc k else k) in (k', touched) # numbered k' ws)"
| "numbered k (WaitFlushed channel # ws) = numbered k ws"

definition named_at :: "carried \<Rightarrow> 'x outpost_waiting list \<Rightarrow> nat list" where
  "named_at c ws = map fst (filter (\<lambda>(k, touched). c \<in> set touched) (numbered 0 ws))"

fun touched_of :: "'x outpost_waiting \<Rightarrow> carried list" where
  "touched_of (WaitMessage m touched) = touched"
| "touched_of (WaitFlushed channel) = []"

fun counted :: "'x outpost_waiting \<Rightarrow> bool" where
  "counted (WaitMessage m touched) = carries_nodes m"
| "counted (WaitFlushed channel) = False"

definition messages_counted :: "'x outpost_waiting list \<Rightarrow> nat" where
  "messages_counted ws = length (filter counted ws)"

text \<open>
  The contract of the calls. Numbers and counts stay below their widths. A message names nodes that
  were issued, and anchors that are kept or whose node is gone; an anchor belongs to one node,
  \<open>owner\<close>, which is held when the anchor is written. Core acknowledges no less than before.
\<close>

definition owner_gone :: "(u64 \<Rightarrow> u64) \<Rightarrow> ('o, 'r) store \<Rightarrow> u64 \<Rightarrow> bool" where
  "owner_gone owner s a \<longleftrightarrow> owner a < so_counter s \<and> \<not> store_holds (owner a) s"

fun may_name :: "(u64 \<Rightarrow> u64) \<Rightarrow> ('o, 'r) store \<Rightarrow> carried \<Rightarrow> bool" where
  "may_name owner s (CarriedNode n) \<longleftrightarrow> n < so_counter s"
| "may_name owner s (CarriedAnchor a) \<longleftrightarrow> bt_get (so_anchors s) a \<noteq> None \<or> owner_gone owner s a"

fun store_ok :: "(u64 \<Rightarrow> u64) \<Rightarrow> ('x, 'o, 'r) outpost_state \<Rightarrow> ('x, 'o, 'r) store_call \<Rightarrow> bool" where
  "store_ok owner st (CallKeep runtime_id element t) \<longleftrightarrow> so_counter (os_store st) \<noteq> - 1"
| "store_ok owner st (CallMsaaKey key t) \<longleftrightarrow> so_counter (os_store st) \<noteq> - 1"
| "store_ok owner st (CallInsert key held role_facts at_address t) \<longleftrightarrow> so_counter (os_store st) \<noteq> - 1"
| "store_ok owner st (CallWriteAnchors adds node touched t) \<longleftrightarrow>
     (adds \<or> touched = []) \<and> list_all (\<lambda>a. owner a = node) touched"
| "store_ok owner st (CallPublish message) \<longleftrightarrow>
     list_all (may_name owner (os_store st)) (carried_of (named_by message)) \<and>
     length (all_of touched_of (pd_ordinary (os_pending st))) + length (carried_of (named_by message)) < 2 ^ 32"
| "store_ok owner st CallWrite \<longleftrightarrow> messages_counted (os_written st) < 2 ^ 64 - 1"
| "store_ok owner st (CallRelease held acknowledged live) \<longleftrightarrow> os_acknowledged st \<le> unat acknowledged"
| "store_ok owner st call \<longleftrightarrow> True"

section \<open>Identity\<close>

text \<open>What is held is tagged, what is tagged was issued, and no number names two objects.\<close>

definition ids_inv :: "(u64 \<Rightarrow> u64) \<Rightarrow> ('o, 'r) store \<Rightarrow> bool" where
  "ids_inv owner s \<longleftrightarrow>
     uia_inv (so_counter s) (so_uia s) \<and> msaa_inv (so_counter s) (so_msaa s) \<and>
     (\<forall>n. \<not> (uia_holds n (so_uia s) \<and> msaa_holds n (so_msaa s))) \<and>
     (\<forall>n. store_holds n s \<longrightarrow> store_keeps s (CarriedNode n)) \<and>
     (\<forall>n. store_keeps s (CarriedNode n) \<longrightarrow> n < so_counter s) \<and>
     (\<forall>a. store_keeps s (CarriedAnchor a) \<longrightarrow> bt_get (so_anchor_nodes s) a = Some (owner a))"

lemma ids_invD:
  assumes "ids_inv owner s"
  shows "uia_inv (so_counter s) (so_uia s)" "msaa_inv (so_counter s) (so_msaa s)"
    "\<not> (uia_holds n (so_uia s) \<and> msaa_holds n (so_msaa s))"
    "store_holds n s \<Longrightarrow> store_keeps s (CarriedNode n)"
    "store_keeps s (CarriedNode n) \<Longrightarrow> n < so_counter s"
    "store_keeps s (CarriedAnchor a) \<Longrightarrow> bt_get (so_anchor_nodes s) a = Some (owner a)"
  using assms unfolding ids_inv_def by blast+

lemma ids_inv_new: "ids_inv owner store_new"
  by (simp add: ids_inv_def store_new_def uia_inv_new msaa_inv_new store_holds_def store_keeps_def)
    (simp add: uia_holds_def uia_new_def msaa_holds_def msaa_new_def)

text \<open>What may still come to be kept: a number not yet issued, an anchor whose node is not gone.\<close>

fun unmade :: "(u64 \<Rightarrow> u64) \<Rightarrow> ('o, 'r) store \<Rightarrow> carried \<Rightarrow> bool" where
  "unmade owner s (CarriedNode n) \<longleftrightarrow> \<not> n < so_counter s"
| "unmade owner s (CarriedAnchor a) \<longleftrightarrow> \<not> owner_gone owner s a"

definition store_change :: "(u64 \<Rightarrow> u64) \<Rightarrow> ('o, 'r) store \<Rightarrow> ('o, 'r) store \<Rightarrow> bool" where
  "store_change owner s s' \<longleftrightarrow>
     (\<forall>c. store_keeps s' c \<longrightarrow> store_keeps s c \<or> unmade owner s c) \<and>
     (\<forall>c. unmade owner s' c \<longrightarrow> unmade owner s c) \<and>
     (\<forall>c. store_keeps s c \<and> \<not> store_keeps s' c \<longrightarrow> \<not> unmade owner s' c)"

lemma store_change_refl: "store_change owner s s"
  by (simp add: store_change_def)

lemma store_change_trans:
  assumes "store_change owner s s'" and "store_change owner s' s''"
  shows "store_change owner s s''"
  using assms unfolding store_change_def by meson

lemma bt_get_tag_entry [simp]: "bt_get (tag_entry n t m) k \<noteq> None \<longleftrightarrow> k = n \<or> bt_get m k \<noteq> None"
  by (simp add: tag_entry_def)

lemma tag_node_simps [simp]:
  "so_counter (tag_node n t s) = so_counter s" "so_uia (tag_node n t s) = so_uia s" "so_msaa (tag_node n t s) = so_msaa s"
  "so_anchors (tag_node n t s) = so_anchors s" "so_anchor_nodes (tag_node n t s) = so_anchor_nodes s"
  "store_holds m (tag_node n t s) = store_holds m s"
  by (simp_all add: tag_node_def store_holds_def)

lemma tag_node_keeps: "store_keeps (tag_node n t s) c \<longleftrightarrow> c = CarriedNode n \<or> store_keeps s c"
  by (auto simp: store_keeps_def tag_node_def tag_entry_def split: carried.split)

text \<open>A node issued or looked up, and tagged.\<close>

lemma tagged_ids:
  assumes ids: "ids_inv owner s"
    and same: "so_nodes s1 = so_nodes s" "so_anchors s1 = so_anchors s" "so_anchor_nodes s1 = so_anchor_nodes s"
    and count: "so_counter s \<le> so_counter s1"
    and uia: "uia_inv (so_counter s1) (so_uia s1)" and msaa: "msaa_inv (so_counter s1) (so_msaa s1)"
    and apart: "\<And>m. \<not> (uia_holds m (so_uia s1) \<and> msaa_holds m (so_msaa s1))"
    and held: "\<And>m. store_holds m s1 \<Longrightarrow> m = n \<or> store_holds m s"
    and new: "n = so_counter s \<and> so_counter s < so_counter s1 \<or> store_holds n s"
  shows "ids_inv owner (tag_node n t s1) \<and> store_change owner s (tag_node n t s1)"
proof
  have keeps: "store_keeps (tag_node n t s1) c \<longleftrightarrow> c = CarriedNode n \<or> store_keeps s c" for c
    unfolding tag_node_keeps using same by (auto simp: store_keeps_def split: carried.split)
  have below: "n < so_counter s1"
    using new ids_invD(4,5) [OF ids, of n] count by auto
  show "ids_inv owner (tag_node n t s1)"
    unfolding ids_inv_def
  proof (intro conjI allI impI)
    show "\<not> (uia_holds m (so_uia (tag_node n t s1)) \<and> msaa_holds m (so_msaa (tag_node n t s1)))" for m
      using apart by simp
    show "store_keeps (tag_node n t s1) (CarriedNode m)" if "store_holds m (tag_node n t s1)" for m
      using that held [of m] ids_invD(4) [OF ids, of m] keeps by auto
    show "m < so_counter (tag_node n t s1)" if "store_keeps (tag_node n t s1) (CarriedNode m)" for m
      using that keeps below ids_invD(5) [OF ids, of m] count by auto
    show "bt_get (so_anchor_nodes (tag_node n t s1)) a = Some (owner a)" if "store_keeps (tag_node n t s1) (CarriedAnchor a)" for a
      using that keeps same ids_invD(6) [OF ids, of a] by simp
  qed (use uia msaa in simp_all)
  have unmade: "unmade owner s c" if "unmade owner (tag_node n t s1) c" for c
  proof (cases c)
    case (CarriedNode m)
    then show ?thesis using that count by auto
  next
    case (CarriedAnchor a)
    have "owner_gone owner (tag_node n t s1) a" if "owner_gone owner s a"
      using that count held [of "owner a"] new by (auto simp: owner_gone_def)
    then show ?thesis using that CarriedAnchor by auto
  qed
  show "store_change owner s (tag_node n t s1)"
    unfolding store_change_def keeps
    using unmade new ids_invD(4) [OF ids, of n] by auto
qed

lemma tag_held:
  assumes "ids_inv owner s" and "store_holds n s"
  shows "ids_inv owner (tag_node n t s) \<and> store_change owner s (tag_node n t s)"
  using assms ids_invD [OF assms(1)] by (intro tagged_ids) auto

lemma tag_held_list:
  assumes "ids_inv owner s" and "list_all (\<lambda>n. store_holds n s) ns"
  shows "ids_inv owner (fold (\<lambda>n. tag_node n t) ns s) \<and> store_change owner s (fold (\<lambda>n. tag_node n t) ns s)"
  using assms
proof (induction ns arbitrary: s)
  case (Cons n ns)
  note one = tag_held [OF Cons.prems(1), of n t]
  have "ids_inv owner (fold (\<lambda>n. tag_node n t) ns (tag_node n t s)) \<and>
      store_change owner (tag_node n t s) (fold (\<lambda>n. tag_node n t) ns (tag_node n t s))"
    using Cons.IH [of "tag_node n t s"] one Cons.prems(2) by simp
  then show ?case using one Cons.prems(2) store_change_trans [of owner s "tag_node n t s"] by auto
qed (simp add: store_change_refl)

lemma held_count_prefix: "list_all (\<lambda>n. store_holds n s) (take (held_count chain s) chain)"
  by (induction chain) simp_all

lemma tag_copied_held:
  fixes s s' :: "('o, 'r) store"
  assumes "\<And>m. store_holds m s = store_holds m s'"
  shows "fold (\<lambda>n s. if store_holds n s then tag_node n t s else s) nodes s =
    fold (\<lambda>n. tag_node n t) (filter (\<lambda>n. store_holds n s') nodes) s"
  using assms by (induction nodes arbitrary: s) simp_all

lemma tag_copied_filter: "tag_copied t nodes s = fold (\<lambda>n. tag_node n t) (filter (\<lambda>n. store_holds n s) nodes) s"
  by (simp add: tag_copied_def tag_copied_held)

lemma nodes_existing_ids:
  assumes "ids_inv owner s"
  shows "ids_inv owner (fst (nodes_existing runtime_id t s)) \<and> store_change owner s (fst (nodes_existing runtime_id t s))"
proof (cases "ur_forward (so_uia s) runtime_id")
  case None
  then show ?thesis using assms by (simp add: nodes_existing_def uia_existing_def store_change_refl)
next
  case (Some n)
  then have "store_holds n s"
    using uia_invD(1) [OF ids_invD(1) [OF assms]] by (simp add: store_holds_def uia_holds_def)
  then show ?thesis using Some tag_held [OF assms] by (simp add: nodes_existing_def uia_existing_def)
qed

lemma nodes_keep_ids:
  assumes "ids_inv owner s" and "so_counter s \<noteq> - 1"
  shows "ids_inv owner (fst (nodes_keep runtime_id element t s)) \<and> store_change owner s (fst (nodes_keep runtime_id element t s))"
proof -
  obtain counter uia n replaced where k: "uia_keep runtime_id element (so_counter s, so_uia s) = ((counter, uia), n, replaced)"
    by (metis surj_pair)
  note inv = uia_keep_inv [OF ids_invD(1) [OF assms(1)] assms(2) k]
  have fresh: "\<not> msaa_holds (so_counter s) (so_msaa s)"
    using msaa_invD(1) [OF ids_invD(2) [OF assms(1)]] by blast
  have "ids_inv owner (tag_node n t (s\<lparr>so_counter := counter, so_uia := uia\<rparr>)) \<and>
      store_change owner s (tag_node n t (s\<lparr>so_counter := counter, so_uia := uia\<rparr>))"
  proof (rule tagged_ids [OF assms(1)])
    show "msaa_inv (so_counter (s\<lparr>so_counter := counter, so_uia := uia\<rparr>)) (so_msaa (s\<lparr>so_counter := counter, so_uia := uia\<rparr>))"
      using msaa_inv_mono [OF ids_invD(2) [OF assms(1)]] inv by simp
    show "\<not> (uia_holds m (so_uia (s\<lparr>so_counter := counter, so_uia := uia\<rparr>)) \<and>
        msaa_holds m (so_msaa (s\<lparr>so_counter := counter, so_uia := uia\<rparr>)))" for m
      using inv ids_invD(3) [OF assms(1), of m] fresh by auto
  qed (use inv in \<open>auto simp: store_holds_def\<close>)
  then show ?thesis using k by (simp add: nodes_keep_def)
qed

lemma msaa_tagged_ids:
  assumes ids: "ids_inv owner s"
    and inv: "msaa_inv counter msaa" "so_counter s \<le> counter"
      "n = so_counter s \<and> so_counter s < counter \<or> msaa_holds n (so_msaa s)"
    and held: "\<And>m. msaa_holds m msaa \<Longrightarrow> m = n \<or> msaa_holds m (so_msaa s)"
  shows "ids_inv owner (tag_node n t (s\<lparr>so_counter := counter, so_msaa := msaa\<rparr>)) \<and>
    store_change owner s (tag_node n t (s\<lparr>so_counter := counter, so_msaa := msaa\<rparr>))"
proof (rule tagged_ids [OF ids])
  have fresh: "\<not> uia_holds (so_counter s) (so_uia s)"
    using uia_invD(2) [OF ids_invD(1) [OF ids], of "so_counter s"]
    by (cases "bt_get (ur_reverse (so_uia s)) (so_counter s)") (auto simp: uia_holds_def)
  show "uia_inv (so_counter (s\<lparr>so_counter := counter, so_msaa := msaa\<rparr>)) (so_uia (s\<lparr>so_counter := counter, so_msaa := msaa\<rparr>))"
    using uia_inv_mono [OF ids_invD(1) [OF ids]] inv by simp
  show "\<not> (uia_holds m (so_uia (s\<lparr>so_counter := counter, so_msaa := msaa\<rparr>)) \<and>
      msaa_holds m (so_msaa (s\<lparr>so_counter := counter, so_msaa := msaa\<rparr>)))" for m
    using held [of m] inv(3) ids_invD(3) [OF ids, of m] fresh by auto
  show "m = n \<or> store_holds m s" if "store_holds m (s\<lparr>so_counter := counter, so_msaa := msaa\<rparr>)" for m
    using that held [of m] by (auto simp: store_holds_def)
qed (use inv in \<open>auto simp: store_holds_def\<close>)

lemma nodes_msaa_ids:
  assumes "ids_inv owner s" and "so_counter s \<noteq> - 1"
  shows "ids_inv owner (fst (nodes_msaa_key key t s)) \<and> store_change owner s (fst (nodes_msaa_key key t s))"
    and "ids_inv owner (fst (nodes_insert key held role_facts at_address t s)) \<and>
      store_change owner s (fst (nodes_insert key held role_facts at_address t s))"
proof -
  obtain counter msaa n where k: "msaa_id_for key (so_counter s, so_msaa s) = ((counter, msaa), n)" by (metis surj_pair)
  have "ids_inv owner (tag_node n t (s\<lparr>so_counter := counter, so_msaa := msaa\<rparr>)) \<and>
      store_change owner s (tag_node n t (s\<lparr>so_counter := counter, so_msaa := msaa\<rparr>))"
    using msaa_id_for_inv [OF ids_invD(2) [OF assms(1)] assms(2) k] by (intro msaa_tagged_ids [OF assms(1)]) auto
  then show "ids_inv owner (fst (nodes_msaa_key key t s)) \<and> store_change owner s (fst (nodes_msaa_key key t s))"
    using k by (simp add: nodes_msaa_key_def)
next
  obtain counter msaa n where k: "msaa_insert key held role_facts at_address (so_counter s, so_msaa s) = ((counter, msaa), n)"
    by (metis surj_pair)
  have "ids_inv owner (tag_node n t (s\<lparr>so_counter := counter, so_msaa := msaa\<rparr>)) \<and>
      store_change owner s (tag_node n t (s\<lparr>so_counter := counter, so_msaa := msaa\<rparr>))"
    using insert_locked_inv [OF ids_invD(2) [OF assms(1)] assms(2) k [unfolded msaa_insert_def]]
    by (intro msaa_tagged_ids [OF assms(1)]) auto
  then show "ids_inv owner (fst (nodes_insert key held role_facts at_address t s)) \<and>
      store_change owner s (fst (nodes_insert key held role_facts at_address t s))"
    using k by (simp add: nodes_insert_def)
qed

lemma found_tagged_ids:
  assumes "ids_inv owner s"
  shows "ids_inv owner (found_tagged key identity child at_address t s) \<and>
    store_change owner s (found_tagged key identity child at_address t s)"
proof -
  obtain found where f: "msaa_find key identity child at_address (so_msaa s) = Some found"
    "case found of FoundObject n object \<Rightarrow> msaa_holds n (so_msaa s) | FoundKey n object role \<Rightarrow> msaa_holds n (so_msaa s) | FoundNothing \<Rightarrow> True"
    using msaa_find_kept [OF ids_invD(2) [OF assms]] by blast
  then show ?thesis
    using tag_held [OF assms] assms
    by (cases found) (auto simp: found_tagged_def nodes_find_def store_holds_def store_change_refl)
qed

lemma nodes_touch_ids:
  assumes "ids_inv owner s"
  shows "ids_inv owner (nodes_touch n t s) \<and> store_change owner s (nodes_touch n t s)"
  using assms tag_held [OF assms, of n t] by (simp add: nodes_touch_def store_holds_def store_change_refl)

lemma nodes_reissue_ids:
  assumes "ids_inv owner s"
  shows "ids_inv owner (nodes_reissue n name t s) \<and> store_change owner s (nodes_reissue n name t s)"
proof (cases "msaa_holds n (so_msaa s)")
  case True
  have "ids_inv owner (tag_node n t (s\<lparr>so_counter := so_counter s, so_msaa := reissue n name (so_msaa s)\<rparr>)) \<and>
      store_change owner s (tag_node n t (s\<lparr>so_counter := so_counter s, so_msaa := reissue n name (so_msaa s)\<rparr>))"
    using reissue_inv [OF ids_invD(2) [OF assms], of n name] True by (intro msaa_tagged_ids [OF assms]) auto
  then show ?thesis using True by (simp add: nodes_reissue_def)
qed (use assms in \<open>simp add: nodes_reissue_def store_change_refl\<close>)

lemma tag_anchors_simps:
  "so_counter (tag_anchors node as t s) = so_counter s" "so_uia (tag_anchors node as t s) = so_uia s"
  "so_msaa (tag_anchors node as t s) = so_msaa s" "so_nodes (tag_anchors node as t s) = so_nodes s"
  "bt_get (so_anchors (tag_anchors node as t s)) a \<noteq> None \<longleftrightarrow> a \<in> set as \<or> bt_get (so_anchors s) a \<noteq> None"
  "bt_get (so_anchor_nodes (tag_anchors node as t s)) a = (if a \<in> set as then Some node else bt_get (so_anchor_nodes s) a)"
  unfolding tag_anchors_def by (induction as arbitrary: s) (simp_all add: tag_anchor_def tag_entry_def)

lemma write_anchors_ids:
  assumes ids: "ids_inv owner s" and adds: "adds \<or> touched = []" and own: "list_all (\<lambda>a. owner a = node) touched"
  shows "ids_inv owner (write_anchors adds node touched t s) \<and> store_change owner s (write_anchors adds node touched t s)"
proof (cases "adds \<and> store_holds node s")
  case True
  let ?s = "tag_anchors node touched t s"
  have holds: "store_holds n ?s = store_holds n s" for n by (simp add: store_holds_def tag_anchors_simps)
  have keeps: "store_keeps ?s c \<longleftrightarrow> store_keeps s c \<or> (\<exists>a. c = CarriedAnchor a \<and> a \<in> set touched)" for c
    using tag_anchors_simps(5) [of node touched t s] by (auto simp: store_keeps_def tag_anchors_simps(4) split: carried.split)
  have unmade: "unmade owner ?s c = unmade owner s c" for c
    by (cases c) (simp_all add: owner_gone_def holds tag_anchors_simps)
  have "ids_inv owner ?s"
    unfolding ids_inv_def keeps
    using ids own by (auto simp: ids_inv_def tag_anchors_simps holds list_all_iff)
  moreover have "unmade owner s (CarriedAnchor a)" if "a \<in> set touched" for a
    using that own True by (auto simp: owner_gone_def list_all_iff)
  ultimately have "ids_inv owner ?s \<and> store_change owner s ?s"
    by (auto simp: store_change_def keeps unmade)
  then show ?thesis using True by (simp add: write_anchors_def)
next
  case False
  then have "write_anchors adds node touched t s = s"
    using adds by (auto simp: write_anchors_def tag_anchors_def)
  then show ?thesis using ids by (simp add: store_change_refl)
qed

lemma bt_get_fold_remove: "bt_get (fold bt_remove ns m) k = (if k \<in> set ns then None else bt_get m k)"
  by (induction ns arbitrary: m) simp_all

lemma forget_nodes_keeps:
  "store_keeps (forget_nodes gone s) c \<longleftrightarrow>
     store_keeps s c \<and> (case c of CarriedNode n \<Rightarrow> n \<notin> set gone | CarriedAnchor a \<Rightarrow> \<not> goes_with gone s a)"
  by (auto simp: store_keeps_def forget_nodes_def bt_get_fold_remove split: carried.split)

text \<open>Nodes that leave the registries, the tags of their anchors with them.\<close>

lemma forgotten_ids:
  assumes ids: "ids_inv owner s"
    and same: "so_nodes s1 = so_nodes s" "so_anchors s1 = so_anchors s" "so_anchor_nodes s1 = so_anchor_nodes s"
      "so_counter s1 = so_counter s"
    and uia: "uia_inv (so_counter s) (so_uia s1)" and msaa: "msaa_inv (so_counter s) (so_msaa s1)"
    and held: "\<And>m. store_holds m s1 \<longleftrightarrow> m \<notin> set gone \<and> store_holds m s"
    and parts: "\<And>m. uia_holds m (so_uia s1) \<Longrightarrow> uia_holds m (so_uia s)" "\<And>m. msaa_holds m (so_msaa s1) \<Longrightarrow> msaa_holds m (so_msaa s)"
    and issued: "list_all (\<lambda>n. store_keeps s (CarriedNode n)) gone"
  shows "ids_inv owner (forget_nodes gone s1) \<and> store_change owner s (forget_nodes gone s1)"
proof
  let ?s = "forget_nodes gone s1"
  have s1: "store_keeps s1 c = store_keeps s c" "goes_with gone s1 = goes_with gone s" for c
    using same by (simp_all add: store_keeps_def goes_with_def fun_eq_iff split: carried.split)
  have reg: "so_uia ?s = so_uia s1" "so_msaa ?s = so_msaa s1" "so_counter ?s = so_counter s"
    by (simp_all add: forget_nodes_def same)
  have holds: "store_holds m ?s \<longleftrightarrow> m \<notin> set gone \<and> store_holds m s" for m
    using held [of m] by (simp add: store_holds_def reg)
  note keeps = forget_nodes_keeps [of gone s1, unfolded s1]
  show "ids_inv owner ?s"
    unfolding ids_inv_def
  proof (intro conjI allI impI)
    show "\<not> (uia_holds m (so_uia ?s) \<and> msaa_holds m (so_msaa ?s))" for m
      using parts ids_invD(3) [OF ids, of m] by (auto simp: reg)
    show "store_keeps ?s (CarriedNode m)" if "store_holds m ?s" for m
      using that holds ids_invD(4) [OF ids, of m] keeps by simp
    show "m < so_counter ?s" if "store_keeps ?s (CarriedNode m)" for m
      using that keeps ids_invD(5) [OF ids, of m] by (simp add: reg)
    show "bt_get (so_anchor_nodes ?s) a = Some (owner a)" if k: "store_keeps ?s (CarriedAnchor a)" for a
      using k keeps ids_invD(6) [OF ids, of a] by (simp add: forget_nodes_def same s1)
  qed (use uia msaa reg in simp_all)
  have gone: "owner_gone owner ?s a" if "store_keeps s (CarriedAnchor a)" "goes_with gone s a" for a
    using that ids_invD(6) [OF ids, of a] issued ids_invD(5) [OF ids]
    by (auto simp: goes_with_def owner_gone_def holds reg list_all_iff)
  have more_gone: "owner_gone owner ?s a" if "owner_gone owner s a" for a
    using that holds by (auto simp: owner_gone_def reg)
  show "store_change owner s ?s"
    unfolding store_change_def
  proof (intro conjI allI impI)
    fix c
    show "unmade owner s c" if "unmade owner ?s c"
      using that more_gone by (cases c) (auto simp: reg)
    show "\<not> unmade owner ?s c" if "store_keeps s c \<and> \<not> store_keeps ?s c"
      using that gone ids_invD(5) [OF ids] by (cases c) (auto simp: keeps reg)
  qed (simp add: keeps)
qed

lemma store_forget_window_ids:
  assumes "ids_inv owner s"
  shows "ids_inv owner (fst (store_forget_window hwnd s)) \<and> store_change owner s (fst (store_forget_window hwnd s))"
proof -
  obtain msaa gone where f: "forget_window hwnd (so_msaa s) = (msaa, gone)" by fastforce
  note inv = forget_window_inv [OF ids_invD(2) [OF assms] f]
  have gone: "msaa_holds n (so_msaa s)" if "n \<in> set gone" for n
    using that f bt_mem_entries [of n _ "mr_nodes (so_msaa s)"]
    by (auto simp: forget_window_def Let_def msaa_holds_def)
  have "ids_inv owner (forget_nodes gone (s\<lparr>so_msaa := msaa\<rparr>)) \<and> store_change owner s (forget_nodes gone (s\<lparr>so_msaa := msaa\<rparr>))"
    using inv gone ids_invD [OF assms]
    by (intro forgotten_ids [OF assms]) (auto simp: store_holds_def list_all_iff)
  then show ?thesis using f by (simp add: store_forget_window_def)
qed

section \<open>What the queue records of what waits and was written\<close>

definition mentions :: "carried \<Rightarrow> 'x outpost_waiting list \<Rightarrow> nat" where
  "mentions c ws = count_list (all_of touched_of ws) c"

lemma mentions_zero: "mentions c ws = 0 \<longleftrightarrow> c \<notin> set (all_of touched_of ws)"
  by (simp only: mentions_def count_list_0_iff)

lemma mentions_append [simp]: "mentions c (xs @ ys) = mentions c xs + mentions c ys"
  by (simp add: mentions_def)

lemma push_mentions:
  "mentions c (pd_ordinary (push_message message touched p)) = mentions c (pd_ordinary p) + count_list touched c"
  "length (all_of touched_of (pd_ordinary (push_message message touched p))) =
     length (all_of touched_of (pd_ordinary p)) + length touched"
  by (cases rule: push_message_cases [where message = message and touched = touched and p = p]; simp add: mentions_def)+

lemma numbered_append: "numbered k (xs @ ys) = numbered k xs @ numbered (k + messages_counted xs) ys"
  by (induction k xs rule: numbered.induct) (simp_all add: messages_counted_def Let_def)

lemma messages_counted_append [simp]: "messages_counted (xs @ ys) = messages_counted xs + messages_counted ys"
  by (simp add: messages_counted_def)

lemma named_at_message:
  "named_at c (ws @ [WaitMessage m touched]) =
     named_at c ws @ (if c \<in> set touched then [messages_counted (ws @ [WaitMessage m touched])] else [])"
  by (simp add: named_at_def numbered_append Let_def) (simp add: messages_counted_def)

lemma named_at_flushed [simp]: "named_at c (ws @ [WaitFlushed channel]) = named_at c ws"
  by (simp add: named_at_def numbered_append)

lemma one_more_get:
  "bt_get (fold one_more ts m) c =
     (if c \<in> set ts
      then let rep = (case bt_get m c of Some rep \<Rightarrow> rep | None \<Rightarrow> \<lparr>rp_position = 0, rp_waiting = 0\<rparr>)
           in Some (rep\<lparr>rp_waiting := rp_waiting rep + word_of_nat (count_list ts c)\<rparr>)
      else bt_get m c)"
proof (induction ts arbitrary: m)
  case (Cons x ts)
  show ?case
    using Cons.IH [of "one_more x m"] count_list_0_iff [of ts c]
    by (auto simp: one_more_def Let_def add.assoc split: option.split)
qed simp

lemma sat_sub_twice: "sat_sub (sat_sub a 1) (word_of_nat n) = sat_sub a (word_of_nat (Suc n))"
  if "Suc n \<le> unat (a :: u32)"
proof -
  have n: "unat (word_of_nat n :: u32) = n" "unat (word_of_nat (Suc n) :: u32) = Suc n"
    using that unat_max_bound [of a] by (simp_all add: unat_of_nat del: of_nat_Suc)
  show ?thesis
    using n by (simp add: word_unat_eq_iff unat_sat_sub del: of_nat_Suc)
qed

lemma report_written_get:
  assumes "\<And>rep. bt_get m c = Some rep \<Longrightarrow> count_list ts c \<le> unat (rp_waiting rep)"
  shows "bt_get (fold (report_written pos) ts m) c =
    (if c \<in> set ts
     then map_option (\<lambda>rep. rep\<lparr>rp_waiting := sat_sub (rp_waiting rep) (word_of_nat (count_list ts c)), rp_position := pos\<rparr>) (bt_get m c)
     else bt_get m c)"
  using assms
proof (induction ts arbitrary: m)
  case (Cons x ts)
  show ?case
  proof (cases "x = c")
    case False
    then have "bt_get (report_written pos x m) c = bt_get m c" by (simp add: report_written_def split: option.split)
    then show ?thesis using False Cons.IH [of "report_written pos x m"] Cons.prems by simp
  next
    case True
    show ?thesis
    proof (cases "bt_get m c")
      case None
      then have "report_written pos x m = m" using True by (simp add: report_written_def)
      then show ?thesis using True None Cons.IH [of m] by simp
    next
      case (Some rep)
      then have enough: "Suc (count_list ts c) \<le> unat (rp_waiting rep)" using Cons.prems True by simp
      have m: "bt_get (report_written pos x m) c = Some (rep\<lparr>rp_waiting := sat_sub (rp_waiting rep) 1, rp_position := pos\<rparr>)"
        using True Some by (simp add: report_written_def)
      have "count_list ts c \<le> unat (sat_sub (rp_waiting rep) 1)" using enough by (simp add: unat_sat_sub)
      then have "bt_get (fold (report_written pos) ts (report_written pos x m)) c =
          Some (rep\<lparr>rp_waiting := sat_sub (sat_sub (rp_waiting rep) 1) (word_of_nat (count_list ts c)), rp_position := pos\<rparr>)"
        using Cons.IH [of "report_written pos x m"] m count_list_0_iff [of ts c] by (auto simp: sat_sub_def)
      then show ?thesis using True Some sat_sub_twice [OF enough] by (simp del: of_nat_Suc)
    qed
  qed
qed simp

fun settled :: "('x, 'o, 'r) outpost_state \<Rightarrow> carried \<Rightarrow> nat \<Rightarrow> bool" where
  "settled st (CarriedNode n) k \<longleftrightarrow> False"
| "settled st (CarriedAnchor a) k \<longleftrightarrow> k \<le> os_acknowledged st"

definition clear :: "carried \<Rightarrow> ('x, 'o, 'r) outpost_state \<Rightarrow> bool" where
  "clear c st \<longleftrightarrow>
     bt_get (pd_reported (os_pending st)) c = None \<and> mentions c (pd_ordinary (os_pending st)) = 0 \<and>
     list_all (settled st c) (named_at c (os_written st))"

definition exact :: "carried \<Rightarrow> ('x, 'o, 'r) outpost_state \<Rightarrow> bool" where
  "exact c st \<longleftrightarrow>
     (case bt_get (pd_reported (os_pending st)) c of
        None \<Rightarrow> clear c st
      | Some rep \<Rightarrow>
          unat (rp_waiting rep) = mentions c (pd_ordinary (os_pending st)) \<and>
          list_all (\<lambda>k. k \<le> unat (rp_position rep) \<or> settled st c k) (named_at c (os_written st)))"

lemma clear_exact: "clear c st \<Longrightarrow> exact c st"
  by (simp add: exact_def clear_def)

definition store_inv :: "(u64 \<Rightarrow> u64) \<Rightarrow> ('x, 'o, 'r) outpost_state \<Rightarrow> bool" where
  "store_inv owner st \<longleftrightarrow>
     ids_inv owner (os_store st) \<and>
     pd_position (os_pending st) = word_of_nat (messages_counted (os_written st)) \<and>
     messages_counted (os_written st) < 2 ^ 64 \<and>
     length (all_of touched_of (pd_ordinary (os_pending st))) < 2 ^ 32 \<and>
     (\<forall>c. store_keeps (os_store st) c \<longrightarrow> exact c st) \<and>
     (\<forall>c. \<not> store_keeps (os_store st) c \<and> unmade owner (os_store st) c \<longrightarrow> clear c st)"

lemma store_invD:
  assumes "store_inv owner st"
  shows "ids_inv owner (os_store st)"
    "pd_position (os_pending st) = word_of_nat (messages_counted (os_written st))"
    "messages_counted (os_written st) < 2 ^ 64"
    "length (all_of touched_of (pd_ordinary (os_pending st))) < 2 ^ 32"
    "store_keeps (os_store st) c \<Longrightarrow> exact c st"
    "\<not> store_keeps (os_store st) c \<Longrightarrow> unmade owner (os_store st) c \<Longrightarrow> clear c st"
  using assms unfolding store_inv_def by blast+

lemma store_new_keeps: "\<not> store_keeps store_new c"
  by (simp add: store_keeps_def store_new_def split: carried.split)

lemma store_inv_start: "store_inv owner (outpost_start clock)"
  by (simp add: store_inv_def outpost_start_def ids_inv_new clear_def pending_new_def mentions_def named_at_def
      messages_counted_def store_new_keeps)

lemma exact_cong:
  assumes "os_pending st' = os_pending st" "os_written st' = os_written st" "os_acknowledged st' = os_acknowledged st"
  shows "clear c st' = clear c st" "exact c st' = exact c st"
proof -
  have "settled st' c = settled st c"
    by (cases c) (simp_all add: fun_eq_iff assms)
  then show "clear c st' = clear c st" "exact c st' = exact c st"
    by (simp_all add: clear_def exact_def assms split: option.split)
qed

lemma store_only:
  assumes "store_inv owner st" and "ids_inv owner (f (os_store st))" and "store_change owner (os_store st) (f (os_store st))"
  shows "store_inv owner (on_store f st)"
proof -
  have c: "clear c (on_store f st) = clear c st" "exact c (on_store f st) = exact c st" for c
    by (rule exact_cong; simp add: on_store_def)+
  show ?thesis
    unfolding store_inv_def c
  proof (intro conjI allI impI)
    fix c
    show "exact c st" if "store_keeps (os_store (on_store f st)) c"
      using that assms(3) store_invD(5,6) [OF assms(1), of c] clear_exact [of c st]
      by (auto simp: store_change_def on_store_def)
    show "clear c st" if "\<not> store_keeps (os_store (on_store f st)) c \<and> unmade owner (os_store (on_store f st)) c"
      using that assms(3) store_invD(6) [OF assms(1), of c] by (auto simp: store_change_def on_store_def)
  qed (use assms(2) store_invD(2-4) [OF assms(1)] in \<open>simp_all add: on_store_def\<close>)
qed

lemma retain_first_set: "set (retain_first seen xs) = set xs - set seen"
  by (induction seen xs rule: retain_first.induct) auto

lemma publish_inv:
  assumes inv: "store_inv owner st" and ok: "store_ok owner st (CallPublish message)"
  shows "store_inv owner (on_pending (pending_push (record_message message)) st)"
proof -
  let ?touched = "carried_of (named_by message)" and ?p = "os_pending st"
  let ?st = "on_pending (pending_push (record_message message)) st"
  have p: "os_pending ?st = push_message message ?touched ?p" "os_store ?st = os_store st" "os_written ?st = os_written st"
    "os_acknowledged ?st = os_acknowledged st"
    by (simp_all add: on_pending_def record_message_def)
  have pos: "pd_position (push_message message ?touched ?p) = pd_position ?p"
    and reported: "pd_reported (push_message message ?touched ?p) = fold one_more ?touched (pd_reported ?p)"
    by (simp_all add: push_message_def Let_def split_beta)
  have settled: "settled ?st c = settled st c" for c by (cases c) (simp_all add: fun_eq_iff p)
  have total: "length (all_of touched_of (pd_ordinary (os_pending ?st))) < 2 ^ 32"
    using ok by (simp add: p push_mentions)
  have room: "mentions c (pd_ordinary ?p) + count_list ?touched c < 2 ^ 32" for c
    using total count_le_length [of "all_of touched_of (pd_ordinary (os_pending ?st))" c]
    by (simp add: p push_mentions(1) flip: mentions_def)
  have exact: "exact c ?st" if e: "exact c st" for c
  proof (cases "bt_get (pd_reported ?p) c")
    case None
    then have "clear c st" using e by (simp add: exact_def)
    then show ?thesis
      using None room [of c] count_list_0_iff [of ?touched c]
      by (auto simp: exact_def clear_def p reported one_more_get settled push_mentions Let_def unat_of_nat list_all_iff)
  next
    case (Some rep)
    then have "unat (rp_waiting rep + word_of_nat (count_list ?touched c)) = unat (rp_waiting rep) + count_list ?touched c"
      using e room [of c] by (simp add: exact_def unat_word_ariths unat_of_nat)
    then show ?thesis
      using e Some count_list_0_iff [of ?touched c]
      by (auto simp: exact_def p reported one_more_get settled push_mentions Let_def)
  qed
  have clear: "clear c ?st" if "clear c st" "\<not> store_keeps (os_store st) c" "unmade owner (os_store st) c" for c
  proof -
    have "c \<notin> set ?touched"
      using that(2,3) ok by (cases c) (auto simp: list_all_iff store_keeps_def)
    then show ?thesis
      using that(1) count_list_0_iff [of ?touched c] by (simp add: clear_def p reported one_more_get settled push_mentions)
  qed
  show ?thesis
    unfolding store_inv_def
    using store_invD [OF inv] total exact clear by (simp add: p pos)
qed

lemma other_pending_inv:
  assumes inv: "store_inv owner st"
    and same: "pd_reported p = pd_reported (os_pending st)" "pd_position p = pd_position (os_pending st)"
      "all_of touched_of (pd_ordinary p) = all_of touched_of (pd_ordinary (os_pending st))"
    and written: "written = os_written st \<or> (\<exists>channel. written = os_written st @ [WaitFlushed channel])"
  shows "store_inv owner (st\<lparr>os_pending := p, os_written := written\<rparr>)"
proof -
  let ?st = "st\<lparr>os_pending := p, os_written := written\<rparr>"
  have names: "named_at c written = named_at c (os_written st)" "messages_counted written = messages_counted (os_written st)" for c
    using written by (auto simp: messages_counted_def)
  have settled: "settled ?st c = settled st c" for c by (cases c) (simp_all add: fun_eq_iff)
  have m: "mentions c (pd_ordinary p) = mentions c (pd_ordinary (os_pending st))" for c
    by (simp only: mentions_def same)
  have "clear c ?st = clear c st" "exact c ?st = exact c st" for c
    by (simp_all add: clear_def exact_def settled names m same split: option.split)
  then show ?thesis using inv by (simp add: store_inv_def names same)
qed

lemma write_message_inv:
  assumes inv: "store_inv owner st" and count: "messages_counted (os_written st) < 2 ^ 64 - 1"
    and p: "pd_ordinary (os_pending st) = WaitMessage m touched # ws" "pd_ordinary p = ws"
      "pd_position p = pd_position (number_message m touched (os_pending st))"
      "pd_reported p = pd_reported (number_message m touched (os_pending st))"
  shows "store_inv owner (st\<lparr>os_pending := p, os_written := os_written st @ [WaitMessage m touched]\<rparr>)" (is "store_inv _ ?st")
proof -
  let ?k = "messages_counted (os_written st @ [WaitMessage m touched])"
  have k: "?k < 2 ^ 64" "messages_counted (os_written st) \<le> ?k" using count by (simp_all add: messages_counted_def)
  have pos: "pd_position p = word_of_nat ?k"
    using p(3) store_invD(2) [OF inv] by (simp add: number_message_def Let_def messages_counted_def)
  have unat_pos: "unat (pd_position p) = ?k"
    unfolding pos using k(1) by (simp add: unat_of_nat del: messages_counted_append)
  have reported: "pd_reported p = fold (report_written (pd_position p)) touched (pd_reported (os_pending st))"
    using p(3,4) by (simp add: number_message_def Let_def)
  have settled: "settled ?st c = settled st c" for c by (cases c) (simp_all add: fun_eq_iff)
  have mentions: "mentions c (pd_ordinary (os_pending st)) = count_list touched c + mentions c ws" for c
    using p(1) by (simp add: mentions_def)
  have before: "j \<le> ?k" if "j \<in> set (named_at c (os_written st))" for j c
  proof -
    have "j \<le> i + messages_counted us" if "(j, t) \<in> set (numbered i us)" for j t i and us :: "'a outpost_waiting list"
      using that by (induction i us rule: numbered.induct) (auto simp: messages_counted_def Let_def split: if_splits)
    from this [of _ _ 0 "os_written st"] show ?thesis using that k(2) by (fastforce simp: named_at_def)
  qed
  have enough: "count_list touched c \<le> unat (rp_waiting rep)" if "exact c st" "bt_get (pd_reported (os_pending st)) c = Some rep" for c rep
    using that mentions [of c] by (simp add: exact_def)
  have exact: "exact c ?st" if e: "exact c st" for c
  proof (cases "bt_get (pd_reported (os_pending st)) c")
    case None
    then have "clear c st" using e by (simp add: exact_def)
    then have "c \<notin> set touched" using mentions [of c] count_list_0_iff [of touched c] by (simp add: clear_def)
    then show ?thesis
      using None \<open>clear c st\<close> mentions [of c] count_list_0_iff [of touched c] report_written_get [of "pd_reported (os_pending st)" c touched]
      by (simp add: exact_def clear_def reported settled p named_at_message)
  next
    case (Some rep)
    note got = report_written_get [of "pd_reported (os_pending st)" c touched "pd_position p", folded reported, OF enough [OF e]]
    show ?thesis
    proof (cases "c \<in> set touched")
      case False
      then show ?thesis
        using e Some got mentions [of c] count_list_0_iff [of touched c]
        by (simp add: exact_def settled p(2) named_at_message)
    next
      case True
      have "unat (sat_sub (rp_waiting rep) (word_of_nat (count_list touched c))) = mentions c ws"
        using e Some mentions [of c] enough [OF e Some] unat_max_bound [of "rp_waiting rep"]
        by (simp add: unat_sat_sub unat_of_nat exact_def)
      then show ?thesis
        using True Some got before [of _ c] by (simp add: exact_def settled p(2) named_at_message unat_pos list_all_iff)
    qed
  qed
  have clear: "clear c ?st" if "clear c st" for c
  proof -
    have "c \<notin> set touched" using that mentions [of c] count_list_0_iff [of touched c] by (simp add: clear_def)
    then show ?thesis
      using that mentions [of c] report_written_get [of "pd_reported (os_pending st)" c touched]
      by (simp add: clear_def reported settled p named_at_message)
  qed
  have len: "length (all_of touched_of (pd_ordinary p)) < 2 ^ 32"
    using store_invD(4) [OF inv] p by simp
  show ?thesis
    unfolding store_inv_def
    using store_invD(1,5,6) [OF inv] pos k(1) len exact clear by simp
qed

section \<open>What a release frees\<close>

lemma may_free_safe:
  assumes "exact c st" and "may_free held acknowledged live (os_pending st) c tags"
  shows "mentions c (pd_ordinary (os_pending st)) = 0 \<and>
    list_all (\<lambda>k. k \<le> unat acknowledged \<or> settled st c k) (named_at c (os_written st)) \<and>
    (c \<notin> set held \<or> list_all (settled st c) (named_at c (os_written st)))"
proof (cases "bt_get (pd_reported (os_pending st)) c")
  case None
  then show ?thesis using assms(1) by (simp add: exact_def clear_def list_all_iff)
next
  case (Some rep)
  then have "rp_waiting rep = 0" "unat (rp_position rep) \<le> unat acknowledged" "c \<notin> set held"
    using assms(2) by (simp_all add: may_free_def pending_report_def word_le_nat_alt)
  then show ?thesis using assms(1) Some by (auto simp: exact_def list_all_iff)
qed

lemma retag_keeps:
  "store_keeps (s\<lparr>so_nodes := bt_map f (so_nodes s), so_anchors := bt_map g (so_anchors s)\<rparr>) c = store_keeps s c"
  by (simp add: store_keeps_def split: carried.split)

lemma retag_ids:
  assumes "ids_inv owner s"
  shows "ids_inv owner (s\<lparr>so_nodes := bt_map f (so_nodes s), so_anchors := bt_map g (so_anchors s)\<rparr>)"
  using assms unfolding ids_inv_def retag_keeps by (simp add: store_holds_def)

lemma freed_mem:
  "n \<in> set (freed_nodes held acknowledged live p s) \<Longrightarrow>
     store_keeps s (CarriedNode n) \<and> (\<exists>tags. may_free held acknowledged live p (CarriedNode n) tags)"
  "a \<in> set (freed_anchors held acknowledged live p s) \<Longrightarrow>
     store_keeps s (CarriedAnchor a) \<and> (\<exists>tags. may_free held acknowledged live p (CarriedAnchor a) tags)"
  by (auto simp: freed_nodes_def freed_anchors_def store_keeps_def bt_mem_entries)

text \<open>The store once the nodes and anchors that may be freed are gone.\<close>

lemma freed_ids:
  fixes nodes anchors :: "u64 list" and s :: "('o, 'r) store"
  defines "s1 \<equiv> s\<lparr>so_uia := uia_retain (\<lambda>n. n \<notin> set nodes) (so_uia s), so_msaa := msaa_retain (\<lambda>n. n \<notin> set nodes) (so_msaa s)\<rparr>"
  defines "s3 \<equiv> forget_nodes nodes s1"
  defines "s4 \<equiv> s3\<lparr>so_anchors := fold bt_remove anchors (so_anchors s3), so_anchor_nodes := fold bt_remove anchors (so_anchor_nodes s3)\<rparr>"
  assumes ids: "ids_inv owner s" and kept: "list_all (\<lambda>n. store_keeps s (CarriedNode n)) nodes"
  shows "ids_inv owner s4"
    and "store_keeps s4 c \<longleftrightarrow> store_keeps s3 c \<and> (\<forall>a. c = CarriedAnchor a \<longrightarrow> a \<notin> set anchors)"
    and "unmade owner s4 c = unmade owner s3 c"
    and "store_change owner s s3"
    and "so_counter s4 = so_counter s"
proof -
  note uia = uia_retain_inv [OF ids_invD(1) [OF ids], of "\<lambda>n. n \<notin> set nodes"]
    and msaa = msaa_retain_inv [OF ids_invD(2) [OF ids], of "\<lambda>n. n \<notin> set nodes"]
  have s3: "ids_inv owner s3 \<and> store_change owner s s3"
    unfolding s3_def s1_def
    by (rule forgotten_ids [OF ids]) (use uia msaa kept in \<open>auto simp: store_holds_def\<close>)
  show keeps: "store_keeps s4 c \<longleftrightarrow> store_keeps s3 c \<and> (\<forall>a. c = CarriedAnchor a \<longrightarrow> a \<notin> set anchors)" for c
    by (auto simp: s4_def store_keeps_def bt_get_fold_remove split: carried.split)
  have holds: "store_holds n s4 = store_holds n s3" for n by (simp add: s4_def store_holds_def)
  show "unmade owner s4 c = unmade owner s3 c" for c
    by (cases c) (simp_all add: owner_gone_def holds, simp_all add: s4_def)
  show "ids_inv owner s4"
    unfolding ids_inv_def
  proof (intro conjI allI impI)
    show "store_keeps s4 (CarriedNode n)" if "store_holds n s4" for n
      using that holds keeps s3 ids_invD(4) [of owner s3] by simp
    show "n < so_counter s4" if "store_keeps s4 (CarriedNode n)" for n
      using that keeps s3 ids_invD(5) [of owner s3] by (simp add: s4_def)
    show "bt_get (so_anchor_nodes s4) a = Some (owner a)" if "store_keeps s4 (CarriedAnchor a)" for a
      using that keeps s3 ids_invD(6) [of owner s3 a] by (simp add: s4_def bt_get_fold_remove)
    show "\<not> (uia_holds n (so_uia s4) \<and> msaa_holds n (so_msaa s4))" for n
      using s3 ids_invD(3) [of owner s3 n] by (simp add: s4_def)
  qed (use s3 ids_invD(1,2) [of owner s3] in \<open>simp_all add: s4_def\<close>)
  show "store_change owner s s3" using s3 by simp
  show "so_counter s4 = so_counter s" by (simp add: s4_def s3_def s1_def forget_nodes_def)
qed

lemma release_inv:
  assumes inv: "store_inv owner st" and ok: "store_ok owner st (CallRelease held acknowledged live)"
  shows "store_inv owner (fst (store_step put st (CallRelease held acknowledged live)))"
proof -
  let ?p = "os_pending st" and ?s = "os_store st" and ?ack = "max (os_acknowledged st) (unat acknowledged)"
  let ?nodes = "freed_nodes held acknowledged live ?p ?s" and ?anchors = "freed_anchors held acknowledged live ?p ?s"
  let ?tags = "?s\<lparr>so_nodes := bt_map (\<lambda>_. live_tags live) (so_nodes ?s), so_anchors := bt_map (\<lambda>_. live_tags live) (so_anchors ?s)\<rparr>"
  note ids = retag_ids [OF store_invD(1) [OF inv], of "\<lambda>_. live_tags live" "\<lambda>_. live_tags live"]
  have unmade: "unmade owner ?tags c = unmade owner ?s c" for c
    by (cases c) (simp_all add: owner_gone_def store_holds_def)
  have grows: "settled st' c k" if "settled st c k" "os_acknowledged st' = ?ack" for st' :: "('a, 'b, 'c) outpost_state" and c k
    using that by (cases c) simp_all
  show ?thesis
  proof (cases "?nodes = [] \<and> ?anchors = []")
    case True
    let ?st = "st\<lparr>os_pending := ?p, os_store := ?tags, os_acknowledged := ?ack\<rparr>"
    have st: "fst (store_step put st (CallRelease held acknowledged live)) = ?st"
      using True by (simp add: release_def Let_def)
    have "clear c ?st" if "clear c st" for c
      using that grows [of c] by (auto simp: clear_def list_all_iff)
    moreover have "exact c ?st" if "exact c st" for c
      using that grows [of c] calculation [of c] by (auto simp: exact_def list_all_iff split: option.splits)
    ultimately show ?thesis
      unfolding st store_inv_def using store_invD [OF inv] ids by (simp add: retag_keeps unmade)
  next
    case False
    define s3 where "s3 = forget_nodes ?nodes (?tags\<lparr>so_uia := uia_retain (\<lambda>n. n \<notin> set ?nodes) (so_uia ?tags),
      so_msaa := msaa_retain (\<lambda>n. n \<notin> set ?nodes) (so_msaa ?tags)\<rparr>)"
    define s4 where "s4 = s3\<lparr>so_anchors := fold bt_remove ?anchors (so_anchors s3),
      so_anchor_nodes := fold bt_remove ?anchors (so_anchor_nodes s3)\<rparr>"
    let ?st = "st\<lparr>os_pending := pending_forget (\<lambda>c. \<not> store_keeps s4 c) ?p, os_store := s4, os_acknowledged := ?ack\<rparr>"
    have st: "fst (store_step put st (CallRelease held acknowledged live)) = ?st"
      using False unfolding s4_def s3_def by (auto simp: release_def Let_def)
    have kept: "list_all (\<lambda>n. store_keeps ?tags (CarriedNode n)) ?nodes"
      using freed_mem(1) [of _ held acknowledged live ?p ?s] by (simp add: list_all_iff retag_keeps)
    note freed = freed_ids(1-3) [OF ids kept, where anchors = ?anchors, folded s3_def, folded s4_def]
      freed_ids(4) [OF ids kept, folded s3_def]
    have change: "store_keeps s3 c \<Longrightarrow> store_keeps ?s c \<or> unmade owner ?s c" "unmade owner s3 c \<Longrightarrow> unmade owner ?s c"
      "store_keeps ?s c \<Longrightarrow> \<not> store_keeps s3 c \<Longrightarrow> \<not> unmade owner s3 c" for c
      using freed(4) unfolding store_change_def retag_keeps unmade by blast+
    have p: "bt_get (pd_reported (pending_forget (\<lambda>c. \<not> store_keeps s4 c) ?p)) c =
        (if store_keeps s4 c then bt_get (pd_reported ?p) c else None)"
      "pd_ordinary (pending_forget (\<lambda>c. \<not> store_keeps s4 c) ?p) = pd_ordinary ?p"
      "pd_position (pending_forget (\<lambda>c. \<not> store_keeps s4 c) ?p) = pd_position ?p" for c
      by (simp_all add: pending_forget_def)
    have clear: "clear c ?st" if "clear c st" for c
      using that grows [of c] by (auto simp: clear_def p list_all_iff)
    have exact: "exact c ?st" if "store_keeps s4 c" for c
    proof -
      have "exact c st"
        using that freed(2) [of c] change(1) [of c] store_invD(5,6) [OF inv, of c] clear_exact [of c st] by blast
      then show ?thesis
        using that grows [of c] clear [of c] by (auto simp: exact_def p list_all_iff split: option.splits)
    qed
    have "clear c ?st" if new: "\<not> store_keeps s4 c" "unmade owner s4 c" for c
    proof (cases "store_keeps ?s c")
      case False
      then show ?thesis using new(2) freed(3) [of c] change(2) [of c] store_invD(6) [OF inv, of c] clear by simp
    next
      case True
      then have "store_keeps s3 c" using new(2) freed(3) [of c] change(3) [of c] by auto
      then obtain a where c: "c = CarriedAnchor a" "a \<in> set ?anchors" using new(1) freed(2) [of c] by auto
      then obtain tags where "may_free held acknowledged live ?p c tags" using freed_mem(2) by blast
      from may_free_safe [OF store_invD(5) [OF inv True] this] show ?thesis
        using new(1) c(1) by (auto simp: clear_def p list_all_iff le_max_iff_disj)
    qed
    then show ?thesis
      unfolding st store_inv_def using store_invD(2-4) [OF inv] freed(1) exact by (simp add: p)
  qed
qed

lemma write_inv:
  assumes inv: "store_inv owner st" and ok: "store_ok owner st CallWrite"
  shows "store_inv owner (fst (store_step put st CallWrite))"
proof (cases rule: outbound_write_cases [where put_message = put and p = "os_pending st"])
  case empty
  then show ?thesis using other_pending_inv [OF inv, of "os_pending st" "os_written st"] by simp
next
  case (ahead u us p')
  then have "pd_reported p' = pd_reported (os_pending st)" "pd_position p' = pd_position (os_pending st)"
    by (auto simp: pending_pop_def stamp_and_put_def)
  then show ?thesis using ahead other_pending_inv [OF inv, of p' "os_written st"] by simp
next
  case (ordinary w ws p')
  show ?thesis
  proof (cases w)
    case (WaitMessage m touched)
    then have "pd_reported p' = pd_reported (number_message m touched (os_pending st))"
      "pd_position p' = pd_position (number_message m touched (os_pending st))"
      using ordinary by (auto simp: pending_pop_def stamp_and_put_def number_message_def Let_def)
    then show ?thesis
      using write_message_inv [OF inv, of m touched ws p'] ok ordinary WaitMessage by simp
  next
    case (WaitFlushed channel)
    then have "pd_reported p' = pd_reported (os_pending st)" "pd_position p' = pd_position (os_pending st)"
      using ordinary by (auto simp: pending_pop_def)
    then show ?thesis
      using other_pending_inv [OF inv, of p' "os_written st @ [WaitFlushed channel]"] ordinary WaitFlushed by simp
  qed
qed

lemma step_store_inv:
  assumes "store_inv owner st" and "store_ok owner st call"
  shows "store_inv owner (fst (store_step put st call))"
proof (cases call)
  case (CallUrgent message)
  then show ?thesis
    using other_pending_inv [OF assms(1), of "pending_push (OutUrgent message) (os_pending st)" "os_written st"]
    by (simp add: on_pending_def)
next
  case (CallFlush channel)
  then show ?thesis
    using other_pending_inv [OF assms(1), of "pending_push (OutFlushed channel) (os_pending st)" "os_written st"]
    by (simp add: on_pending_def)
next
  case (CallPublish message)
  then show ?thesis using publish_inv [OF assms(1)] assms(2) by simp
next
  case (CallRelease held acknowledged live)
  then show ?thesis using release_inv [OF assms(1)] assms(2) by simp
next
  case CallWrite
  then show ?thesis using write_inv [OF assms(1)] assms(2) by simp
next
  case (CallHeldPrefix t chain)
  then show ?thesis
    using store_only [OF assms(1)] tag_held_list [OF store_invD(1) [OF assms(1)] held_count_prefix]
    by (simp add: held_prefix_def Let_def)
next
  case (CallTagCopied t nodes)
  have "list_all (\<lambda>n. store_holds n (os_store st)) (filter (\<lambda>n. store_holds n (os_store st)) nodes)"
    by (simp add: list_all_iff)
  then show ?thesis
    using CallTagCopied store_only [OF assms(1)] tag_held_list [OF store_invD(1) [OF assms(1)]]
    by (simp add: tag_copied_filter)
qed (use assms store_invD(1) [OF assms(1)] in \<open>simp_all add: store_only nodes_existing_ids nodes_keep_ids nodes_msaa_ids
      found_tagged_ids nodes_touch_ids nodes_reissue_ids write_anchors_ids store_forget_window_ids\<close>)

interpretation outpost_store: invariant_machine "store_step put" "store_ok owner" "store_inv owner" for put owner
  by unfold_locales (rule step_store_inv)

text \<open>What is freed may be named by nobody: no message that waits names it, and Core has read every message
  that did; and it is not held, unless every message that named it was read before an earlier release.\<close>

definition safely_freed :: "carried list \<Rightarrow> u64 \<Rightarrow> ('x, 'o, 'r) outpost_state \<Rightarrow> carried \<Rightarrow> bool" where
  "safely_freed held acknowledged st c \<longleftrightarrow>
     c \<notin> set (all_of touched_of (pd_ordinary (os_pending st))) \<and>
     list_all (\<lambda>k. k \<le> unat acknowledged) (named_at c (os_written st)) \<and>
     (c \<notin> set held \<or>
      (case c of
         CarriedNode n \<Rightarrow> named_at c (os_written st) = []
       | CarriedAnchor a \<Rightarrow> list_all (\<lambda>k. k \<le> os_acknowledged st) (named_at c (os_written st))))"

lemma may_free_safely:
  assumes "exact c st" and "may_free held acknowledged live (os_pending st) c tags" and "os_acknowledged st \<le> unat acknowledged"
  shows "safely_freed held acknowledged st c"
proof -
  note safe = may_free_safe [OF assms(1,2)]
  have "k \<le> unat acknowledged" if "settled st c k" for k
    using that assms(3) by (cases c) simp_all
  then have "list_all (\<lambda>k. k \<le> unat acknowledged) (named_at c (os_written st))"
    using safe by (auto simp: list_all_iff)
  moreover have "case c of CarriedNode n \<Rightarrow> named_at c (os_written st) = []
      | CarriedAnchor a \<Rightarrow> list_all (\<lambda>k. k \<le> os_acknowledged st) (named_at c (os_written st))"
    if "list_all (settled st c) (named_at c (os_written st))"
    using that by (cases c; cases "named_at c (os_written st)") (simp_all add: list_all_iff)
  ultimately show ?thesis using safe by (auto simp: safely_freed_def mentions_zero)
qed

lemma release_result:
  assumes "snd (store_step put st (CallRelease held acknowledged live)) = [r]"
  shows "re_nodes r = freed_nodes held acknowledged live (os_pending st) (os_store st)"
    "re_anchors r = freed_anchors held acknowledged live (os_pending st) (os_store st)"
    "so_uia (os_store (fst (store_step put st (CallRelease held acknowledged live)))) =
       uia_retain (\<lambda>n. n \<notin> set (re_nodes r)) (so_uia (os_store st))"
    "so_msaa (os_store (fst (store_step put st (CallRelease held acknowledged live)))) =
       msaa_retain (\<lambda>n. n \<notin> set (re_nodes r)) (so_msaa (os_store st))"
  using assms by (auto simp: release_def Let_def forget_nodes_def split: if_splits)


text \<open>A node issued, told to Core in a message, and released once Core has read it and holds nothing.\<close>

definition sample_calls :: "(unit, unit, unit) store_call list" where
  "sample_calls =
     [CallKeep [7] None \<lparr>tg_generation = 1, tg_request = 1\<rparr>,
      CallPublish (OutpostEvent 1 0 UiaBackend None None timing_default (TextChanged (node_id_new 1))), CallWrite]"

lemmas sample_evaluates =
  sample_calls_def outpost_start_def store_new_def uia_new_def on_store_def on_pending_def nodes_keep_def uia_keep_def
  id_for_locked_def tag_node_def tag_entry_def add_tag_def record_message_def carried_of_def push_node_def named_default_def
  node_id_new_def pending_new_def push_message_def merge_into_def outpost_merge_def one_more_def pending_pop_def
  stamp_and_put_def number_message_def report_written_def sat_sub_def messages_counted_def Let_def


section \<open>What a number names\<close>

lemma next_number_unused:
  assumes "store_inv owner st"
  shows "\<not> store_holds (so_counter (os_store st)) (os_store st) \<and>
    CarriedNode (so_counter (os_store st)) \<notin> set (all_of touched_of (pd_ordinary (os_pending st))) \<and>
    named_at (CarriedNode (so_counter (os_store st))) (os_written st) = []"
proof -
  let ?n = "so_counter (os_store st)"
  note ids = store_invD(1) [OF assms]
  have new: "\<not> store_keeps (os_store st) (CarriedNode ?n)" using ids_invD(5) [OF ids] by blast
  then have "clear (CarriedNode ?n) st" using store_invD(6) [OF assms, of "CarriedNode ?n"] by simp
  moreover have "xs = []" if "list_all (settled st (CarriedNode ?n)) xs" for xs
    using that by (cases xs) simp_all
  ultimately show ?thesis using new ids_invD(4) [OF ids, of ?n] by (auto simp: clear_def mentions_zero)
qed

lemma keep_number:
  assumes "nodes_keep runtime_id element t s = (s', n, replaced)"
  shows "n = (case (if runtime_id = [] then None else uia_existing runtime_id (so_uia s)) of
    Some known \<Rightarrow> known | None \<Rightarrow> so_counter s)"
  using assms by (auto simp: nodes_keep_def uia_keep_def uia_existing_def id_for_locked_def Let_def
      split: option.splits if_splits)

lemma keep_runtime_id:
  assumes "uia_inv (so_counter s) (so_uia s)" and "so_counter s \<noteq> - 1" and "runtime_id \<noteq> []"
    and "nodes_keep runtime_id element t s = (s', n, replaced)"
  shows "uia_existing runtime_id (so_uia s') = Some n \<and> runtime_id_of n (so_uia s') = Some runtime_id"
proof -
  obtain counter uia n' r' where k: "uia_keep runtime_id element (so_counter s, so_uia s) = ((counter, uia), n', r')" by (metis surj_pair)
  have inv: "uia_inv counter uia" using uia_keep_inv [OF assms(1,2) k] by simp
  have "ur_forward uia runtime_id = Some n'"
    using k assms(3) by (cases rule: id_for_locked_cases [of "so_uia s" runtime_id "so_counter s"])
      (auto simp: uia_keep_def split: option.splits)
  then show ?thesis
    using assms(4) k uia_invD(1) [OF inv] by (auto simp: nodes_keep_def uia_existing_def runtime_id_of_def)
qed



end
