(* ===== verification/Spec2Isabelle.thy ===== *)
theory Spec2Isabelle
  imports Classes Foreground_Watch Schedule_Runs Menu_Grace Generation Key_Runs Row_Pairing
    Pipe_Readers Child_Writer Listener_Backlog Object_Store
begin

text \<open>
  Verbatim is a screen reader for Windows, written in Rust. Its processes are the core, which
  decides what is spoken; the listener, which hears what Windows raises; and one outpost for each
  application. The pure logic of each is kept in crates of its own, apart from the threads and
  the Windows calls around it. This development models that logic and proves it correct.

  The listener's part:

  \<^item> \<^verbatim>\<open>Classes\<close> is \<^verbatim>\<open>verbatim-reader-rules/src/class.rs\<close>: what a window's class says of how it is read.
  \<^item> \<^verbatim>\<open>Acceptance\<close> is \<^verbatim>\<open>acceptance.rs\<close> and \<^verbatim>\<open>window.rs\<close> of that crate: which events are worth reading.
  \<^item> \<^verbatim>\<open>In_Flight\<close> is \<^verbatim>\<open>in_flight.rs\<close> of that crate: the record of one read under way, its deadline,
    its half-second judgement and its publication at its bound.
  \<^item> \<^verbatim>\<open>Protocol\<close> is \<^verbatim>\<open>verbatim-model/src/calls.rs\<close> and the facts and stamps of
    \<^verbatim>\<open>verbatim-model/src/protocol/mod.rs\<close>.
  \<^item> \<^verbatim>\<open>Focus_Events\<close> is \<^verbatim>\<open>verbatim-listener-logic/src/focus.rs\<close>: a focus event and its outcome.
  \<^item> \<^verbatim>\<open>Foreground_Watch\<close> is \<^verbatim>\<open>foreground.rs\<close> of that crate.
  \<^item> \<^verbatim>\<open>Schedule\<close> is \<^verbatim>\<open>schedule.rs\<close> of that crate: which thread reads which event, when a read is
    abandoned, and when the watchdog wakes. \<^verbatim>\<open>Schedule_Laws\<close> has its invariant and the contract each
    operation keeps, \<^verbatim>\<open>Schedule_Runs\<close> what follows for any sequence of inputs.
  \<^item> \<^verbatim>\<open>Menu_Grace\<close> is \<open>GraceState\<close> of \<^verbatim>\<open>schedule.rs\<close>: a menu's end waits for its grace to be over, and
    the idle barrier's answers wait behind it. The shell's timer is modelled beside it.

  The supervisor, which starts, gives out and ends the outposts
  (\<^verbatim>\<open>verbatim-core/src/supervisor\<close>):

  \<^item> \<^verbatim>\<open>Supervisor_Policy\<close> is \<^verbatim>\<open>policy.rs\<close>: when an outpost is wedged or retired, how long the next one
    waits after a failure, which spare is given, and which facts are held while an outpost starts.
  \<^item> \<^verbatim>\<open>Generation\<close> is \<^verbatim>\<open>generation.rs\<close>: the stages of an application's outpost, with what the app and
    the listener are told at each. \<open>life_step\<close> composes them into the life of one application's
    record, and the theorems read the app, the listener's hook and the processes off that life.

  The keyboard:

  \<^item> \<^verbatim>\<open>Gestures\<close> is \<^verbatim>\<open>verbatim-model/src/gesture.rs\<close> and \<^verbatim>\<open>keys.rs\<close>, \<^verbatim>\<open>toggle.rs\<close> and \<^verbatim>\<open>map.rs\<close> of
    \<^verbatim>\<open>verbatim-input\<close>: gesture identifiers and key names, over \<^verbatim>\<open>Strings\<close>. The library's lower-casing
    is modelled on ASCII, and the theorems that rest on it say so.
  \<^item> \<^verbatim>\<open>Key_Decisions\<close> is \<^verbatim>\<open>state.rs\<close> of that crate: the machine that swallows, passes, holds or defers
    each key. \<open>app_sees\<close> is what of it the application gets to see. \<^verbatim>\<open>Key_Runs\<close> has what follows for
    sequences of keys: the multi-press count and the double tap of the Verbatim modifier.

  Terminals, \<^verbatim>\<open>verbatim-text/src/terminal_rows/align.rs\<close>, over \<^verbatim>\<open>Indices\<close>, the saturating arithmetic
  of indices and scores:

  \<^item> \<^verbatim>\<open>Row_Keeping\<close> is \<open>keep\<close>, the alignment of two reads of a terminal by dynamic programming, with
    its optimality among all alignments. The rows must be numbered in rising order and have fewer
    than \<open>2\<^sup>3\<^sup>2 - 1\<close> pairs, as the source numbers pairs in 32 bits.
  \<^item> \<^verbatim>\<open>Row_Likeness\<close> is \<open>Likeness\<close>, the bit-parallel length of the longest common subsequence, for
    rows of fewer than 65,535 characters, as the source numbers masks in 16 bits.
  \<^item> \<^verbatim>\<open>Row_Pairing\<close> is \<open>pair\<close>, the pairing of the rows in between by likeness, with its optimality.

  The pipes between the processes, \<^verbatim>\<open>verbatim-process/src/transport.rs\<close>:

  \<^item> \<^verbatim>\<open>Frames\<close> is the framing: a header with the lengths, the body and the raw section, put in place by
    the writer and found again by the readers, with the round trip between them.
  \<^item> \<^verbatim>\<open>Pipe_Readers\<close> is \<open>PortReader\<close> and \<open>EventReader\<close>, over any answers of the kernel.
  \<^item> \<^verbatim>\<open>Pipe_Sender\<close> is \<open>Sender\<close>, over any \<open>Backlog\<close>: the locale \<open>backlog\<close> has the laws it needs of one, and
    what follows for every sequence of calls.
  \<^item> \<^verbatim>\<open>Child_Writer\<close> is \<^verbatim>\<open>verbatim-supervisor/src/writer.rs\<close>, the queue of a child's commands with its
    policy when it is full; it interprets \<open>backlog\<close>.
  \<^item> \<^verbatim>\<open>Listener_Backlog\<close> is \<open>Waiting\<close> of \<^verbatim>\<open>verbatim-listener/src/listener.rs\<close>, what waits for Core in the
    listener, with the hand-over of an application's events to its outpost's own hook.

  What an outpost tells Core, and what it keeps for as long as Core may name it:

  \<^item> \<^verbatim>\<open>Outpost_Messages\<close> has the messages of \<^verbatim>\<open>protocol/mod.rs\<close> and the events, text and nodes in them, with
    the nodes and anchors a message names and the stamp Core puts on each node.
  \<^item> \<^verbatim>\<open>Outpost_Backlog\<close> is \<^verbatim>\<open>protocol/merge.rs\<close> and \<open>Pending\<close> of \<^verbatim>\<open>verbatim-outpost/src/outpost/outbound.rs\<close>: how
    waiting messages are merged, and how those written are numbered; it interprets \<open>backlog\<close>.
  \<^item> \<^verbatim>\<open>Node_Registries\<close> is \<^verbatim>\<open>registry.rs\<close> of \<^verbatim>\<open>verbatim-uia\<close> and of \<^verbatim>\<open>verbatim-ia2\<close>: the number of each object.
  \<^item> \<^verbatim>\<open>Object_Store\<close> is \<^verbatim>\<open>verbatim-outpost/src/outpost/store/mod.rs\<close> as far as identity and release go.
    \<open>store_step\<close> composes it with the queue, and the theorems show that a release frees nothing a
    message on its way or Core may still name, and that a number never names two objects. The
    contract \<open>store_ok\<close> bounds the counters by their widths and says which anchors a message names.

  Below them, \<^verbatim>\<open>Prelude\<close> has the machine integers and durations, \<^verbatim>\<open>BTree\<close> the ordered map, and
  \<^verbatim>\<open>Machines\<close> the runs of a state machine with the locales that lift a law of one step to every
  run: an invariant kept, a quantity conserved, a state mirrored by another, a count that rises, a queue's
  output related to its input.

  A method that takes \<open>&mut self\<close> is a function that returns the new state beside its result, with
  the effects it pushes as a list in the order it pushes them. Machine integers are words of their
  width, with each saturating operation written out. What the source states as a
  \<open>debug_assert\<close> or as a duty of its caller is a hypothesis of the theorems, as a predicate on the
  sequence of calls (\<open>flight_ok\<close>, \<open>shell_ok\<close>), and each such theorem has a witness, a concrete
  sequence of calls on which the hypotheses hold.

  Every function is total but the walk back of \<open>keep\<close>, the loop of \<open>EventReader::take\<close> and the loops of the
  sender over its backlog, whose ends are proved, and no fuel is used. Logging, threads, COM and Windows calls are not
  modelled; what Windows answers to a read or a write is an input.
\<close>

end
